(* ===== verification/Prelude.thy ===== *)
theory Prelude
  imports Main "HOL-Library.Word" "HOL-Library.Multiset" "HOL-Library.Sublist"
begin

text \<open>
  What every component of the development shares: bytes and byte strings, the operations of
  Rust's slices that the crate calls (\<open>position\<close>, \<open>rposition\<close>, \<open>split\<close>,
  \<open>strip_prefix\<close>, \<open>starts_with\<close>, \<open>ends_with\<close>), the error numbers of the platform
  (\<open>libc\<close>, which is not part of the crate, hence an argument of what uses it), the
  answers a system call can give, and a locale for the invariants of transition systems.
\<close>

named_theorems slice_simps \<open>characterisations of the slice operations\<close>

section \<open>Bytes\<close>

type_synonym u8 = "8 word"
type_synonym bytes = "u8 list"

text \<open>A byte-string literal \<open>b"..."\<close> of the source.\<close>

definition bstr :: "string \<Rightarrow> bytes" where
  "bstr s = map of_char s"

lemma bstr_Nil [simp]: "bstr [] = []"
  by (simp add: bstr_def)

lemma bstr_Cons [simp]: "bstr (c # cs) = of_char c # bstr cs"
  by (simp add: bstr_def)

abbreviation SEP :: u8 where "SEP \<equiv> 47"
abbreviation DOT :: u8 where "DOT \<equiv> 46"
abbreviation NUL :: u8 where "NUL \<equiv> 0"
abbreviation NEWLINE :: u8 where "NEWLINE \<equiv> 10"
abbreviation COLON :: u8 where "COLON \<equiv> 58"
abbreviation EQUALS :: u8 where "EQUALS \<equiv> 61"

section \<open>Slices\<close>

text \<open>\<open>iter().position\<close> and \<open>iter().rposition\<close>.\<close>

fun position :: "('a \<Rightarrow> bool) \<Rightarrow> 'a list \<Rightarrow> nat option" where
  "position P [] = None"
| "position P (x # xs) = (if P x then Some 0 else map_option Suc (position P xs))"

fun rposition :: "('a \<Rightarrow> bool) \<Rightarrow> 'a list \<Rightarrow> nat option" where
  "rposition P [] = None"
| "rposition P (x # xs) =
     (case rposition P xs of
        Some i \<Rightarrow> Some (Suc i)
      | None \<Rightarrow> if P x then Some 0 else None)"

text \<open>\<open>slice::split\<close>: one more piece than there are separators.\<close>

fun split_on :: "('a \<Rightarrow> bool) \<Rightarrow> 'a list \<Rightarrow> 'a list list" where
  "split_on P [] = [[]]"
| "split_on P (x # xs) =
     (if P x then [] # split_on P xs
      else (case split_on P xs of
              [] \<Rightarrow> [[x]]
            | y # ys \<Rightarrow> (x # y) # ys))"

text \<open>\<open>slice::starts_with\<close>, \<open>slice::ends_with\<close>, \<open>slice::strip_prefix\<close>, \<open>&xs[i..j]\<close>.\<close>

fun slice_starts_with :: "'a list \<Rightarrow> 'a list \<Rightarrow> bool" where
  "slice_starts_with xs [] = True"
| "slice_starts_with [] (y # ys) = False"
| "slice_starts_with (x # xs) (y # ys) = (x = y \<and> slice_starts_with xs ys)"

definition slice_ends_with :: "'a list \<Rightarrow> 'a list \<Rightarrow> bool" where
  "slice_ends_with xs ys = slice_starts_with (rev xs) (rev ys)"

definition slice_strip_prefix :: "'a list \<Rightarrow> 'a list \<Rightarrow> 'a list option" where
  "slice_strip_prefix xs ys =
     (if slice_starts_with xs ys then Some (drop (length ys) xs) else None)"

definition slice :: "'a list \<Rightarrow> nat \<Rightarrow> nat \<Rightarrow> 'a list" where
  "slice xs i j = take (j - i) (drop i xs)"

lemma slice_starts_with_prefix [slice_simps]: "slice_starts_with xs ys \<longleftrightarrow> prefix ys xs"
  by (induction xs ys rule: slice_starts_with.induct) auto

lemma slice_ends_with_suffix [slice_simps]: "slice_ends_with xs ys \<longleftrightarrow> suffix ys xs"
  by (simp add: slice_ends_with_def slice_starts_with_prefix suffix_to_prefix)

lemma slice_ends_with_single: "slice_ends_with xs [x] \<longleftrightarrow> xs \<noteq> [] \<and> last xs = x"
  by (auto simp: slice_ends_with_suffix suffix_def) (metis append_butlast_last_id)

lemma position_None [simp]: "position P xs = None \<longleftrightarrow> (\<forall>x \<in> set xs. \<not> P x)"
  by (induction xs) auto

lemma position_Some:
  "position P xs = Some i \<longleftrightarrow> i < length xs \<and> P (xs ! i) \<and> (\<forall>j < i. \<not> P (xs ! j))"
proof (induction xs arbitrary: i)
  case Nil
  then show ?case by simp
next
  case (Cons x xs)
  show ?case
    by (cases i) (auto simp: Cons less_Suc_eq_0_disj nth_Cons')
qed

lemma position_split:
  "position P xs = Some i \<Longrightarrow> xs = take i xs @ xs ! i # drop (Suc i) xs \<and> P (xs ! i)
     \<and> (\<forall>x \<in> set (take i xs). \<not> P x)"
  by (auto simp: position_Some id_take_nth_drop in_set_conv_nth)

lemma position_append:
  "\<forall>x \<in> set xs. \<not> P x \<Longrightarrow> position P (xs @ ys) = map_option (\<lambda>i. length xs + i) (position P ys)"
proof (induction xs)
  case Nil
  then show ?case by (simp add: option.map_ident)
next
  case (Cons x xs)
  then show ?case by (cases "position P ys") (auto simp del: position_None)
qed

lemma rposition_None [simp]: "rposition P xs = None \<longleftrightarrow> (\<forall>x \<in> set xs. \<not> P x)"
  by (induction xs) (auto split: option.splits)

lemma rposition_snoc:
  "rposition P (xs @ [x]) = (if P x then Some (length xs) else rposition P xs)"
  by (induction xs) (auto split: option.splits)

lemma rposition_append:
  "\<forall>y \<in> set ys. \<not> P y \<Longrightarrow> rposition P (xs @ ys) = rposition P xs"
  by (induction ys rule: rev_induct) (simp_all add: rposition_snoc flip: append_assoc)

lemma rposition_Some:
  "rposition P xs = Some i \<Longrightarrow> i < length xs \<and> P (xs ! i) \<and> (\<forall>x \<in> set (drop (Suc i) xs). \<not> P x)"
proof (induction xs arbitrary: i)
  case Nil
  then show ?case by simp
next
  case (Cons x xs)
  then show ?case
    by (cases "rposition P xs") (auto split: if_splits)
qed

lemma rposition_less: "rposition P xs = Some i \<Longrightarrow> i < length xs"
  by (simp add: rposition_Some)

lemma rposition_mid:
  "P x \<Longrightarrow> \<forall>y \<in> set ys. \<not> P y \<Longrightarrow> rposition P (xs @ x # ys) = Some (length xs)"
  using rposition_append [of ys P "xs @ [x]"] by (simp add: rposition_snoc)

lemma split_on_nonempty [simp]: "split_on P xs \<noteq> []"
  by (cases xs) (auto split: list.splits)

lemma split_on_append:
  "P x \<Longrightarrow> split_on P (xs @ x # ys) = split_on P xs @ split_on P ys"
  by (induction xs) (auto split: list.splits)

lemma split_on_none: "\<forall>x \<in> set xs. \<not> P x \<Longrightarrow> split_on P xs = [xs]"
  by (induction xs) auto

lemma split_on_rposition:
  assumes "rposition P xs = Some i"
  shows "split_on P xs = split_on P (take i xs) @ [drop (Suc i) xs]"
proof -
  from rposition_Some [OF assms] have i: "i < length xs" "P (xs ! i)"
    and rest: "\<forall>x \<in> set (drop (Suc i) xs). \<not> P x" by auto
  have "split_on P xs = split_on P (take i xs @ xs ! i # drop (Suc i) xs)"
    using i by (simp flip: id_take_nth_drop)
  then show ?thesis using i rest by (simp add: split_on_append split_on_none)
qed

lemma split_on_pieces: "s \<in> set (split_on P xs) \<Longrightarrow> x \<in> set s \<Longrightarrow> \<not> P x \<and> x \<in> set xs"
proof (induction xs arbitrary: s)
  case Nil
  then show ?case by simp
next
  case (Cons a xs)
  obtain y ys where split: "split_on P xs = y # ys" by (cases "split_on P xs") auto
  show ?case
  proof (cases "P a \<or> s \<in> set ys")
    case True
    with Cons split show ?thesis by (auto split: if_splits)
  next
    case False
    with Cons.prems split have s: "s = a # y" and "\<not> P a" by auto
    with Cons.prems Cons.IH [of y] split show ?thesis by auto
  qed
qed

lemma slice_full [simp]: "slice xs 0 (length xs) = xs"
  by (simp add: slice_def)

lemma length_slice [simp]: "length (slice xs i j) = min (j - i) (length xs - i)"
  by (simp add: slice_def)

lemma slice_Nil_iff: "slice xs i j = [] \<longleftrightarrow> j \<le> i \<or> length xs \<le> i"
  by (auto simp: slice_def)

lemma take_slice: "i \<le> j \<Longrightarrow> j \<le> length xs \<Longrightarrow> take i xs @ slice xs i j = take j xs"
  by (simp add: slice_def flip: take_add)

section \<open>Results\<close>

text \<open>Rust's \<open>Result<T, E>\<close> is the sum \<open>'e + 'a\<close>: \<open>Inl\<close> is \<open>Err\<close>, \<open>Inr\<close> is \<open>Ok\<close>.\<close>

abbreviation Err :: "'e \<Rightarrow> 'e + 'a" where "Err \<equiv> Inl"
abbreviation Ok :: "'a \<Rightarrow> 'e + 'a" where "Ok \<equiv> Inr"

section \<open>The platform's error numbers\<close>

text \<open>
  The crate compares \<open>errno\<close> with constants of the \<open>libc\<close> crate, whose values differ per
  target. They are an argument of every definition that reads one. POSIX requires the values to
  be positive and distinct, except that \<open>EAGAIN\<close> and \<open>EWOULDBLOCK\<close> may coincide.
\<close>

type_synonym errno = int

record libc =
  EPERM :: errno
  ENOENT :: errno
  EINTR :: errno
  EACCES :: errno
  EEXIST :: errno
  EISDIR :: errno
  EINVAL :: errno
  EFBIG :: errno
  EPIPE :: errno
  EAGAIN :: errno
  EWOULDBLOCK :: errno
  ENAMETOOLONG :: errno
  EILSEQ :: errno
  ECHILD :: errno

definition posix_errnos :: "libc \<Rightarrow> bool" where
  "posix_errnos L \<longleftrightarrow>
     distinct [EPERM L, ENOENT L, EINTR L, EACCES L, EEXIST L, EISDIR L, EINVAL L, EFBIG L,
               EPIPE L, EAGAIN L, ENAMETOOLONG L, EILSEQ L, ECHILD L]
     \<and> EWOULDBLOCK L \<notin> {EPERM L, ENOENT L, EINTR L, EACCES L, EEXIST L, EISDIR L, EINVAL L,
               EFBIG L, EPIPE L, ENAMETOOLONG L, EILSEQ L, ECHILD L}
     \<and> 0 < EPERM L \<and> 0 < ENOENT L \<and> 0 < EINTR L \<and> 0 < EACCES L \<and> 0 < EEXIST L
     \<and> 0 < EISDIR L \<and> 0 < EINVAL L \<and> 0 < EFBIG L \<and> 0 < EPIPE L \<and> 0 < EAGAIN L
     \<and> 0 < EWOULDBLOCK L \<and> 0 < ENAMETOOLONG L \<and> 0 < EILSEQ L \<and> 0 < ECHILD L"

text \<open>The two targets the crate names, for concrete evaluation.\<close>

definition linux_libc :: libc where
  "linux_libc = \<lparr>EPERM = 1, ENOENT = 2, EINTR = 4, EACCES = 13, EEXIST = 17, EISDIR = 21,
     EINVAL = 22, EFBIG = 27, EPIPE = 32, EAGAIN = 11, EWOULDBLOCK = 11, ENAMETOOLONG = 36,
     EILSEQ = 84, ECHILD = 10\<rparr>"

definition macos_libc :: libc where
  "macos_libc = \<lparr>EPERM = 1, ENOENT = 2, EINTR = 4, EACCES = 13, EEXIST = 17, EISDIR = 21,
     EINVAL = 22, EFBIG = 27, EPIPE = 32, EAGAIN = 35, EWOULDBLOCK = 35, ENAMETOOLONG = 63,
     EILSEQ = 92, ECHILD = 10\<rparr>"

lemma posix_errnos_linux: "posix_errnos linux_libc"
  by (simp add: posix_errnos_def linux_libc_def)

lemma posix_errnos_macos: "posix_errnos macos_libc"
  by (simp add: posix_errnos_def macos_libc_def)

section \<open>C strings\<close>

text \<open>
  What a C function sees of a buffer: the bytes before the first NUL, when there is one. A buffer
  with no NUL is not a C string and reading it as one is undefined.
\<close>

definition c_string :: "bytes \<Rightarrow> bytes option" where
  "c_string buf = (if NUL \<in> set buf then Some (takeWhile (\<lambda>b. b \<noteq> NUL) buf) else None)"

lemma c_string_terminated:
  "NUL \<notin> set s \<Longrightarrow> c_string (s @ NUL # rest) = Some s"
  by (auto simp: c_string_def takeWhile_append)

section \<open>Invariants of transition systems\<close>

text \<open>
  The concurrent components are step relations. Each gives its initial state, its step relation
  and an invariant; what holds in every reachable state follows here once.
\<close>

inductive reach :: "('s \<Rightarrow> bool) \<Rightarrow> ('s \<Rightarrow> 's \<Rightarrow> bool) \<Rightarrow> 's \<Rightarrow> bool"
  for init :: "'s \<Rightarrow> bool" and step :: "'s \<Rightarrow> 's \<Rightarrow> bool" where
  reach_init: "init s \<Longrightarrow> reach init step s"
| reach_step: "reach init step s \<Longrightarrow> step s t \<Longrightarrow> reach init step t"

locale transition_system =
  fixes init :: "'s \<Rightarrow> bool"
    and step :: "'s \<Rightarrow> 's \<Rightarrow> bool"
    and inv :: "'s \<Rightarrow> bool"
  assumes inv_init: "init s \<Longrightarrow> inv s"
    and inv_step: "inv s \<Longrightarrow> step s t \<Longrightarrow> inv t"
begin

lemma reachable_inv: "reach init step s \<Longrightarrow> inv s"
  by (induction rule: reach.induct) (auto intro: inv_init inv_step)

lemma steps_inv: "step\<^sup>*\<^sup>* s t \<Longrightarrow> inv s \<Longrightarrow> inv t"
  by (induction rule: rtranclp_induct) (auto intro: inv_step)

lemma reachable_steps: "reach init step s \<Longrightarrow> step\<^sup>*\<^sup>* s t \<Longrightarrow> reach init step t"
  by (rotate_tac, induction rule: rtranclp_induct) (auto intro: reach.reach_step)

end

text \<open>A finer step relation refines a coarser one under \<open>abs\<close>: each of its steps is one of the coarser, or
  changes nothing there. The invariant of the finer one may rest on what is reachable in both.\<close>

locale step_refinement =
  fixes init :: "'s \<Rightarrow> bool"
    and step :: "'s \<Rightarrow> 's \<Rightarrow> bool"
    and coarse_init :: "'c \<Rightarrow> bool"
    and coarse_step :: "'c \<Rightarrow> 'c \<Rightarrow> bool"
    and abs :: "'s \<Rightarrow> 'c"
    and inv :: "'s \<Rightarrow> bool"
  assumes refines_init: "init s \<Longrightarrow> coarse_init (abs s) \<and> inv s"
    and refines_step: "reach init step s \<Longrightarrow> reach coarse_init coarse_step (abs s) \<Longrightarrow> inv s \<Longrightarrow> step s t \<Longrightarrow>
      inv t \<and> (abs t = abs s \<or> coarse_step (abs s) (abs t))"
begin

lemma refined: "reach init step s \<Longrightarrow> reach coarse_init coarse_step (abs s) \<and> inv s"
proof (induction rule: reach.induct)
  case (reach_init s)
  from refines_init [OF this] show ?case by (simp add: reach.reach_init)
next
  case (reach_step s t)
  have s: "reach coarse_init coarse_step (abs s)" "inv s" using reach_step.IH by simp_all
  from refines_step [OF reach_step.hyps(1) s reach_step.hyps(2)]
  have t: "inv t" "abs t = abs s \<or> coarse_step (abs s) (abs t)" by simp_all
  from t(2) have "reach coarse_init coarse_step (abs t)"
  proof
    assume "abs t = abs s"
    then show ?thesis using s(1) by simp
  next
    assume "coarse_step (abs s) (abs t)"
    with s(1) show ?thesis by (rule reach.reach_step)
  qed
  with t(1) show ?case by simp
qed

end

section \<open>Values that own kernel resources\<close>

text \<open>
  A value with a destructor: \<open>held v\<close> are the resources it stands for, \<open>use op v\<close> is an operation on it,
  which may consume it (no value left) and gives the resources it released, \<open>destroy v\<close> is what its
  \<open>Drop\<close> releases. Whoever keeps the two laws releases everything exactly once.
\<close>

locale owner =
  fixes held :: "'v \<Rightarrow> 'k multiset"
    and "use" :: "'op \<Rightarrow> 'v \<Rightarrow> 'v option \<times> 'k list"
    and destroy :: "'v \<Rightarrow> 'k list"
  assumes use_keeps: "use op v = (Some v', released) \<Longrightarrow> held v = mset released + held v'"
    and use_consumes: "use op v = (None, released) \<Longrightarrow> held v = mset released"
    and destroy_releases: "mset (destroy v) = held v"
begin

text \<open>The life of a value: the operations on it, then its drop, if none of them consumed it.\<close>

fun life :: "'op list \<Rightarrow> 'v \<Rightarrow> 'k list" where
  "life [] v = destroy v"
| "life (op # ops) v =
     (case use op v of
        (None, released) \<Rightarrow> released
      | (Some v', released) \<Rightarrow> released @ life ops v')"

lemma life_releases: "mset (life ops v) = held v"
  by (induction ops v rule: life.induct)
     (auto simp: destroy_releases dest: use_keeps use_consumes split: prod.split option.split)

end

end
