(* ===== verification/Paths.thy ===== *)
theory Paths
  imports Prelude
begin

text \<open>
  \<open>src/path.rs\<close>: a path is its bytes (\<open>Path { inner: [u8] }\<close>, \<open>PathBuf { inner: Vec<u8> }\<close>).
  First the operations, index by index as the code has them; then the abstract path (rooted or
  not, a leading \<open>.\<close> or not, a list of names) and the proof that every operation computes on
  the abstract path what its documentation says; then the consequences.
\<close>

type_synonym path = bytes

section \<open>The final component\<close>

definition is_absolute :: "path \<Rightarrow> bool" where
  "is_absolute p = (case p of [] \<Rightarrow> False | b # _ \<Rightarrow> b = SEP)"

definition is_relative :: "path \<Rightarrow> bool" where
  "is_relative p = (\<not> is_absolute p)"

definition leading_cur_dir :: "path \<Rightarrow> bool" where
  "leading_cur_dir p =
     (case p of
        [] \<Rightarrow> False
      | [b] \<Rightarrow> b = DOT
      | b # c # _ \<Rightarrow> b = DOT \<and> c = SEP)"

definition body_start :: "path \<Rightarrow> nat" where
  "body_start p = (if is_absolute p \<or> leading_cur_dir p then 1 else 0)"

text \<open>The loop of \<open>trim_back\<close>: \<open>e\<close> is its mutable \<open>end\<close>.\<close>

function trim_loop :: "path \<Rightarrow> nat \<Rightarrow> nat \<Rightarrow> nat" where
  "trim_loop p floor e =
     (if floor < e then
        (let body = slice p floor e in
         case rposition (\<lambda>b. b = SEP) body of
           Some i \<Rightarrow>
             (let last = drop (i + 1) body in
              if last \<noteq> [] \<and> last \<noteq> [DOT] then e
              else trim_loop p floor (floor + i))
         | None \<Rightarrow> if body \<noteq> [DOT] then e else trim_loop p floor floor)
      else e)"
  by pat_completeness auto
termination
  by (relation "measure (\<lambda>(p, floor, e). e - floor)")
     (auto dest!: rposition_less simp: min_def split: if_splits)

declare trim_loop.simps [simp del]

definition trim_back :: "path \<Rightarrow> nat \<Rightarrow> nat" where
  "trim_back p e = trim_loop p (body_start p) e"

definition last_body_component :: "path \<Rightarrow> (nat \<times> nat) option" where
  "last_body_component p =
     (let floor = body_start p;
          e = trim_back p (length p)
      in if e = floor then None
         else
           (let body = slice p floor e;
                start = (case rposition (\<lambda>b. b = SEP) body of
                           None \<Rightarrow> floor
                         | Some i \<Rightarrow> floor + i + 1)
            in Some (start, e)))"

definition file_name :: "path \<Rightarrow> path option" where
  "file_name p =
     (case last_body_component p of
        None \<Rightarrow> None
      | Some (start, e) \<Rightarrow>
          (let name = slice p start e in if name = [DOT, DOT] then None else Some name))"

definition parent :: "path \<Rightarrow> path option" where
  "parent p =
     (case last_body_component p of
        Some (start, _) \<Rightarrow> Some (take (trim_back p start) p)
      | None \<Rightarrow> if leading_cur_dir p then Some [] else None)"

definition extension :: "path \<Rightarrow> path option" where
  "extension p =
     (case file_name p of
        None \<Rightarrow> None
      | Some name \<Rightarrow>
          (case rposition (\<lambda>b. b = DOT) name of
             None \<Rightarrow> None
           | Some i \<Rightarrow> if i = 0 then None else Some (drop (i + 1) name)))"

definition file_stem :: "path \<Rightarrow> path option" where
  "file_stem p =
     (case file_name p of
        None \<Rightarrow> None
      | Some name \<Rightarrow>
          (case rposition (\<lambda>b. b = DOT) name of
             None \<Rightarrow> Some name
           | Some 0 \<Rightarrow> Some name
           | Some i \<Rightarrow> Some (take i name)))"

section \<open>Building paths\<close>

definition push :: "path \<Rightarrow> path \<Rightarrow> path" where
  "push inner o' =
     (if is_absolute o' then o'
      else if inner \<noteq> [] \<and> \<not> slice_ends_with inner [SEP] then inner @ [SEP] @ o'
      else inner @ o')"

definition join :: "path \<Rightarrow> path \<Rightarrow> path" where
  "join p other = push p other"

text \<open>\<open>pop\<close> returns whether it dropped something and the path that is left.\<close>

definition pop :: "path \<Rightarrow> bool \<times> path" where
  "pop inner =
     (case parent inner of
        Some p \<Rightarrow> (True, take (length p) inner)
      | None \<Rightarrow> (False, inner))"

definition set_file_name :: "path \<Rightarrow> path \<Rightarrow> path" where
  "set_file_name p name =
     (let p' = (if file_name p \<noteq> None then snd (pop p) else p) in push p' name)"

definition set_extension :: "path \<Rightarrow> bytes \<Rightarrow> path" where
  "set_extension inner ext =
     (let name_start = (case rposition (\<lambda>b. b = SEP) inner of None \<Rightarrow> 0 | Some i \<Rightarrow> i + 1);
          inner' = (case rposition (\<lambda>b. b = DOT) (drop name_start inner) of
                      Some dot \<Rightarrow> if dot \<noteq> 0 then take (name_start + dot) inner else inner
                    | None \<Rightarrow> inner)
      in if ext \<noteq> [] then inner' @ [DOT] @ ext else inner')"

definition with_extension :: "path \<Rightarrow> bytes \<Rightarrow> path" where
  "with_extension p ext = set_extension p ext"

text \<open>\<open>FromIterator\<close> and \<open>Extend\<close>.\<close>

fun extend :: "path \<Rightarrow> path list \<Rightarrow> path" where
  "extend out [] = out"
| "extend out (part # rest) = extend (push out part) rest"

definition from_iter :: "path list \<Rightarrow> path" where
  "from_iter parts = extend [] parts"

definition as_c :: "path \<Rightarrow> bytes" where
  "as_c p = p @ [NUL]"

section \<open>Comparing and taking apart\<close>

definition starts_with :: "path \<Rightarrow> path \<Rightarrow> bool" where
  "starts_with inner p =
     (length p \<le> length inner \<and> take (length p) inner = p
      \<and> (length inner = length p \<or> inner ! length p = SEP \<or> slice_ends_with p [SEP]))"

datatype strip_prefix_error = StripPrefixError

definition strip_prefix :: "path \<Rightarrow> path \<Rightarrow> strip_prefix_error + path" where
  "strip_prefix inner p =
     (if \<not> starts_with inner p then Err StripPrefixError
      else
        (let rest = drop (length p) inner in
         Ok (case slice_strip_prefix rest [SEP] of Some r \<Rightarrow> r | None \<Rightarrow> rest)))"

definition ends_with :: "path \<Rightarrow> bytes \<Rightarrow> bool" where
  "ends_with inner tail = slice_ends_with inner tail"

definition parts :: "path \<Rightarrow> bytes list" where
  "parts p = filter (\<lambda>s. s \<noteq> []) (split_on (\<lambda>b. b = SEP) p)"

datatype component = RootDir | CurDir | ParentDir | Normal bytes

record components_iter =
  ci_rest :: bytes
  ci_root :: bool

definition components :: "path \<Rightarrow> components_iter" where
  "components p = \<lparr>ci_rest = p, ci_root = is_absolute p\<rparr>"

text \<open>The loop \<open>while rest.first() == Some('/')\<close> of \<open>next\<close> and \<open>as_path\<close>.\<close>

fun skip_seps :: "bytes \<Rightarrow> bytes" where
  "skip_seps [] = []"
| "skip_seps (b # bs) = (if b = SEP then skip_seps bs else b # bs)"

definition components_as_path :: "components_iter \<Rightarrow> path" where
  "components_as_path it = skip_seps (ci_rest it)"

definition classify :: "bytes \<Rightarrow> component" where
  "classify part =
     (if part = [DOT] then CurDir
      else if part = [DOT, DOT] then ParentDir
      else Normal part)"

definition components_next :: "components_iter \<Rightarrow> component option \<times> components_iter" where
  "components_next it =
     (if ci_root it then
        (Some RootDir,
         \<lparr>ci_rest = (case slice_strip_prefix (ci_rest it) [SEP] of Some r \<Rightarrow> r | None \<Rightarrow> ci_rest it),
          ci_root = False\<rparr>)
      else
        (let rest = skip_seps (ci_rest it) in
         if rest = [] then (None, it\<lparr>ci_rest := rest\<rparr>)
         else
           (let e = (case position (\<lambda>b. b = SEP) rest of Some i \<Rightarrow> i | None \<Rightarrow> length rest)
            in (Some (classify (take e rest)), it\<lparr>ci_rest := drop e rest\<rparr>))))"

definition component_as_os_str :: "component \<Rightarrow> bytes" where
  "component_as_os_str c =
     (case c of
        RootDir \<Rightarrow> [SEP]
      | CurDir \<Rightarrow> [DOT]
      | ParentDir \<Rightarrow> [DOT, DOT]
      | Normal s \<Rightarrow> s)"

text \<open>\<open>Ancestors\<close>: its state is \<open>next: Option<&Path>\<close>.\<close>

definition ancestors :: "path \<Rightarrow> path option" where
  "ancestors p = Some p"

definition ancestors_next :: "path option \<Rightarrow> path option \<times> path option" where
  "ancestors_next next =
     (case next of
        None \<Rightarrow> (None, next)
      | Some here \<Rightarrow> (Some here, parent here))"

section \<open>Abstract paths\<close>

text \<open>
  What a path means: whether it is rooted, whether it keeps a leading \<open>.\<close>, and its names, that is
  its \<open>/\<close>-separated pieces without the empty ones and without \<open>.\<close> (but with \<open>..\<close>, which is not
  resolved).
\<close>

record apath =
  rooted :: bool
  dotted :: bool
  names :: "bytes list"

definition names_of :: "bytes \<Rightarrow> bytes list" where
  "names_of body = filter (\<lambda>s. s \<noteq> [] \<and> s \<noteq> [DOT]) (split_on (\<lambda>b. b = SEP) body)"

definition abs_path :: "path \<Rightarrow> apath" where
  "abs_path p = \<lparr>rooted = is_absolute p, dotted = leading_cur_dir p,
                 names = names_of (drop (body_start p) p)\<rparr>"

definition spec_file_name :: "apath \<Rightarrow> bytes option" where
  "spec_file_name a =
     (if names a = [] \<or> last (names a) = [DOT, DOT] then None else Some (last (names a)))"

definition spec_parent :: "apath \<Rightarrow> apath option" where
  "spec_parent a =
     (if names a \<noteq> [] then Some (a\<lparr>names := butlast (names a)\<rparr>)
      else if dotted a then Some \<lparr>rooted = False, dotted = False, names = []\<rparr>
      else None)"

definition spec_push :: "apath \<Rightarrow> apath \<Rightarrow> apath" where
  "spec_push a b =
     (if rooted b \<or> a = \<lparr>rooted = False, dotted = False, names = []\<rparr> then b
      else a\<lparr>names := names a @ names b\<rparr>)"

lemma names_of_Nil [simp]: "names_of [] = []"
  by (simp add: names_of_def)

lemma names_of_append_sep: "names_of (xs @ SEP # ys) = names_of xs @ names_of ys"
  by (simp add: names_of_def split_on_append)

lemma names_of_piece:
  "\<forall>b \<in> set s. b \<noteq> SEP \<Longrightarrow> names_of s = (if s = [] \<or> s = [DOT] then [] else [s])"
  by (auto simp: names_of_def split_on_none)

lemma names_of_rposition:
  assumes "rposition (\<lambda>b. b = SEP) body = Some i"
  shows "names_of body = names_of (take i body)
           @ (if drop (Suc i) body = [] \<or> drop (Suc i) body = [DOT] then [] else [drop (Suc i) body])"
  by (auto simp: names_of_def split_on_rposition [OF assms])

lemma slice_take: "i \<le> e - f \<Longrightarrow> slice p f (f + i) = take i (slice p f e)"
  by (simp add: slice_def min_def)

lemma slice_same [simp]: "slice xs i i = []"
  by (simp add: slice_def)

lemma trim_loop_stop [simp]: "e \<le> floor \<Longrightarrow> trim_loop p floor e = e"
  by (simp add: trim_loop.simps [of p floor e])

text \<open>Whether the last piece of a non-empty body is a component that \<open>trim_back\<close> keeps.\<close>

definition ends_in_name :: "bytes \<Rightarrow> bool" where
  "ends_in_name body =
     (case rposition (\<lambda>b. b = SEP) body of
        None \<Rightarrow> body \<noteq> [] \<and> body \<noteq> [DOT]
      | Some i \<Rightarrow> drop (Suc i) body \<noteq> [] \<and> drop (Suc i) body \<noteq> [DOT])"

definition trimmed :: "path \<Rightarrow> nat \<Rightarrow> nat \<Rightarrow> nat \<Rightarrow> bool" where
  "trimmed p floor e e' \<longleftrightarrow>
     floor \<le> e' \<and> e' \<le> e
     \<and> names_of (slice p floor e') = names_of (slice p floor e)
     \<and> (e' = floor \<or> ends_in_name (slice p floor e'))
     \<and> (e' = e \<or> e' = floor \<or> p ! e' = SEP)"

lemma trimmed_trim_loop:
  "floor \<le> e \<Longrightarrow> e \<le> length p \<Longrightarrow> trimmed p floor e (trim_loop p floor e)"
proof (induction p floor e rule: trim_loop.induct)
  case (1 p floor e)
  show ?case
  proof (cases "floor < e")
    case False
    with "1.prems" show ?thesis
      by (simp add: trimmed_def)
  next
    case lt: True
    define body where "body = slice p floor e"
    have len: "length body = e - floor" using "1.prems" lt by (simp add: body_def)
    show ?thesis
    proof (cases "rposition (\<lambda>b. b = SEP) body")
      case None
      have r: "trim_loop p floor e = (if body = [DOT] then floor else e)"
        using lt by (simp only: trim_loop.simps [of p floor e] Let_def None body_def [symmetric]
            option.case trim_loop_stop order_refl if_True)
          simp
      have "names_of body = (if body = [DOT] then [] else [body])"
        using None len lt by (auto simp: names_of_piece)
      moreover have "ends_in_name body \<longleftrightarrow> body \<noteq> [DOT]"
        unfolding ends_in_name_def None using len lt by auto
      ultimately show ?thesis
        using lt unfolding r by (auto simp: trimmed_def body_def [symmetric])
    next
      case (Some i)
      from rposition_Some [OF Some] have i: "i < length body" "body ! i = SEP" by auto
      show ?thesis
      proof (cases "drop (Suc i) body \<noteq> [] \<and> drop (Suc i) body \<noteq> [DOT]")
        case True
        with Some lt show ?thesis
          by (simp add: trim_loop.simps [of p floor e] trimmed_def ends_in_name_def body_def)
      next
        case False
        let ?r = "trim_loop p floor (floor + i)"
        have step: "trim_loop p floor e = ?r"
          using Some lt False by (auto simp: trim_loop.simps [of p floor e] body_def)
        have "trimmed p floor (floor + i) ?r"
          using "1.IH"(2) [OF lt body_def Some refl] False i len "1.prems" by auto
        moreover have "slice p floor (floor + i) = take i body"
          using slice_take [of i e floor p] i len by (simp add: body_def)
        then have "names_of (slice p floor (floor + i)) = names_of body"
          using names_of_rposition [OF Some] False by auto
        moreover have "p ! (floor + i) = SEP"
          using i len "1.prems" by (simp add: body_def slice_def)
        ultimately show ?thesis
          using i len unfolding step by (auto simp: trimmed_def body_def)
      qed
    qed
  qed
qed

lemma body_start_le: "body_start p \<le> length p"
  by (cases p) (auto simp: body_start_def is_absolute_def leading_cur_dir_def)

lemma trimmed_trim_back:
  "body_start p \<le> e \<Longrightarrow> e \<le> length p \<Longrightarrow> trimmed p (body_start p) e (trim_back p e)"
  by (simp add: trim_back_def trimmed_trim_loop)

lemma ends_in_name_names: "ends_in_name body \<Longrightarrow> names_of body \<noteq> []"
  by (auto simp: ends_in_name_def names_of_piece names_of_rposition split: option.splits)

lemma names_abs_path: "names (abs_path p) = names_of (slice p (body_start p) (length p))"
  by (simp add: abs_path_def slice_def)

lemma last_body_component_None:
  "last_body_component p = None \<longleftrightarrow> names (abs_path p) = []"
proof -
  have "trimmed p (body_start p) (length p) (trim_back p (length p))"
    by (simp add: trimmed_trim_back body_start_le)
  then show ?thesis
    by (auto simp: last_body_component_def Let_def trimmed_def names_abs_path slice_Nil_iff
             dest!: ends_in_name_names split: option.splits)
qed

lemma last_body_component_Some:
  assumes "last_body_component p = Some (s, e)"
  shows "body_start p \<le> s" "s < e" "e \<le> length p"
    "names (abs_path p) = names_of (slice p (body_start p) s) @ [slice p s e]"
    "s = body_start p \<or> p ! (s - 1) = SEP"
    "\<forall>b \<in> set (slice p s e). b \<noteq> SEP"
proof -
  define f where "f = body_start p"
  define body where "body = slice p f e"
  have e: "e = trim_back p (length p)" and ne: "e \<noteq> f"
    using assms by (auto simp: last_body_component_def Let_def f_def split: if_splits)
  have t: "trimmed p f (length p) e"
    unfolding e f_def by (simp add: trimmed_trim_back body_start_le)
  then have fe: "f < e" "e \<le> length p" using ne by (auto simp: trimmed_def)
  then have len: "length body = e - f" by (simp add: body_def)
  have good: "ends_in_name body" using t ne by (simp add: trimmed_def body_def)
  have nm: "names (abs_path p) = names_of body"
    using t by (simp add: trimmed_def names_abs_path body_def f_def)
  have s: "s = (case rposition (\<lambda>b. b = SEP) body of None \<Rightarrow> f | Some i \<Rightarrow> f + i + 1)"
    using assms by (auto simp: last_body_component_def Let_def e [symmetric] f_def [symmetric]
        body_def [symmetric] split: if_splits)
  have "f \<le> s \<and> s < e \<and> names_of body = names_of (slice p f s) @ [slice p s e]
        \<and> (s = f \<or> p ! (s - 1) = SEP) \<and> (\<forall>b \<in> set (slice p s e). b \<noteq> SEP)"
  proof (cases "rposition (\<lambda>b. b = SEP) body")
    case None
    then have sf: "s = f" by (simp only: s option.case)
    have "body \<noteq> []" "body \<noteq> [DOT]" using good unfolding ends_in_name_def None by auto
    with None fe show ?thesis
      unfolding sf by (simp add: names_of_piece body_def)
  next
    case (Some i)
    from rposition_Some [OF Some] have i: "i < length body" "body ! i = SEP"
      and rest: "\<forall>b \<in> set (drop (Suc i) body). b \<noteq> SEP" by auto
    have sv: "s = f + i + 1" using s Some by simp
    have last: "slice p s e = drop (Suc i) body"
      using sv by (simp add: slice_def body_def drop_take add.commute)
    have init: "slice p f s = take i body @ [SEP]"
      using sv i len slice_take [of "Suc i" e f p]
      by (simp add: body_def take_Suc_conv_app_nth)
    have "drop (Suc i) body \<noteq> []" using good Some by (simp add: ends_in_name_def)
    then have "s < e" using sv len by simp
    moreover have "p ! (s - 1) = SEP" using sv i len fe by (simp add: body_def slice_def)
    moreover have "names_of (slice p f s) = names_of (take i body)"
      unfolding init by (simp add: names_of_append_sep)
    moreover have "names_of body = names_of (take i body) @ [drop (Suc i) body]"
      using good Some names_of_rposition [OF Some] by (simp add: ends_in_name_def)
    ultimately show ?thesis using sv last rest by simp
  qed
  with fe nm show "body_start p \<le> s" "s < e" "e \<le> length p"
    "names (abs_path p) = names_of (slice p (body_start p) s) @ [slice p s e]"
    "s = body_start p \<or> p ! (s - 1) = SEP"
    "\<forall>b \<in> set (slice p s e). b \<noteq> SEP"
    by (auto simp: f_def)
qed

text \<open>Cutting a path at the end of its body or after a separator keeps its head.\<close>

lemma head_take:
  assumes "body_start p \<le> n" "n \<le> length p"
    and "n = length p \<or> n = body_start p \<or> p ! n = SEP"
  shows "is_absolute (take n p) = is_absolute p \<and> leading_cur_dir (take n p) = leading_cur_dir p"
proof (cases p)
  case Nil
  then show ?thesis by simp
next
  case (Cons a q)
  show ?thesis
  proof (cases n)
    case 0
    with assms(1) Cons show ?thesis by (auto simp: body_start_def is_absolute_def leading_cur_dir_def)
  next
    case (Suc m)
    show ?thesis
      using assms Cons Suc
      by (cases q; cases m) (auto simp: body_start_def is_absolute_def leading_cur_dir_def
        split: if_splits)
  qed
qed

lemma abs_take:
  assumes "body_start p \<le> n" "n \<le> length p"
    and "n = length p \<or> n = body_start p \<or> p ! n = SEP"
  shows "abs_path (take n p) = (abs_path p)\<lparr>names := names_of (slice p (body_start p) n)\<rparr>"
proof -
  from head_take [OF assms] have head: "is_absolute (take n p) = is_absolute p"
    "leading_cur_dir (take n p) = leading_cur_dir p" by auto
  then have "body_start (take n p) = body_start p" by (simp add: body_start_def)
  with head show ?thesis by (simp add: abs_path_def slice_def drop_take)
qed

lemma trim_back_after_sep:
  assumes "body_start p \<le> s" "s \<le> length p" "s = body_start p \<or> p ! (s - 1) = SEP"
  shows "trim_back p s = body_start p \<or> p ! trim_back p s = SEP"
proof (cases "s = body_start p")
  case True
  then show ?thesis by (simp add: trim_back_def)
next
  case False
  define f where "f = body_start p"
  define body where "body = slice p f s"
  from False assms have lt: "f < s" and sep: "p ! (s - 1) = SEP" by (auto simp: f_def)
  have len: "length body = s - f" using lt assms by (simp add: body_def)
  then have "last body = p ! (s - 1)" using lt assms
    by (simp add: body_def last_conv_nth slice_Nil_iff slice_def)
  then have "body = butlast body @ [SEP]" using sep len lt
    by (metis append_butlast_last_id length_0_conv zero_less_diff less_numeral_extra(3))
  then have "rposition (\<lambda>b. b = SEP) body = Some (s - f - 1)" using len
    by (metis (mono_tags) length_butlast rposition_snoc)
  moreover have "drop (s - f - 1 + 1) body = []" using len lt by simp
  ultimately have "trim_back p s = trim_loop p f (s - 1)"
    using lt by (simp add: trim_back_def f_def [symmetric] trim_loop.simps [of p f s]
        body_def [symmetric])
  moreover have "trimmed p f (s - 1) (trim_loop p f (s - 1))"
    using lt assms by (intro trimmed_trim_loop) auto
  ultimately show ?thesis using sep by (auto simp: trimmed_def f_def)
qed

lemma abs_parent: "map_option abs_path (parent p) = spec_parent (abs_path p)"
proof (cases "last_body_component p")
  case None
  then have "names (abs_path p) = []" by (simp add: last_body_component_None)
  moreover have "abs_path [] = \<lparr>rooted = False, dotted = False, names = []\<rparr>"
    by (simp add: abs_path_def is_absolute_def leading_cur_dir_def)
  ultimately show ?thesis using None
    by (simp add: parent_def spec_parent_def) (simp add: abs_path_def)
next
  case (Some se)
  obtain s e where se: "se = (s, e)" by (cases se)
  note sm = last_body_component_Some [OF Some [unfolded se]]
  define n where "n = trim_back p s"
  have t: "trimmed p (body_start p) s n"
    unfolding n_def using sm by (intro trimmed_trim_back) auto
  then have n: "body_start p \<le> n" "n \<le> length p" using sm by (auto simp: trimmed_def)
  have "n = body_start p \<or> p ! n = SEP"
    unfolding n_def using sm by (intro trim_back_after_sep) auto
  then have "abs_path (take n p) = (abs_path p)\<lparr>names := names_of (slice p (body_start p) n)\<rparr>"
    using n by (intro abs_take) auto
  also have "\<dots> = (abs_path p)\<lparr>names := butlast (names (abs_path p))\<rparr>"
    using sm t by (simp add: trimmed_def)
  finally show ?thesis using Some se sm
    by (simp add: parent_def n_def [symmetric] spec_parent_def)
qed

lemma abs_file_name: "file_name p = spec_file_name (abs_path p)"
proof (cases "last_body_component p")
  case None
  then show ?thesis
    using last_body_component_None [of p] by (simp add: file_name_def spec_file_name_def)
next
  case (Some se)
  obtain s e where se: "se = (s, e)" by (cases se)
  note sm = last_body_component_Some [OF Some [unfolded se]]
  then show ?thesis using Some se by (simp add: file_name_def spec_file_name_def Let_def)
qed

lemma body_of_relative:
  assumes "\<not> is_absolute q"
  shows "names_of q = names (abs_path q)"
proof (cases "leading_cur_dir q")
  case True
  then obtain r where q: "q = [DOT] \<or> q = DOT # SEP # r"
    by (auto simp: leading_cur_dir_def split: list.splits)
  have "names_of (DOT # SEP # r) = names_of r" "names_of (SEP # r) = names_of r"
    using names_of_append_sep [of "[DOT]" r] names_of_append_sep [of "[]" r]
    by (simp_all add: names_of_piece)
  with q show ?thesis by (auto simp: abs_path_def body_start_def True names_of_piece)
next
  case False
  with assms show ?thesis by (simp add: abs_path_def body_start_def)
qed

lemma abs_empty_iff: "abs_path p = \<lparr>rooted = False, dotted = False, names = []\<rparr> \<longleftrightarrow> p = []"
proof
  assume a: "abs_path p = \<lparr>rooted = False, dotted = False, names = []\<rparr>"
  then have "\<not> is_absolute p" "\<not> leading_cur_dir p" "names_of p = []"
    by (auto simp: abs_path_def body_start_def)
  moreover have "q \<noteq> [] \<Longrightarrow> \<not> is_absolute q \<Longrightarrow> \<not> leading_cur_dir q \<Longrightarrow> names_of q \<noteq> []" for q
    by (cases q; cases "tl q")
       (auto simp: names_of_def is_absolute_def leading_cur_dir_def split: list.splits)
  ultimately show "p = []" by blast
qed (simp add: abs_path_def is_absolute_def leading_cur_dir_def)

lemma abs_append:
  assumes "p \<noteq> []" "last p = SEP \<or> (q \<noteq> [] \<and> hd q = SEP)"
  shows "abs_path (p @ q) = (abs_path p)\<lparr>names := names (abs_path p) @ names_of q\<rparr>"
proof -
  have heads: "is_absolute (p @ q) = is_absolute p" "leading_cur_dir (p @ q) = leading_cur_dir p"
    using assms
    by (cases p; cases "tl p"; cases q; auto simp: is_absolute_def leading_cur_dir_def)+
  have b: "body_start (p @ q) = body_start p" using heads by (simp add: body_start_def)
  have d: "drop (body_start p) (p @ q) = drop (body_start p) p @ q"
    using body_start_le [of p] by simp
  have "names_of (drop (body_start p) p @ q) = names_of (drop (body_start p) p) @ names_of q"
  proof (cases "q \<noteq> [] \<and> hd q = SEP")
    case True
    then obtain r where "q = SEP # r" by (cases q) auto
    then show ?thesis
      using names_of_append_sep [of "drop (body_start p) p" r] names_of_append_sep [of "[]" r]
      by simp
  next
    case False
    with assms have l: "last p = SEP" by simp
    show ?thesis
    proof (cases "drop (body_start p) p = []")
      case True
      then show ?thesis by simp
    next
      case ne: False
      then obtain r where "drop (body_start p) p = r @ [SEP]"
        using l by (metis append_butlast_last_id last_drop drop_eq_Nil not_le)
      then show ?thesis
        using names_of_append_sep [of r q] names_of_append_sep [of r "[]"] by simp
    qed
  qed
  then show ?thesis using d by (simp add: abs_path_def b heads del: drop_append)
qed

lemma abs_push: "abs_path (push p q) = spec_push (abs_path p) (abs_path q)"
proof (cases "is_absolute q")
  case True
  then show ?thesis by (simp add: push_def spec_push_def) (simp add: abs_path_def)
next
  case rel: False
  show ?thesis
  proof (cases "p = []")
    case True
    with rel show ?thesis using abs_empty_iff [of p]
      by (simp add: push_def spec_push_def)
  next
    case False
    have spec: "spec_push (abs_path p) (abs_path q)
                = (abs_path p)\<lparr>names := names (abs_path p) @ names_of q\<rparr>"
      using False rel abs_empty_iff [of p]
      by (simp add: spec_push_def body_of_relative) (simp add: abs_path_def)
    have "names_of (SEP # q) = names_of q" using names_of_append_sep [of "[]" q] by simp
    with spec rel False show ?thesis
      using abs_append [of p q] abs_append [of p "SEP # q"]
      by (auto simp: push_def slice_ends_with_single)
  qed
qed

section \<open>Consequences\<close>

lemma parent_take: "parent p = Some q \<Longrightarrow> q = take (length q) p \<and> length q < length p"
proof (cases "last_body_component p")
  case None
  assume "parent p = Some q"
  with None have "q = []" "leading_cur_dir p" by (auto simp: parent_def split: if_splits)
  then show ?thesis by (cases p) (auto simp: leading_cur_dir_def)
next
  case (Some se)
  assume par: "parent p = Some q"
  obtain s e where se: "se = (s, e)" by (cases se)
  note sm = last_body_component_Some [OF Some [unfolded se]]
  have "trimmed p (body_start p) s (trim_back p s)"
    using sm by (intro trimmed_trim_back) auto
  with par Some se sm show ?thesis by (auto simp: parent_def trimmed_def min_def)
qed

lemma parent_shorter: "parent p = Some q \<Longrightarrow> length q < length p"
  by (simp add: parent_take)

lemma pop_parent: "pop p = (case parent p of Some q \<Rightarrow> (True, q) | None \<Rightarrow> (False, p))"
  using parent_take by (auto simp: pop_def split: option.splits)

text \<open>Draining \<open>Ancestors\<close> and \<open>Components\<close>, as \<open>collect\<close> does.\<close>

function ancestors_list :: "path option \<Rightarrow> path list" where
  "ancestors_list next =
     (case ancestors_next next of
        (None, _) \<Rightarrow> []
      | (Some here, next') \<Rightarrow> here # ancestors_list next')"
  by pat_completeness auto
termination
  by (relation "measure (\<lambda>next. case next of None \<Rightarrow> 0 | Some p \<Rightarrow> Suc (length p))")
     (auto simp: ancestors_next_def dest!: parent_shorter split: option.splits)

declare ancestors_list.simps [simp del]

lemma ancestors_list_None [simp]: "ancestors_list None = []"
  by (simp add: ancestors_list.simps [of None] ancestors_next_def)

lemma ancestors_list_Some: "ancestors_list (Some p) = p # ancestors_list (parent p)"
  by (simp add: ancestors_list.simps [of "Some p"] ancestors_next_def)

lemma length_ancestors:
  "length (ancestors_list (Some p)) = Suc (length (names (abs_path p)) + (if dotted (abs_path p) then 1 else 0))"
proof (induction "length p" arbitrary: p rule: less_induct)
  case less
  show ?case
  proof (cases "parent p")
    case None
    then have "spec_parent (abs_path p) = None" using abs_parent [of p] by simp
    with None show ?thesis
      by (auto simp: ancestors_list_Some spec_parent_def split: if_splits)
  next
    case (Some q)
    then have spec: "spec_parent (abs_path p) = Some (abs_path q)" using abs_parent [of p] by simp
    have "length (ancestors_list (Some q))
          = Suc (length (names (abs_path q)) + (if dotted (abs_path q) then 1 else 0))"
      using parent_shorter [OF Some] by (rule less)
    moreover have "names (abs_path p) \<noteq> [] \<Longrightarrow>
        abs_path q = (abs_path p)\<lparr>names := butlast (names (abs_path p))\<rparr>"
      using spec by (auto simp: spec_parent_def)
    moreover have "names (abs_path p) = [] \<Longrightarrow> dotted (abs_path p)
        \<and> abs_path q = \<lparr>rooted = False, dotted = False, names = []\<rparr>"
      using spec by (auto simp: spec_parent_def split: if_splits)
    ultimately show ?thesis using Some
      by (cases "names (abs_path p) = []") (simp_all add: ancestors_list_Some)
  qed
qed

lemma last_ancestor: "parent (last (ancestors_list (Some p))) = None"
proof (induction "length p" arbitrary: p rule: less_induct)
  case less
  show ?case
  proof (cases "parent p")
    case None
    then show ?thesis by (simp add: ancestors_list_Some)
  next
    case (Some q)
    have "parent (last (ancestors_list (Some q))) = None"
      using parent_shorter [OF Some] by (rule less)
    with Some show ?thesis by (simp add: ancestors_list_Some [of p]) (simp add: ancestors_list_Some)
  qed
qed

lemma skip_seps_length: "length (skip_seps bs) \<le> length bs"
  by (induction bs) auto

lemma skip_seps_hd: "skip_seps bs \<noteq> [] \<Longrightarrow> hd (skip_seps bs) \<noteq> SEP"
  by (induction bs) auto

lemma parts_skip_seps [simp]: "parts (skip_seps bs) = parts bs"
  by (induction bs) (auto simp: parts_def)

lemma skip_seps_parts_Nil: "skip_seps bs = [] \<Longrightarrow> parts bs = []"
  using parts_skip_seps [of bs] by (simp add: parts_def del: parts_skip_seps)

lemma components_next_less:
  assumes "components_next it = (Some c, it')"
  shows "2 * length (ci_rest it') + (if ci_root it' then 1 else 0)
         < 2 * length (ci_rest it) + (if ci_root it then 1 else 0)"
proof (cases "ci_root it")
  case True
  with assms show ?thesis
    by (auto simp: components_next_def slice_strip_prefix_def split: if_splits)
next
  case False
  define rest where "rest = skip_seps (ci_rest it)"
  from assms False have ne: "rest \<noteq> []" by (auto simp: components_next_def rest_def split: if_splits)
  then have "hd rest \<noteq> SEP" by (simp add: rest_def skip_seps_hd)
  define e where "e = (case position (\<lambda>b. b = SEP) rest of Some i \<Rightarrow> i | None \<Rightarrow> length rest)"
  have "0 < e" using ne \<open>hd rest \<noteq> SEP\<close> by (cases rest) (auto simp: e_def split: option.splits)
  moreover have "length rest \<le> length (ci_rest it)" by (simp add: rest_def skip_seps_length)
  moreover have "it' = it\<lparr>ci_rest := drop e rest\<rparr>" using assms False ne
    by (simp add: components_next_def rest_def [symmetric] e_def [symmetric] Let_def)
  ultimately show ?thesis using ne False by (cases rest) auto
qed

function components_list :: "components_iter \<Rightarrow> component list" where
  "components_list it =
     (case components_next it of
        (None, _) \<Rightarrow> []
      | (Some c, it') \<Rightarrow> c # components_list it')"
  by pat_completeness auto
termination
  by (relation "measure (\<lambda>it. 2 * length (ci_rest it) + (if ci_root it then 1 else 0))")
     (auto dest!: sym components_next_less [OF sym])

declare components_list.simps [simp del]

lemma parts_position:
  assumes "rest \<noteq> []" "hd rest \<noteq> SEP"
  shows "parts rest = take (case position (\<lambda>b. b = SEP) rest of Some i \<Rightarrow> i | None \<Rightarrow> length rest) rest
           # parts (drop (case position (\<lambda>b. b = SEP) rest of Some i \<Rightarrow> i | None \<Rightarrow> length rest) rest)"
proof (cases "position (\<lambda>b. b = SEP) rest")
  case None
  with assms show ?thesis by (simp add: parts_def split_on_none option.case_eq_if)
next
  case (Some i)
  from position_split [OF Some] obtain a b where rest: "rest = a @ SEP # b"
    and a: "a = take i rest" "\<forall>x \<in> set a. x \<noteq> SEP" by metis
  have i: "length a = i" using Some by (simp add: a position_Some)
  have "a \<noteq> []" using assms rest by auto
  then have "parts rest = a # parts b"
    using a(2) unfolding rest by (simp add: parts_def split_on_append split_on_none)
  moreover have "drop i rest = SEP # b" "take i rest = a" using i by (auto simp: rest)
  moreover have "parts (SEP # b) = parts b" by (simp add: parts_def)
  ultimately show ?thesis by (simp only: Some option.case)
qed

lemma components_list_body:
  "\<not> ci_root it \<Longrightarrow> components_list it = map classify (parts (ci_rest it))"
proof (induction it rule: components_list.induct)
  case (1 it)
  define rest where "rest = skip_seps (ci_rest it)"
  show ?case
  proof (cases "rest = []")
    case True
    then show ?thesis using "1.prems" skip_seps_parts_Nil [of "ci_rest it"]
      by (simp add: components_list.simps [of it] components_next_def rest_def)
  next
    case False
    then have hd: "hd rest \<noteq> SEP" by (simp add: rest_def skip_seps_hd)
    define e where "e = (case position (\<lambda>b. b = SEP) rest of Some i \<Rightarrow> i | None \<Rightarrow> length rest)"
    have nxt: "components_next it = (Some (classify (take e rest)), it\<lparr>ci_rest := drop e rest\<rparr>)"
      using "1.prems" False by (simp add: components_next_def rest_def [symmetric] e_def Let_def)
    have "components_list (it\<lparr>ci_rest := drop e rest\<rparr>) = map classify (parts (drop e rest))"
      using "1.IH" [OF nxt [symmetric] refl] "1.prems" by simp
    moreover have "parts (ci_rest it) = take e rest # parts (drop e rest)"
      using parts_position [OF False hd] by (simp add: e_def rest_def)
    ultimately show ?thesis by (simp add: components_list.simps [of it] nxt)
  qed
qed

lemma components_parts:
  "components_list (components p) = (if is_absolute p then [RootDir] else []) @ map classify (parts p)"
proof (cases "is_absolute p")
  case True
  then obtain q where p: "p = SEP # q" by (cases p) (auto simp: is_absolute_def)
  have "components_next (components p) = (Some RootDir, \<lparr>ci_rest = q, ci_root = False\<rparr>)"
    using True p by (simp add: components_def components_next_def slice_strip_prefix_def)
  then have "components_list (components p) = RootDir # map classify (parts q)"
    by (simp add: components_list.simps [of "components p"] components_list_body)
  with p True show ?thesis by (simp add: parts_def)
next
  case False
  then show ?thesis by (simp add: components_def components_list_body)
qed

lemma join_strip_prefix:
  assumes "q \<noteq> []" "is_relative r"
  shows "strip_prefix (join q r) q = Ok r"
proof -
  have r: "r = [] \<or> hd r \<noteq> SEP" using assms by (cases r) (auto simp: is_relative_def is_absolute_def)
  then have "slice_strip_prefix r [SEP] = None" by (cases r) (auto simp: slice_strip_prefix_def)
  with assms show ?thesis
    by (auto simp: join_def push_def strip_prefix_def starts_with_def slice_ends_with_single
        is_relative_def slice_strip_prefix_def)
qed

lemma starts_with_append:
  assumes "starts_with p q" "q \<noteq> []"
  shows "abs_path p = (abs_path q)\<lparr>names := names (abs_path q) @ names_of (drop (length q) p)\<rparr>"
proof -
  let ?r = "drop (length q) p"
  from assms have eq: "q @ ?r = p" unfolding starts_with_def by (metis append_take_drop_id)
  show ?thesis
  proof (cases "?r = []")
    case True
    then show ?thesis using eq by simp
  next
    case False
    then have "p ! length q = hd ?r" by (simp add: hd_drop_conv_nth)
    with assms False have "last q = SEP \<or> (?r \<noteq> [] \<and> hd ?r = SEP)"
      by (auto simp: starts_with_def slice_ends_with_single)
    from abs_append [OF assms(2) this] show ?thesis using eq by simp
  qed
qed

lemma names_of_strip_sep:
  "names_of (case slice_strip_prefix r [SEP] of Some r' \<Rightarrow> r' | None \<Rightarrow> r) = names_of r"
  using names_of_append_sep [of "[]"] by (cases r) (auto simp: slice_strip_prefix_def)

lemma extension_stem:
  assumes "file_name p = Some n"
  shows "n = (case (file_stem p, extension p) of
                (Some s, Some e) \<Rightarrow> s @ DOT # e
              | (Some s, None) \<Rightarrow> s
              | _ \<Rightarrow> [])"
proof (cases "rposition (\<lambda>b. b = DOT) n")
  case None
  with assms show ?thesis by (simp add: file_stem_def extension_def option.case_eq_if)
next
  case (Some i)
  with rposition_Some [OF Some] assms show ?thesis
    by (cases i) (auto simp: file_stem_def extension_def dest: id_take_nth_drop)
qed

definition spec_set_file_name :: "apath \<Rightarrow> apath \<Rightarrow> apath" where
  "spec_set_file_name a b =
     spec_push (if spec_file_name a \<noteq> None then a\<lparr>names := butlast (names a)\<rparr> else a) b"

lemma abs_set_file_name:
  "abs_path (set_file_name p n) = spec_set_file_name (abs_path p) (abs_path n)"
proof (cases "file_name p")
  case None
  then show ?thesis
    by (simp add: set_file_name_def spec_set_file_name_def abs_push flip: abs_file_name)
next
  case (Some m)
  then have "spec_parent (abs_path p) = Some ((abs_path p)\<lparr>names := butlast (names (abs_path p))\<rparr>)"
    by (auto simp: abs_file_name spec_file_name_def spec_parent_def split: if_splits)
  then have "map_option abs_path (parent p)
      = Some ((abs_path p)\<lparr>names := butlast (names (abs_path p))\<rparr>)"
    by (simp add: abs_parent)
  then obtain q where "parent p = Some q"
    "abs_path q = (abs_path p)\<lparr>names := butlast (names (abs_path p))\<rparr>" by auto
  with Some show ?thesis
    by (simp add: set_file_name_def spec_set_file_name_def abs_push pop_parent flip: abs_file_name)
qed

text \<open>A path written as a directory part and a plain name, with nothing after the name.\<close>

definition written_as :: "path \<Rightarrow> path \<Rightarrow> bytes \<Rightarrow> bool" where
  "written_as p d n \<longleftrightarrow>
     p = d @ n \<and> (d = [] \<or> last d = SEP) \<and> n \<noteq> [] \<and> n \<noteq> [DOT] \<and> n \<noteq> [DOT, DOT]
     \<and> SEP \<notin> set n"

lemma written_as_abs:
  assumes "written_as p d n"
  shows "abs_path p = (abs_path d)\<lparr>names := names (abs_path d) @ [n]\<rparr>"
proof (cases "d = []")
  case True
  have "\<not> is_absolute n" "\<not> leading_cur_dir n"
    using assms by (cases n; cases "tl n"; auto simp: written_as_def is_absolute_def leading_cur_dir_def)+
  moreover have "names_of n = [n]" using assms by (subst names_of_piece) (auto simp: written_as_def)
  ultimately show ?thesis using True assms
    by (simp add: written_as_def abs_path_def body_start_def) (simp add: is_absolute_def leading_cur_dir_def)
next
  case False
  have "names_of n = [n]" using assms by (subst names_of_piece) (auto simp: written_as_def)
  with False assms abs_append [of d n] show ?thesis by (auto simp: written_as_def)
qed

lemma written_as_file_name: "written_as p d n \<Longrightarrow> file_name p = Some n"
  by (simp add: abs_file_name written_as_abs spec_file_name_def) (auto simp: written_as_def)

lemma written_as_start:
  assumes "written_as p d n"
  shows "(case rposition (\<lambda>b. b = SEP) p of None \<Rightarrow> 0 | Some i \<Rightarrow> i + 1) = length d"
proof -
  have none: "\<forall>b \<in> set n. b \<noteq> SEP" using assms by (auto simp: written_as_def)
  show ?thesis
  proof (cases "d = []")
    case True
    then have "rposition (\<lambda>b. b = SEP) p = None" using assms none by (auto simp: written_as_def)
    then show ?thesis using True by (simp only: option.case list.size)
  next
    case False
    then obtain e where "d = e @ [SEP]" using assms
      by (metis append_butlast_last_id written_as_def)
    moreover have "p = e @ SEP # n" using assms calculation by (simp add: written_as_def)
    ultimately show ?thesis using rposition_mid [of "\<lambda>b. b = SEP" SEP n e] none by simp
  qed
qed

lemma set_extension_written:
  assumes w: "written_as p d n" and ext: "ext \<noteq> []" "DOT \<notin> set ext" "SEP \<notin> set ext"
  obtains stem where "file_stem p = Some stem" "stem \<noteq> []"
    "written_as (set_extension p ext) d (stem @ DOT # ext)"
proof -
  have p: "p = d @ n" using w by (simp add: written_as_def)
  have fn: "file_name p = Some n" by (rule written_as_file_name [OF w])
  note start = written_as_start [OF w]
  define stem where "stem = (case rposition (\<lambda>b. b = DOT) n of
      None \<Rightarrow> n | Some i \<Rightarrow> if i = 0 then n else take i n)"
  have stem1: "file_stem p = Some stem"
  proof (cases "rposition (\<lambda>b. b = DOT) n")
    case None
    then show ?thesis by (simp only: file_stem_def fn stem_def option.case)
  next
    case (Some i)
    then show ?thesis by (cases i) (simp_all add: file_stem_def fn stem_def)
  qed
  have stem2: "stem \<noteq> []" using w by (auto simp: stem_def written_as_def split: option.splits)
  have stem3: "SEP \<notin> set stem" using w
    by (auto simp: stem_def written_as_def dest: in_set_takeD split: option.splits if_splits)
  have "set_extension p ext = d @ stem @ DOT # ext"
    unfolding set_extension_def start Let_def using ext(1)
    by (auto simp: p stem_def simp del: rposition_None split: option.splits)
  moreover have "stem @ DOT # ext \<noteq> [DOT, DOT] \<and> stem @ DOT # ext \<noteq> [DOT]"
    using ext stem2 by (cases stem; cases "tl stem") auto
  ultimately have "written_as (set_extension p ext) d (stem @ DOT # ext)"
    using w ext stem2 stem3 by (auto simp: written_as_def)
  then show ?thesis using that stem1 stem2 by blast
qed

section \<open>Properties\<close>

text \<open>C1 (refinement). \<open>parent\<close> and \<open>file_name\<close> of \<open>src/path.rs\<close>, which walk byte offsets
  (\<open>trim_back\<close>, \<open>last_body_component\<close>), compute for every byte string what the documentation
  says of the components: the parent drops the last name, a lone \<open>.\<close> has the empty parent, the
  root and the empty path have none; the file name is the last name unless that is \<open>..\<close>.\<close>

theorem parent_file_name_refine:
  "map_option abs_path (parent p) = spec_parent (abs_path p)
   \<and> file_name p = spec_file_name (abs_path p)"
  by (simp add: abs_parent abs_file_name)

text \<open>C2 (refinement). \<open>push\<close>/\<open>join\<close> and \<open>set_file_name\<close> compute on the bytes what they should
  on the components: an absolute argument replaces the path, a relative one appends its names, and
  a file name is replaced only when there is one.\<close>

theorem push_set_file_name_refine:
  "abs_path (join p q) = spec_push (abs_path p) (abs_path q)
   \<and> abs_path (set_file_name p q) = spec_set_file_name (abs_path p) (abs_path q)"
  by (simp add: join_def abs_push abs_set_file_name)

text \<open>The walk \<open>while let Some(p) = here.parent()\<close> that \<open>ancestors\<close> is ends on every
  path: it yields one path per name, one for a leading \<open>.\<close> and one for what is left, and the last
  of them has no parent.\<close>

theorem ancestors_end:
  "length (ancestors_list (ancestors p))
     = Suc (length (names (abs_path p)) + (if dotted (abs_path p) then 1 else 0))
   \<and> parent (last (ancestors_list (ancestors p))) = None"
  by (simp add: ancestors_def length_ancestors last_ancestor)

text \<open>Draining \<open>components()\<close> one \<open>next\<close> at a time yields the root, when the
  path is absolute, and then exactly the pieces of \<open>parts()\<close>, classified.\<close>

theorem components_equal_parts:
  "components_list (components p)
     = (if is_absolute p then [RootDir] else []) @ map classify (parts p)
   \<and> concat (map (\<lambda>c. SEP # component_as_os_str c) (map classify (parts p)))
     = concat (map (\<lambda>s. SEP # s) (parts p))"
proof -
  have "component_as_os_str (classify s) = s" for s
    by (simp add: classify_def component_as_os_str_def)
  then show ?thesis by (simp add: components_parts comp_def)
qed

text \<open>C16 (roundtrip). Joining a relative path onto a non-empty one and stripping the base again gives
  the relative path back.\<close>

theorem strip_prefix_join:
  assumes "q \<noteq> []" and "is_relative r"
  shows "strip_prefix (join q r) q = Ok r"
  using assms by (rule join_strip_prefix)

theorem strip_prefix_join_witness:
  "strip_prefix (join (bstr ''/usr'') (bstr ''lib/x'')) (bstr ''/usr'') = Ok (bstr ''lib/x'')"
  by (rule strip_prefix_join) (simp_all add: is_relative_def is_absolute_def)

text \<open>C39 (functional). Setting a non-empty extension without a dot or a separator in it, on a path that
  ends in its file name, changes the extension to it and nothing else: the stem and the directory part
  stay. (One with a dot, as \<open>tar.gz\<close>, reads back as its last part, and an empty one removes it.)\<close>

theorem set_extension_reads_back:
  assumes "written_as p d n" "ext \<noteq> []" "DOT \<notin> set ext" "SEP \<notin> set ext"
  shows "extension (with_extension p ext) = Some ext
    \<and> file_stem (with_extension p ext) = file_stem p
    \<and> map_option abs_path (parent (with_extension p ext)) = map_option abs_path (parent p)"
proof -
  obtain stem where stem: "file_stem p = Some stem" "stem \<noteq> []"
    and w: "written_as (set_extension p ext) d (stem @ DOT # ext)"
    using set_extension_written [OF assms] by blast
  have "rposition (\<lambda>b. b = DOT) (stem @ DOT # ext) = Some (length stem)"
    using assms by (intro rposition_mid) auto
  then have "extension (set_extension p ext) = Some ext \<and> file_stem (set_extension p ext) = Some stem"
    using stem(2) by (cases stem)
      (simp_all add: extension_def file_stem_def written_as_file_name [OF w])
  then show ?thesis
    using stem by (simp add: with_extension_def abs_parent written_as_abs [OF w]
        written_as_abs [OF assms(1)] spec_parent_def)
qed

theorem set_extension_reads_back_witness:
  "extension (with_extension (bstr ''src/a.b.rs'') (bstr ''o'')) = Some (bstr ''o'')
   \<and> file_stem (with_extension (bstr ''src/a.b.rs'') (bstr ''o'')) = file_stem (bstr ''src/a.b.rs'')"
proof -
  have "written_as (bstr ''src/a.b.rs'') (bstr ''src/'') (bstr ''a.b.rs'')"
    by (simp add: written_as_def)
  from set_extension_reads_back [OF this, of "bstr ''o''"] show ?thesis by simp
qed

section \<open>Where the code and its documentation part\<close>

text \<open>
  With a trailing separator \<open>set_extension\<close> does not find the name \<open>extension\<close> reads: it looks after
  the last \<open>/\<close> only.
\<close>

lemma set_extension_trailing_separator:
  "extension (bstr ''a.rs/'') = Some (bstr ''rs'')
   \<and> with_extension (bstr ''a.rs/'') (bstr ''o'') = bstr ''a.rs/.o''
   \<and> extension (with_extension (bstr ''a.rs/'') (bstr ''o'')) = None"
  by code_simp

text \<open>On \<open>..\<close>, which is a step and has no extension, it cuts the second dot off.\<close>

lemma set_extension_parent_dir:
  "extension (bstr ''a/..'') = None \<and> with_extension (bstr ''a/..'') (bstr ''o'') = bstr ''a/..o''"
  by code_simp

text \<open>
  \<open>strip_prefix\<close> removes one separator, so a doubled one leaves an absolute remainder, and joining it
  to the prefix again loses the prefix.
\<close>

lemma strip_prefix_doubled_separator:
  "strip_prefix (bstr ''/a//b'') (bstr ''/a'') = Ok (bstr ''/b'')
   \<and> join (bstr ''/a'') (bstr ''/b'') = bstr ''/b''"
  by code_simp

text \<open>\<open>starts_with\<close> compares bytes: equal leading components written differently do not match.\<close>

lemma starts_with_is_bytewise:
  "abs_path (bstr ''a//b'') = abs_path (bstr ''a/b'') \<and> \<not> starts_with (bstr ''a//b/c'') (bstr ''a/b'')
   \<and> \<not> starts_with (bstr ''a/b'') []"
  by code_simp

end
