(* ===== verification/Utf8.thy ===== *)
theory Utf8
  imports Paths
begin

text \<open>
  What the crate uses of Rust's UTF-8: \<open>str::from_utf8\<close> (does it decode?), \<open>utf8_chunks\<close>
  (maximal valid runs separated by maximal invalid sequences) and \<open>String::from_utf8_lossy\<close>; and the
  textual forms of a path in \<open>src/path.rs\<close> built on them.
\<close>

section \<open>Decoding\<close>

definition cont_byte :: "u8 \<Rightarrow> bool" where
  "cont_byte b = (128 \<le> b \<and> b \<le> 191)"

text \<open>The second byte of a three- or four-byte sequence excludes overlong forms, surrogates and
  anything past U+10FFFF.\<close>

definition second_of_three :: "u8 \<Rightarrow> u8 \<Rightarrow> bool" where
  "second_of_three b c =
     (if b = 224 then 160 \<le> c \<and> c \<le> 191
      else if b = 237 then 128 \<le> c \<and> c \<le> 159
      else cont_byte c)"

definition second_of_four :: "u8 \<Rightarrow> u8 \<Rightarrow> bool" where
  "second_of_four b c =
     (if b = 240 then 144 \<le> c \<and> c \<le> 191
      else if b = 244 then 128 \<le> c \<and> c \<le> 143
      else cont_byte c)"

text \<open>One step at a first byte: whether a sequence decodes, and how many bytes it, or the maximal
  invalid sequence, takes.\<close>

definition utf8_step :: "u8 \<Rightarrow> bytes \<Rightarrow> bool \<times> nat" where
  "utf8_step b rest =
     (if b < 128 then (True, 1)
      else if 194 \<le> b \<and> b \<le> 223 then
        (case rest of
           c # _ \<Rightarrow> if cont_byte c then (True, 2) else (False, 1)
         | [] \<Rightarrow> (False, 1))
      else if 224 \<le> b \<and> b \<le> 239 then
        (case rest of
           c # d # _ \<Rightarrow> if \<not> second_of_three b c then (False, 1)
                       else if cont_byte d then (True, 3) else (False, 2)
         | [c] \<Rightarrow> if second_of_three b c then (False, 2) else (False, 1)
         | [] \<Rightarrow> (False, 1))
      else if 240 \<le> b \<and> b \<le> 244 then
        (case rest of
           c # d # e # _ \<Rightarrow> if \<not> second_of_four b c then (False, 1)
                           else if \<not> cont_byte d then (False, 2)
                           else if cont_byte e then (True, 4) else (False, 3)
         | [c, d] \<Rightarrow> if \<not> second_of_four b c then (False, 1)
                     else if \<not> cont_byte d then (False, 2) else (False, 3)
         | [c] \<Rightarrow> if second_of_four b c then (False, 2) else (False, 1)
         | [] \<Rightarrow> (False, 1))
      else (False, 1))"

lemma utf8_step_bounds: "1 \<le> snd (utf8_step b r) \<and> snd (utf8_step b r) \<le> Suc (length r)"
  by (auto simp: utf8_step_def split: list.splits)

lemma utf8_step_ok:
  "utf8_step b r = (True, n) \<Longrightarrow> n - 1 \<le> length r \<and> utf8_step b (take (n - 1) r @ t) = (True, n)"
  by (cases r; cases "tl r"; cases "tl (tl r)") (auto simp: utf8_step_def split: if_splits)

function utf8_valid :: "bytes \<Rightarrow> bool" where
  "utf8_valid [] = True"
| "utf8_valid (b # r) =
     (fst (utf8_step b r) \<and> utf8_valid (drop (snd (utf8_step b r) - 1) r))"
  by pat_completeness auto
termination
  by (relation "measure length") auto

text \<open>The length of the longest prefix that decodes.\<close>

function valid_up_to :: "bytes \<Rightarrow> nat" where
  "valid_up_to [] = 0"
| "valid_up_to (b # r) =
     (let (ok, n) = utf8_step b r in
      if ok then n + valid_up_to (drop (n - 1) r) else 0)"
  by pat_completeness auto
termination
  by (relation "measure length") auto

function utf8_chunks :: "bytes \<Rightarrow> (bytes \<times> bytes) list" where
  "utf8_chunks bs =
     (if bs = [] then []
      else
        (let v = valid_up_to bs in
         case drop v bs of
           [] \<Rightarrow> [(take v bs, [])]
         | b # r \<Rightarrow>
             (let n = snd (utf8_step b r) in
              (take v bs, take n (b # r)) # utf8_chunks (drop n (b # r)))))"
  by pat_completeness auto
termination
proof (relation "measure length", goal_cases)
  case 1
  show ?case by simp
next
  case (2 bs v b r n)
  then have "length (b # r) \<le> length bs" by (metis length_drop diff_le_self)
  moreover have "0 < n" using utf8_step_bounds [of b r] 2 by simp
  ultimately show ?case by simp
qed

declare utf8_chunks.simps [simp del]

text \<open>U+FFFD, the replacement character, in UTF-8.\<close>

definition replacement :: bytes where
  "replacement = [239, 191, 189]"

text \<open>The loop over the chunks, as \<open>to_string_lossy\<close> and \<open>Display\<close> write it: the valid part, then one
  replacement character when the invalid part is not empty.\<close>

fun push_chunks :: "bytes \<Rightarrow> (bytes \<times> bytes) list \<Rightarrow> bytes" where
  "push_chunks out [] = out"
| "push_chunks out ((valid, invalid) # rest) =
     push_chunks (if invalid \<noteq> [] then (out @ valid) @ replacement else out @ valid) rest"

definition from_utf8 :: "bytes \<Rightarrow> bytes option" where
  "from_utf8 bs = (if utf8_valid bs then Some bs else None)"

definition from_utf8_lossy :: "bytes \<Rightarrow> bytes" where
  "from_utf8_lossy bs = push_chunks [] (utf8_chunks bs)"

section \<open>The textual forms of a path\<close>

definition to_str :: "path \<Rightarrow> bytes option" where
  "to_str p = from_utf8 p"

datatype cow = Borrowed bytes | Owned bytes

definition to_string_lossy :: "path \<Rightarrow> cow" where
  "to_string_lossy p =
     (case to_str p of
        Some s \<Rightarrow> Borrowed s
      | None \<Rightarrow> Owned (push_chunks [] (utf8_chunks p)))"

definition cow_text :: "cow \<Rightarrow> bytes" where
  "cow_text c = (case c of Borrowed s \<Rightarrow> s | Owned s \<Rightarrow> s)"

text \<open>\<open>Display for Display\<close>: what has been written to the formatter, which does not fail here.\<close>

definition display_path :: "path \<Rightarrow> bytes" where
  "display_path p =
     (case to_str p of
        Some s \<Rightarrow> s
      | None \<Rightarrow> push_chunks [] (utf8_chunks p))"

section \<open>Lemmas\<close>

lemma utf8_valid_append: "utf8_valid xs \<Longrightarrow> utf8_valid (xs @ ys) = utf8_valid ys"
proof (induction xs rule: utf8_valid.induct)
  case 1
  then show ?case by simp
next
  case (2 b r)
  then obtain n where st: "utf8_step b r = (True, n)" by (cases "utf8_step b r") auto
  from utf8_step_ok [OF st, of "drop (n - 1) r @ ys"] have st': "utf8_step b (r @ ys) = (True, n)"
    and n: "n - 1 \<le> length r" by (auto simp flip: append_assoc)
  have "utf8_valid (drop (n - 1) r @ ys) = utf8_valid ys" using "2.IH" "2.prems" st by simp
  then show ?case using st st' n by simp
qed

lemma utf8_valid_take: "utf8_valid (take (valid_up_to bs) bs)"
proof (induction bs rule: valid_up_to.induct)
  case 1
  then show ?case by simp
next
  case (2 b r)
  show ?case
  proof (cases "fst (utf8_step b r)")
    case False
    then show ?thesis by (simp add: case_prod_beta)
  next
    case True
    then obtain n where st: "utf8_step b r = (True, n)" by (cases "utf8_step b r") auto
    let ?d = "drop (n - 1) r"
    have n: "1 \<le> n" "n - 1 \<le> length r" using utf8_step_bounds [of b r] st by auto
    then obtain m where m: "n = Suc m" by (cases n) auto
    have "valid_up_to (b # r) = Suc (m + valid_up_to ?d)" using st m by simp
    then have eq: "take (valid_up_to (b # r)) (b # r)
        = b # take (n - 1) r @ take (valid_up_to ?d) ?d"
      using m by (simp only: take_Suc_Cons take_add) simp
    have "utf8_valid (take (valid_up_to ?d) ?d)" using "2" [OF st [symmetric] refl] True st by simp
    then show ?thesis unfolding eq using utf8_step_ok [OF st] n by simp
  qed
qed

lemma valid_up_to_all: "length bs \<le> valid_up_to bs \<Longrightarrow> utf8_valid bs"
  using utf8_valid_take [of bs] by simp

lemma valid_up_to_stop: "drop (valid_up_to bs) bs = b # r \<Longrightarrow> \<not> fst (utf8_step b r)"
proof (induction bs rule: valid_up_to.induct)
  case 1
  then show ?case by simp
next
  case (2 a q)
  show ?case
  proof (cases "fst (utf8_step a q)")
    case False
    with 2 show ?thesis by (simp add: case_prod_beta)
  next
    case True
    then obtain n where st: "utf8_step a q = (True, n)" by (cases "utf8_step a q") auto
    have "1 \<le> n" using utf8_step_bounds [of a q] st by simp
    then have "drop (valid_up_to (a # q)) (a # q) = drop (valid_up_to (drop (n - 1) q)) (drop (n - 1) q)"
      using st by (cases n) (simp_all add: add.commute)
    with 2 st show ?thesis by simp
  qed
qed

lemma valid_up_to_valid: "utf8_valid bs \<Longrightarrow> valid_up_to bs = length bs"
proof (induction bs rule: utf8_valid.induct)
  case 1
  then show ?case by simp
next
  case (2 b r)
  then obtain n where st: "utf8_step b r = (True, n)" by (cases "utf8_step b r") auto
  with 2 utf8_step_bounds [of b r] show ?case by simp
qed

lemma push_chunks_out: "push_chunks out cs = out @ push_chunks [] cs"
proof (induction cs arbitrary: out)
  case Nil
  then show ?case by simp
next
  case (Cons c cs)
  obtain v i where c: "c = (v, i)" by (cases c)
  show ?case
    using Cons [of "if i \<noteq> [] then (out @ v) @ replacement else out @ v"]
      Cons [of "if i \<noteq> [] then ([] @ v) @ replacement else [] @ v"]
    by (simp add: c)
qed

lemma utf8_valid_replacement: "utf8_valid replacement"
  by (simp add: replacement_def utf8_step_def second_of_three_def cont_byte_def)

lemma chunks_valid: "\<forall>c \<in> set (utf8_chunks bs). utf8_valid (fst c)"
proof (induction bs rule: utf8_chunks.induct)
  case (1 bs)
  then show ?case
    by (auto simp: utf8_chunks.simps [of bs] utf8_valid_take valid_up_to_all Let_def
        split: list.splits)
qed

lemma chunks_concat: "concat (map (\<lambda>(v, i). v @ i) (utf8_chunks bs)) = bs"
proof (induction bs rule: utf8_chunks.induct)
  case (1 bs)
  show ?case
  proof (cases "bs = []")
    case True
    then show ?thesis by (simp add: utf8_chunks.simps)
  next
    case False
    show ?thesis
    proof (cases "drop (valid_up_to bs) bs")
      case Nil
      then show ?thesis using False by (simp add: utf8_chunks.simps [of bs])
    next
      case (Cons b r)
      let ?n = "snd (utf8_step b r)"
      have "concat (map (\<lambda>(v, i). v @ i) (utf8_chunks (drop ?n (b # r)))) = drop ?n (b # r)"
        using "1" [OF False refl Cons refl] .
      then have "concat (map (\<lambda>(v, i). v @ i) (utf8_chunks bs))
          = take (valid_up_to bs) bs @ take ?n (b # r) @ drop ?n (b # r)"
        using False Cons by (simp add: utf8_chunks.simps [of bs] Let_def del: drop_Cons')
      then show ?thesis using Cons by (metis append_take_drop_id)
    qed
  qed
qed

lemma push_chunks_valid:
  "\<forall>c \<in> set cs. utf8_valid (fst c) \<Longrightarrow> utf8_valid (push_chunks [] cs)"
proof (induction cs)
  case Nil
  then show ?case by simp
next
  case (Cons c cs)
  obtain v i where c: "c = (v, i)" by (cases c)
  have "push_chunks [] (c # cs) = v @ (if i \<noteq> [] then replacement else []) @ push_chunks [] cs"
    using push_chunks_out [of v cs] push_chunks_out [of "v @ replacement" cs] by (simp add: c)
  with Cons c show ?case by (simp add: utf8_valid_append utf8_valid_replacement)
qed

lemma lossy_valid: "utf8_valid (from_utf8_lossy bs)"
  by (simp add: from_utf8_lossy_def push_chunks_valid chunks_valid)

lemma lossy_of_valid: "utf8_valid bs \<Longrightarrow> from_utf8_lossy bs = bs"
  by (simp add: from_utf8_lossy_def utf8_chunks.simps [of bs] valid_up_to_valid)

lemma utf8_ascii: "\<forall>b \<in> set bs. b < 128 \<Longrightarrow> utf8_valid bs"
  by (induction bs) (auto simp: utf8_step_def)

lemma lossy_ascii: "\<forall>b \<in> set bs. b < 128 \<Longrightarrow> from_utf8_lossy bs = bs"
  by (simp add: lossy_of_valid utf8_ascii)

text \<open>What \<open>replacing invalid UTF-8\<close> means, one step of the decoder at a time and without chunks: a sequence
  that decodes stands for itself, a maximal one that does not for one replacement character.\<close>

function lossy :: "bytes \<Rightarrow> bytes" where
  "lossy [] = []"
| "lossy (b # r) =
     (let (ok, n) = utf8_step b r
      in (if ok then b # take (n - 1) r else replacement) @ lossy (drop (n - 1) r))"
  by pat_completeness auto
termination
  by (relation "measure length") auto

lemma lossy_runs: "lossy bs = take (valid_up_to bs) bs @ lossy (drop (valid_up_to bs) bs)"
proof (induction bs rule: lossy.induct)
  case 1
  then show ?case by simp
next
  case (2 b r)
  show ?case
  proof (cases "fst (utf8_step b r)")
    case False
    then show ?thesis by (simp add: case_prod_beta)
  next
    case True
    then obtain n where st: "utf8_step b r = (True, n)" by (cases "utf8_step b r") auto
    let ?d = "drop (n - 1) r"
    have "1 \<le> n" using utf8_step_bounds [of b r] st by simp
    then obtain m where m: "n = Suc m" by (cases n) auto
    have v: "valid_up_to (b # r) = Suc (m + valid_up_to ?d)" using st m by simp
    have "lossy (b # r) = b # take m r @ lossy ?d" using st m by simp
    also have "lossy ?d = take (valid_up_to ?d) ?d @ lossy (drop (valid_up_to ?d) ?d)"
      using "2" [OF st [symmetric] refl] .
    finally show ?thesis using m by (simp only: v take_Suc_Cons drop_Suc_Cons take_add drop_drop) (simp add: add.commute)
  qed
qed

lemma lossy_chunks: "push_chunks [] (utf8_chunks bs) = lossy bs"
proof (induction bs rule: utf8_chunks.induct)
  case (1 bs)
  show ?case
  proof (cases "bs = []")
    case True
    then show ?thesis by (simp add: utf8_chunks.simps)
  next
    case False
    show ?thesis
    proof (cases "drop (valid_up_to bs) bs")
      case Nil
      then show ?thesis using False lossy_runs [of bs] by (simp add: utf8_chunks.simps [of bs])
    next
      case (Cons b r)
      let ?n = "snd (utf8_step b r)"
      have n: "1 \<le> ?n" using utf8_step_bounds by blast
      then have d: "drop ?n (b # r) = drop (?n - 1) r" "take ?n (b # r) \<noteq> []" by (cases ?n; simp)+
      have "push_chunks [] (utf8_chunks (drop ?n (b # r))) = lossy (drop ?n (b # r))"
        using "1" [OF False refl Cons refl] .
      then have "push_chunks [] (utf8_chunks bs) = take (valid_up_to bs) bs @ replacement @ lossy (drop (?n - 1) r)"
        using False Cons d push_chunks_out [of "take (valid_up_to bs) bs @ replacement"]
        by (simp add: utf8_chunks.simps [of bs] Let_def del: drop_Cons' take_Cons')
      moreover have "lossy (b # r) = replacement @ lossy (drop (?n - 1) r)"
        using valid_up_to_stop [OF Cons] by (simp add: case_prod_beta)
      ultimately show ?thesis using lossy_runs [of bs] Cons by simp
    qed
  qed
qed

section \<open>Properties\<close>

text \<open>C40 (equivalence). The lossy text of a path (\<open>to_string_lossy\<close>, \<open>Display\<close>) is the path with each maximal
  invalid sequence replaced by one replacement character and everything else kept, in order, as the
  decoder finds them one after the other; it is valid UTF-8, is the path's own bytes, borrowed, exactly
  when they are valid UTF-8, and differs from them otherwise.\<close>

theorem lossy_text_is_text:
  "cow_text (to_string_lossy p) = lossy p
   \<and> display_path p = lossy p
   \<and> utf8_valid (lossy p)
   \<and> (to_string_lossy p = Borrowed p \<longleftrightarrow> utf8_valid p)
   \<and> (lossy p = p \<longleftrightarrow> utf8_valid p)"
proof (cases "utf8_valid p")
  case True
  then have "lossy p = p" using lossy_of_valid by (simp add: from_utf8_lossy_def lossy_chunks)
  with True show ?thesis
    by (simp add: to_string_lossy_def to_str_def from_utf8_def cow_text_def display_path_def)
next
  case False
  then have "to_string_lossy p = Owned (lossy p)" "display_path p = lossy p"
    by (simp_all add: to_string_lossy_def to_str_def from_utf8_def display_path_def lossy_chunks)
  moreover have "utf8_valid (lossy p)" using lossy_valid [of p] by (simp add: from_utf8_lossy_def lossy_chunks)
  ultimately show ?thesis using False by (auto simp: cow_text_def)
qed

end
