(* ===== verification/Errors.thy ===== *)
theory Errors
  imports Utf8
begin

text \<open>
  \<open>Errno\<close> and \<open>checked\<close> of \<open>src/lib.rs\<close> (and \<open>would_block\<close>, which \<open>src/socket.rs\<close> adds), and
  \<open>Error\<close> and \<open>ErrorKind\<close> of \<open>src/file.rs\<close>. The thread's \<open>errno\<close> after a failed call and the text
  \<open>strerror_r\<close> writes are arguments.
\<close>

section \<open>Errno\<close>

definition interrupted :: "libc \<Rightarrow> errno \<Rightarrow> bool" where
  "interrupted L e = (e = EINTR L)"

definition would_block :: "libc \<Rightarrow> errno \<Rightarrow> bool" where
  "would_block L e = (e = EAGAIN L \<or> e = EWOULDBLOCK L)"

text \<open>\<open>current\<close> is what \<open>Errno::current()\<close> would answer after the call that returned \<open>returned\<close>.\<close>

definition checked :: "errno \<Rightarrow> int \<Rightarrow> errno + int" where
  "checked current returned = (if returned = -1 then Err current else Ok returned)"

text \<open>\<open>strerror_r e\<close> is the status it returns and what it leaves in the 128-byte buffer.\<close>

definition message :: "(errno \<Rightarrow> int \<times> bytes) \<Rightarrow> errno \<Rightarrow> bytes" where
  "message strerror_r e =
     (let (ok, into) = strerror_r e in
      if ok \<noteq> 0 then bstr ''unknown error''
      else
        (let end' = (case position (\<lambda>b. b = NUL) into of Some i \<Rightarrow> i | None \<Rightarrow> length into) in
         case from_utf8 (take end' into) of
           Some s \<Rightarrow> s
         | None \<Rightarrow> bstr ''unknown error''))"

text \<open>Decimal digits, as the formatting machinery of \<open>core\<close> prints integers.\<close>

fun dec_nat :: "nat \<Rightarrow> bytes" where
  "dec_nat n = (if n < 10 then [48 + of_nat n] else dec_nat (n div 10) @ [48 + of_nat (n mod 10)])"

declare dec_nat.simps [simp del]

definition dec_int :: "int \<Rightarrow> bytes" where
  "dec_int i = (if i < 0 then 45 # dec_nat (nat (- i)) else dec_nat (nat i))"

definition display_errno :: "(errno \<Rightarrow> int \<times> bytes) \<Rightarrow> errno \<Rightarrow> bytes" where
  "display_errno strerror_r e =
     message strerror_r e @ bstr '' (errno '' @ dec_int e @ bstr '')''"

section \<open>Errors of file operations\<close>

datatype error_kind =
    NotFound | PermissionDenied | IsADirectory | InvalidInput | InvalidData | Other

record file_error =
  err_errno :: errno
  err_kind :: error_kind
  err_what :: bytes

definition kind_of :: "libc \<Rightarrow> errno \<Rightarrow> error_kind" where
  "kind_of L e =
     (if e = ENOENT L then NotFound
      else if e = EACCES L \<or> e = EPERM L then PermissionDenied
      else if e = EISDIR L then IsADirectory
      else if e = EILSEQ L then InvalidData
      else Other)"

definition from_errno :: "libc \<Rightarrow> errno \<Rightarrow> bytes \<Rightarrow> file_error" where
  "from_errno L e what = \<lparr>err_errno = e, err_kind = kind_of L e, err_what = what\<rparr>"

text \<open>The module's \<open>err\<close>: the same from the errno the failed call has just set.\<close>

definition err :: "libc \<Rightarrow> errno \<Rightarrow> bytes \<Rightarrow> file_error" where
  "err L current what =
     (let e = current in \<lparr>err_errno = e, err_kind = kind_of L e, err_what = what\<rparr>)"

definition too_large :: "libc \<Rightarrow> file_error" where
  "too_large L = from_errno L (EFBIG L) (bstr ''file too large'')"

definition no_cwd :: "libc \<Rightarrow> errno \<Rightarrow> file_error" where
  "no_cwd L current = from_errno L current (bstr ''getcwd'')"

definition invalid_data :: "libc \<Rightarrow> bytes \<Rightarrow> file_error" where
  "invalid_data L what = from_errno L (EILSEQ L) what"

definition error_new :: "error_kind \<Rightarrow> bytes \<Rightarrow> file_error" where
  "error_new kind what = \<lparr>err_errno = 0, err_kind = kind, err_what = what\<rparr>"

definition error_other :: "bytes \<Rightarrow> file_error" where
  "error_other what = error_new Other what"

definition is_not_found :: "libc \<Rightarrow> file_error \<Rightarrow> bool" where
  "is_not_found L e = (err_errno e = ENOENT L)"

definition is_already_exists :: "libc \<Rightarrow> file_error \<Rightarrow> bool" where
  "is_already_exists L e = (err_errno e = EEXIST L)"

definition display_error :: "(errno \<Rightarrow> int \<times> bytes) \<Rightarrow> file_error \<Rightarrow> bytes" where
  "display_error strerror_r e =
     (if err_errno e = 0 then err_what e
      else err_what e @ bstr '': '' @ message strerror_r (err_errno e))"

section \<open>Lemmas\<close>

lemma err_from_errno: "err L e what = from_errno L e what"
  by (simp add: err_def from_errno_def)

lemma kind_not_found: "kind_of L e = NotFound \<longleftrightarrow> e = ENOENT L"
  by (simp add: kind_of_def)

lemma errnos_distinct:
  assumes "posix_errnos L"
  shows "EACCES L \<noteq> ENOENT L" "EPERM L \<noteq> ENOENT L" "EILSEQ L \<noteq> ENOENT L"
    "EILSEQ L \<noteq> EACCES L" "EILSEQ L \<noteq> EPERM L" "EILSEQ L \<noteq> EISDIR L" "EFBIG L \<noteq> ENOENT L"
    "EFBIG L \<noteq> EACCES L" "EFBIG L \<noteq> EPERM L" "EFBIG L \<noteq> EISDIR L" "EFBIG L \<noteq> EILSEQ L"
    "ENOENT L \<noteq> 0"
  using assms by (auto simp: posix_errnos_def)

lemma kind_denied:
  "posix_errnos L \<Longrightarrow> kind_of L e = PermissionDenied \<longleftrightarrow> e = EACCES L \<or> e = EPERM L"
  by (auto simp: kind_of_def errnos_distinct)

lemma kind_other:
  "kind_of L e = Other \<longleftrightarrow> e \<notin> {ENOENT L, EACCES L, EPERM L, EISDIR L, EILSEQ L}"
  by (simp add: kind_of_def)

lemma dec_nat_length: "dec_nat n \<noteq> []"
  by (subst dec_nat.simps) simp

section \<open>Properties\<close>

text \<open>Every error that carries an errno is categorised by it, keeps it, and answers
  \<open>is_not_found\<close> consistently with its kind; an errno outside the table, such as an interruption or
  a broken pipe, is \<open>Other\<close>; the errors the crate builds without a system call land in the category
  their documentation names.\<close>

theorem error_categories:
  assumes "posix_errnos L"
  shows "err_errno (from_errno L e what) = e
    \<and> (is_not_found L (from_errno L e what) \<longleftrightarrow> err_kind (from_errno L e what) = NotFound)
    \<and> (err_kind (from_errno L e what) = PermissionDenied \<longleftrightarrow> e \<in> {EACCES L, EPERM L})
    \<and> (err_kind (from_errno L e what) = Other \<longleftrightarrow>
         e \<notin> {ENOENT L, EACCES L, EPERM L, EISDIR L, EILSEQ L})
    \<and> err_kind (invalid_data L what) = InvalidData
    \<and> err_kind (too_large L) = Other
    \<and> \<not> is_not_found L (error_new k what)"
proof (intro conjI)
  note d = errnos_distinct [OF assms]
  show "err_errno (from_errno L e what) = e"
    and "is_not_found L (from_errno L e what) \<longleftrightarrow> err_kind (from_errno L e what) = NotFound"
    and "err_kind (from_errno L e what) = PermissionDenied \<longleftrightarrow> e \<in> {EACCES L, EPERM L}"
    and "err_kind (from_errno L e what) = Other \<longleftrightarrow>
         e \<notin> {ENOENT L, EACCES L, EPERM L, EISDIR L, EILSEQ L}"
    by (simp_all add: from_errno_def is_not_found_def kind_not_found kind_denied [OF assms] kind_other)
  show "err_kind (invalid_data L what) = InvalidData"
    using d by (simp add: invalid_data_def from_errno_def kind_of_def)
  show "err_kind (too_large L) = Other"
    using d by (simp add: too_large_def from_errno_def kind_other)
  show "\<not> is_not_found L (error_new k what)"
    using d by (simp add: is_not_found_def error_new_def)
qed

theorem error_categories_witness:
  "err_kind (from_errno macos_libc 13 []) = PermissionDenied
   \<and> \<not> is_not_found macos_libc (error_new NotFound [])"
  using error_categories [OF posix_errnos_macos, of 13 "[]" NotFound]
  by (simp add: macos_libc_def)

text \<open>The documentation of \<open>is_not_found\<close> says whether the file was not there; an error a caller builds
  with \<open>Error::new(ErrorKind::NotFound, ..)\<close> has errno 0 and answers no.\<close>

lemma new_not_found_is_not_found:
  "err_kind (error_new NotFound w) = NotFound \<and> \<not> is_not_found linux_libc (error_new NotFound w)"
  by (simp add: error_new_def is_not_found_def linux_libc_def)

end
