(* ===== verification/Streams.thy ===== *)
theory Streams
  imports Errors
begin

text \<open>
  The loops around \<open>read(2)\<close> and \<open>write(2)\<close>: \<open>write_fd\<close> (\<open>src/print.rs\<close>), \<open>write_all\<close>, \<open>read\<close> and
  \<open>read_to_end\<close> of \<open>File\<close> (\<open>src/file.rs\<close>), \<open>write_all\<close> and \<open>read\<close> of the socket's \<open>Stream\<close>
  (\<open>src/socket.rs\<close>), and \<open>take_ready\<close> of a child's pipe (\<open>src/command.rs\<close>).

  The kernel is the environment: the answers it gives to the successive calls are a list, one element
  per call, and a loop consumes them in order. The result is \<open>None\<close> when the list ends before the
  loop does, that is when the last call has not returned. So the recursion needs no fuel, a loop that
  spins is one that is \<open>None\<close> on arbitrarily long lists, and a theorem that a loop returns says which
  lists of answers make it return.
\<close>

datatype read_ans = RData bytes | RErr errno

datatype write_ans = Wrote nat | WErr errno

text \<open>How a run of Rust code ends: with a value or by a panic (a slice index out of range).\<close>

datatype 'r ended = Done 'r | Panic

text \<open>What a write loop leaves: how it ended, the bytes the kernel accepted, the answers not used.\<close>

type_synonym 'r write_run = "('r ended \<times> bytes \<times> write_ans list) option"

definition accepted :: "bytes \<Rightarrow> 'r write_run \<Rightarrow> 'r write_run" where
  "accepted chunk run = map_option (\<lambda>(v, out, rest). (v, chunk @ out, rest)) run"

section \<open>Writing\<close>

fun write_fd :: "libc \<Rightarrow> write_ans list \<Rightarrow> bytes \<Rightarrow> unit write_run" where
  "write_fd L script [] = Some (Done (), [], script)"
| "write_fd L [] bytes = None"
| "write_fd L (Wrote n # script) bytes =
     (if n \<le> 0 then Some (Done (), [], script)
      else if length bytes < n then Some (Panic, [], script)
      else accepted (take n bytes) (write_fd L script (drop n bytes)))"
| "write_fd L (WErr e # script) bytes =
     (if e = EINTR L then write_fd L script bytes
      else Some (Done (), [], script))"

fun file_write_all :: "libc \<Rightarrow> write_ans list \<Rightarrow> bytes \<Rightarrow> (file_error + unit) write_run" where
  "file_write_all L script [] = Some (Done (Ok ()), [], script)"
| "file_write_all L [] bytes = None"
| "file_write_all L (Wrote n # script) bytes =
     (if length bytes < n then Some (Panic, [], script)
      else accepted (take n bytes) (file_write_all L script (drop n bytes)))"
| "file_write_all L (WErr e # script) bytes =
     (if e = EINTR L then file_write_all L script bytes
      else Some (Done (Err (err L e (bstr ''write''))), [], script))"

fun socket_write_all :: "libc \<Rightarrow> write_ans list \<Rightarrow> bytes \<Rightarrow> (errno + unit) write_run" where
  "socket_write_all L script [] = Some (Done (Ok ()), [], script)"
| "socket_write_all L [] bytes = None"
| "socket_write_all L (Wrote n # script) bytes =
     (if n = 0 then Some (Done (Err (EPIPE L)), [], script)
      else if length bytes < n then Some (Panic, [], script)
      else accepted (take n bytes) (socket_write_all L script (drop n bytes)))"
| "socket_write_all L (WErr e # script) bytes =
     (if e = EINTR L then socket_write_all L script bytes
      else Some (Done (Err e), [], script))"

text \<open>\<open>fmt::Write for File\<close> forgets which error it was; \<open>file::Stream::write_all\<close> and its
  \<open>write_str\<close> go through \<open>write_fd\<close> and always succeed.\<close>

definition file_write_str :: "libc \<Rightarrow> write_ans list \<Rightarrow> bytes \<Rightarrow> (unit + unit) write_run" where
  "file_write_str L script s =
     map_option (\<lambda>(v, out, rest).
       (case v of
          Done (Inl _) \<Rightarrow> Done (Err ())
        | Done (Inr _) \<Rightarrow> Done (Ok ())
        | Panic \<Rightarrow> Panic, out, rest)) (file_write_all L script s)"

definition std_stream_write_all :: "libc \<Rightarrow> write_ans list \<Rightarrow> bytes \<Rightarrow> (file_error + unit) write_run" where
  "std_stream_write_all L script bytes =
     map_option (\<lambda>(v, out, rest).
       (case v of Done _ \<Rightarrow> Done (Ok ()) | Panic \<Rightarrow> Panic, out, rest)) (write_fd L script bytes)"

text \<open>\<open>fmt::Write\<close> of a standard stream, and its \<open>flush\<close>: nothing is buffered.\<close>

definition std_stream_write_str :: "libc \<Rightarrow> write_ans list \<Rightarrow> bytes \<Rightarrow> (unit + unit) write_run" where
  "std_stream_write_str L script text =
     map_option (\<lambda>(v, out, rest).
       (case v of Done _ \<Rightarrow> Done (Ok ()) | Panic \<Rightarrow> Panic, out, rest)) (write_fd L script text)"

definition std_stream_flush :: "file_error + unit" where
  "std_stream_flush = Ok ()"

section \<open>Reading\<close>

text \<open>\<open>File::read\<close> and the socket's \<open>read\<close>: the answer's data is what arrived in the buffer.\<close>

fun file_read :: "libc \<Rightarrow> read_ans list \<Rightarrow> ((file_error + bytes) \<times> read_ans list) option" where
  "file_read L [] = None"
| "file_read L (RErr e # script) =
     (if e = EINTR L then file_read L script
      else Some (Err (err L e (bstr ''read'')), script))"
| "file_read L (RData got # script) = Some (Ok got, script)"

fun socket_read :: "libc \<Rightarrow> read_ans list \<Rightarrow> ((errno + bytes) \<times> read_ans list) option" where
  "socket_read L [] = None"
| "socket_read L (RErr e # script) =
     (if e = EINTR L then socket_read L script else Some (Err e, script))"
| "socket_read L (RData got # script) = Some (Ok got, script)"

text \<open>\<open>File::read_to_end\<close>: the loop, with \<open>start\<close> the length of \<open>out\<close> on entry.\<close>

fun read_to_end_loop ::
  "libc \<Rightarrow> nat \<Rightarrow> read_ans list \<Rightarrow> bytes \<Rightarrow> ((file_error + nat) \<times> bytes \<times> read_ans list) option"
where
  "read_to_end_loop L start [] out = None"
| "read_to_end_loop L start (RErr e # script) out =
     (if e = EINTR L then read_to_end_loop L start script out
      else Some (Err (err L e (bstr ''read'')), out, script))"
| "read_to_end_loop L start (RData chunk # script) out =
     (if chunk = [] then Some (Ok (length out - start), out, script)
      else read_to_end_loop L start script (out @ chunk))"

definition read_to_end ::
  "libc \<Rightarrow> read_ans list \<Rightarrow> bytes \<Rightarrow> ((file_error + nat) \<times> bytes \<times> read_ans list) option"
where
  "read_to_end L script out = read_to_end_loop L (length out) script out"

text \<open>\<open>command::Pipe\<close>, and \<open>take_ready\<close> on its non-blocking read end.\<close>

record pipe =
  pipe_read :: int
  pipe_write :: int
  pipe_done :: bool
  pipe_got :: bytes

fun take_ready :: "libc \<Rightarrow> read_ans list \<Rightarrow> pipe \<Rightarrow> (pipe \<times> read_ans list) option" where
  "take_ready L [] p = None"
| "take_ready L (RData chunk # script) p =
     (if chunk \<noteq> [] then take_ready L script (p\<lparr>pipe_got := pipe_got p @ chunk\<rparr>)
      else Some (p\<lparr>pipe_done := True\<rparr>, script))"
| "take_ready L (RErr e # script) p =
     (if e = EINTR L then take_ready L script p
      else Some (if e \<noteq> EAGAIN L \<and> e \<noteq> EWOULDBLOCK L then p\<lparr>pipe_done := True\<rparr> else p, script))"

text \<open>\<open>Pipe::close_write\<close>: the descriptors it closes and the pipe afterwards; \<open>Drop\<close>.\<close>

definition close_write :: "pipe \<Rightarrow> int list \<times> pipe" where
  "close_write p =
     (if 0 \<le> pipe_write p then ([pipe_write p], p\<lparr>pipe_write := -1\<rparr>) else ([], p))"

definition drop_pipe :: "pipe \<Rightarrow> int list" where
  "drop_pipe p =
     (if 0 \<le> pipe_read p then [pipe_read p] else [])
     @ (if 0 \<le> pipe_write p then [pipe_write p] else [])"

section \<open>The contract of a write loop\<close>

text \<open>
  The three write loops differ in what they do with a failure and with an answer of zero. What they
  share is an interface: \<open>delivered v\<close> says of an ending that it promises everything was written.
\<close>

definition advances :: "libc \<Rightarrow> write_ans \<Rightarrow> bool" where
  "advances L a = (case a of Wrote n \<Rightarrow> 0 < n | WErr e \<Rightarrow> e \<noteq> EINTR L)"

lemma advances_simps [simp]:
  "advances L (Wrote n) = (0 < n)"
  "advances L (WErr e) = (e \<noteq> EINTR L)"
  by (simp_all add: advances_def)

locale write_loop =
  fixes L :: libc
    and run :: "write_ans list \<Rightarrow> bytes \<Rightarrow> 'r write_run"
    and delivered :: "'r ended \<Rightarrow> bool"
  assumes run_empty: "\<exists>v. run script [] = Some (v, [], script)"
    and run_waits: "bytes \<noteq> [] \<Longrightarrow> run [] bytes = None"
    and run_wrote: "bytes \<noteq> [] \<Longrightarrow> 0 < n \<Longrightarrow> n \<le> length bytes \<Longrightarrow>
      run (Wrote n # script) bytes = accepted (take n bytes) (run script (drop n bytes))"
    and run_zero: "bytes \<noteq> [] \<Longrightarrow> run (Wrote 0 # script) bytes = run script bytes
      \<or> (\<exists>v. \<not> delivered v \<and> run (Wrote 0 # script) bytes = Some (v, [], script))"
    and run_over: "bytes \<noteq> [] \<Longrightarrow> length bytes < n \<Longrightarrow>
      \<exists>v. \<not> delivered v \<and> run (Wrote n # script) bytes = Some (v, [], script)"
    and run_retry: "bytes \<noteq> [] \<Longrightarrow> run (WErr (EINTR L) # script) bytes = run script bytes"
    and run_fails: "bytes \<noteq> [] \<Longrightarrow> e \<noteq> EINTR L \<Longrightarrow>
      \<exists>v. \<not> delivered v \<and> run (WErr e # script) bytes = Some (v, [], script)"
begin

lemma run_result:
  assumes "run script bytes = Some (v, out, rest)"
  shows "prefix out bytes \<and> (delivered v \<longrightarrow> out = bytes) \<and> suffix rest script"
  using assms
proof (induction script arbitrary: bytes out)
  case Nil
  then show ?case using run_empty [of "[]"] run_waits [of bytes] by (cases "bytes = []") auto
next
  case (Cons a script)
  show ?case
  proof (cases "bytes = []")
    case True
    with Cons.prems run_empty [of "a # script"] show ?thesis by auto
  next
    case ne: False
    have keep: ?thesis if "run (a # script) bytes = run script bytes"
      using Cons.IH [of bytes out] Cons.prems that by (auto intro: suffix_ConsI)
    have stop: ?thesis if "\<exists>v. \<not> delivered v \<and> run (a # script) bytes = Some (v, [], script)"
      using Cons.prems that by (auto intro: suffix_ConsI)
    show ?thesis
    proof (cases a)
      case (WErr e)
      with ne keep stop run_retry [of bytes script] run_fails [of bytes e script] show ?thesis
        by (cases "e = EINTR L") auto
    next
      case (Wrote n)
      consider "n = 0" | "length bytes < n" | "0 < n" "n \<le> length bytes" by linarith
      then show ?thesis
      proof cases
        case 1
        with Wrote ne keep stop run_zero [of bytes script] show ?thesis by auto
      next
        case 2
        with Wrote ne stop run_over [of bytes n script] show ?thesis by auto
      next
        case 3
        with Wrote ne Cons.prems run_wrote [of bytes n script] obtain out' where
          out: "out = take n bytes @ out'" and r: "run script (drop n bytes) = Some (v, out', rest)"
          by (auto simp: accepted_def)
        from Cons.IH [OF r] show ?thesis unfolding out
          by (metis append_take_drop_id same_prefix_prefix suffix_ConsI)
      qed
    qed
  qed
qed

lemma run_returns:
  assumes "length bytes \<le> length (filter (advances L) script)"
  shows "run script bytes \<noteq> None"
  using assms
proof (induction script arbitrary: bytes)
  case Nil
  then show ?case using run_empty [of "[]"] by auto
next
  case (Cons a script)
  show ?case
  proof (cases "bytes = []")
    case True
    then show ?thesis using run_empty [of "a # script"] by auto
  next
    case ne: False
    show ?thesis
    proof (cases a)
      case (WErr e)
      with ne Cons run_retry [of bytes script] run_fails [of bytes e script] show ?thesis
        by (cases "e = EINTR L") auto
    next
      case (Wrote n)
      consider "n = 0" | "length bytes < n" | "0 < n" "n \<le> length bytes" by linarith
      then show ?thesis
      proof cases
        case 1
        with Wrote ne Cons run_zero [of bytes script] show ?thesis by auto
      next
        case 2
        with Wrote ne run_over [of bytes n script] show ?thesis by auto
      next
        case 3
        then have "length (drop n bytes) \<le> length (filter (advances L) script)"
          using Cons.prems Wrote by simp
        with Wrote 3 ne Cons.IH run_wrote [of bytes n script] show ?thesis
          by (auto simp: accepted_def)
      qed
    qed
  qed
qed

end

interpretation print_loop: write_loop L "write_fd L" "\<lambda>_. False" for L
  by unfold_locales (auto simp: neq_Nil_conv)

interpretation file_loop: write_loop L "file_write_all L" "\<lambda>v. v = Done (Ok ())" for L
  by unfold_locales (auto simp: neq_Nil_conv accepted_def option.map_id0 case_prod_beta)

interpretation socket_loop: write_loop L "socket_write_all L" "\<lambda>v. v = Done (Ok ())" for L
  by unfold_locales (auto simp: neq_Nil_conv)

section \<open>Lemmas on the read loops\<close>

lemma take_ready_got:
  "take_ready L script p = Some (p', rest) \<Longrightarrow> prefix (pipe_got p) (pipe_got p') \<and> suffix rest script"
proof (induction L script p rule: take_ready.induct)
  case (2 L chunk script p)
  then show ?case
    by (cases "chunk = []") (auto intro: suffix_ConsI dest: append_prefixD)
qed (auto intro: suffix_ConsI split: if_splits)

section \<open>Properties\<close>

text \<open>C27 (functional). A \<open>write_all\<close> (of a file or of a connection) that reports success has handed the
  kernel every byte, in order and once, whatever short writes and interruptions it met; in every
  other case, and for \<open>write_fd\<close>, what was written is a prefix.\<close>

theorem write_all_delivers:
  "(file_write_all L script bytes = Some (Done (Ok ()), out, rest) \<longrightarrow> out = bytes)
   \<and> (socket_write_all L script bytes = Some (Done (Ok ()), out, rest) \<longrightarrow> out = bytes)
   \<and> (file_write_all L script bytes = Some (fv, out, rest) \<longrightarrow> prefix out bytes)
   \<and> (socket_write_all L script bytes = Some (sv, out, rest) \<longrightarrow> prefix out bytes)
   \<and> (write_fd L script bytes = Some (pv, out, rest) \<longrightarrow> prefix out bytes)"
  using file_loop.run_result [of L script bytes _ out rest]
    socket_loop.run_result [of L script bytes _ out rest]
    print_loop.run_result [of L script bytes _ out rest]
  by auto

theorem write_all_delivers_witness:
  "file_write_all linux_libc [Wrote 1, WErr 4, Wrote 2] [7, 8, 9] = Some (Done (Ok ()), [7, 8, 9], [])
   \<and> [7, 8, 9] = ([7, 8, 9] :: bytes)"
proof -
  have run: "file_write_all linux_libc [Wrote 1, WErr 4, Wrote 2] [7, 8, 9]
      = Some (Done (Ok ()), [7, 8, 9], [])"
    by (simp add: accepted_def linux_libc_def)
  with write_all_delivers [of linux_libc "[Wrote 1, WErr 4, Wrote 2]" "[7, 8, 9]" "[7, 8, 9]" "[]"]
  show ?thesis by blast
qed

text \<open>C28 (termination). Each write loop returns once the kernel has answered as often as there are bytes
  with anything but an interruption or zero; answers of those two kinds may come in between and do not
  count, as \<open>File::write_all\<close> asks again after both and never returns if nothing else comes
  (\<open>zero_writes\<close> below).\<close>

theorem write_loops_return:
  assumes "length bytes \<le> length (filter (advances L) script)"
  shows "write_fd L script bytes \<noteq> None \<and> file_write_all L script bytes \<noteq> None
    \<and> socket_write_all L script bytes \<noteq> None"
  using print_loop.run_returns [OF assms] file_loop.run_returns [OF assms]
    socket_loop.run_returns [OF assms] by simp

theorem write_loops_return_witness:
  "file_write_all linux_libc [WErr 4, Wrote 1, WErr 4, Wrote 1] [7, 8] \<noteq> None"
  using write_loops_return [of "[7, 8]" linux_libc "[WErr 4, Wrote 1, WErr 4, Wrote 1]"]
  by (simp add: linux_libc_def)

text \<open>An answer of zero with bytes outstanding: the connection reports a broken pipe, \<open>write_fd\<close> gives
  up, and \<open>File::write_all\<close> calls again, for as long as the kernel keeps answering zero.\<close>

lemma zero_writes:
  assumes "bytes \<noteq> []"
  shows "file_write_all L (replicate n (Wrote 0)) bytes = None
    \<and> socket_write_all L (Wrote 0 # script) bytes = Some (Done (Err (EPIPE L)), [], script)
    \<and> write_fd L (Wrote 0 # script) bytes = Some (Done (), [], script)"
proof -
  have "file_write_all L (replicate n (Wrote 0)) bytes = None"
    using assms by (induction n) (auto simp: neq_Nil_conv accepted_def)
  then show ?thesis using assms by (auto simp: neq_Nil_conv)
qed

text \<open>What the kernel delivers before an end of file or an error, and which of the two it is.\<close>

datatype terminator = AtEof | Failing errno | StillOpen

fun incoming :: "libc \<Rightarrow> read_ans list \<Rightarrow> bytes \<times> terminator" where
  "incoming L [] = ([], StillOpen)"
| "incoming L (RErr e # script) = (if e = EINTR L then incoming L script else ([], Failing e))"
| "incoming L (RData d # script) =
     (if d = [] then ([], AtEof)
      else (case incoming L script of (ds, t) \<Rightarrow> (d @ ds, t)))"

lemma read_to_end_loop_incoming:
  "read_to_end_loop L start script out \<noteq> None \<longleftrightarrow> snd (incoming L script) \<noteq> StillOpen"
  "read_to_end_loop L start script out = Some (v, out', rest) \<Longrightarrow>
     out' = out @ fst (incoming L script)
     \<and> v = (case snd (incoming L script) of
              Failing e \<Rightarrow> Err (err L e (bstr ''read''))
            | _ \<Rightarrow> Ok (length out' - start))"
  by (induction L start script out rule: read_to_end_loop.induct)
     (auto split: if_splits prod.splits)

lemma take_ready_incoming:
  "take_ready L script p \<noteq> None \<longleftrightarrow> snd (incoming L script) \<noteq> StillOpen"
  "take_ready L script p = Some (p', rest) \<Longrightarrow>
     p' = p\<lparr>pipe_got := pipe_got p @ fst (incoming L script),
            pipe_done := pipe_done p \<or> (case snd (incoming L script) of
              Failing e \<Rightarrow> \<not> would_block L e | _ \<Rightarrow> True)\<rparr>"
  by (induction L script p rule: take_ready.induct)
     (auto simp: would_block_def split: if_splits prod.splits)

text \<open>\<open>read_to_end\<close> appends exactly what the kernel delivers up to the end of file and
  answers how much that was; an error other than an interruption is reported with the bytes before
  it kept; it returns as soon as either arrives.\<close>

theorem read_to_end_collects:
  "case snd (incoming L script) of
     AtEof \<Rightarrow> \<exists>rest. read_to_end L script out
        = Some (Ok (length (fst (incoming L script))), out @ fst (incoming L script), rest)
   | Failing e \<Rightarrow> \<exists>rest. read_to_end L script out
        = Some (Err (err L e (bstr ''read'')), out @ fst (incoming L script), rest)
   | StillOpen \<Rightarrow> read_to_end L script out = None"
proof (cases "read_to_end L script out")
  case None
  then show ?thesis
    using read_to_end_loop_incoming(1) [of L "length out" script out]
    by (simp add: read_to_end_def)
next
  case (Some r)
  obtain v out' rest where r: "r = (v, out', rest)" by (cases r) auto
  then show ?thesis
    using Some read_to_end_loop_incoming(1) [of L "length out" script out]
      read_to_end_loop_incoming(2) [of L "length out" script out v out' rest]
    by (auto simp: read_to_end_def split: terminator.splits)
qed

text \<open>\<open>take_ready\<close> on a child's pipe keeps all that has arrived and marks the pipe done
  at end of file and on a real error, never because nothing has arrived yet.\<close>

theorem take_ready_done:
  assumes "take_ready L script p = Some (p', rest)"
  shows "pipe_got p' = pipe_got p @ fst (incoming L script)
    \<and> (snd (incoming L script) = AtEof \<longrightarrow> pipe_done p')
    \<and> (\<forall>e. snd (incoming L script) = Failing e \<longrightarrow>
         pipe_done p' = (pipe_done p \<or> \<not> would_block L e))"
  using take_ready_incoming(2) [OF assms] by simp

theorem take_ready_done_witness:
  "let p = \<lparr>pipe_read = 5, pipe_write = -1, pipe_done = False, pipe_got = [1]\<rparr> in
   pipe_got (fst (the (take_ready linux_libc [RData [2], RErr 4, RData [3], RErr 11] p))) = [1, 2, 3]
   \<and> \<not> pipe_done (fst (the (take_ready linux_libc [RData [2], RErr 4, RData [3], RErr 11] p)))"
proof -
  let ?p = "\<lparr>pipe_read = 5, pipe_write = -1, pipe_done = False, pipe_got = [1]\<rparr> :: pipe"
  let ?s = "[RData [2], RErr 4, RData [3], RErr 11]"
  obtain p' rest where run: "take_ready linux_libc ?s ?p = Some (p', rest)"
    by (simp add: linux_libc_def)
  have "incoming linux_libc ?s = ([2, 3], Failing 11)" by (simp add: linux_libc_def)
  with take_ready_done [OF run] run show ?thesis
    by (simp add: would_block_def linux_libc_def)
qed

text \<open>\<open>write_all\<close> of a standard stream reports success also when nothing was written.\<close>

lemma std_stream_hides_errors:
  "bytes \<noteq> [] \<Longrightarrow> e \<noteq> EINTR L \<Longrightarrow> std_stream_write_all L [WErr e] bytes = Some (Done (Ok ()), [], [])"
  by (cases bytes) (simp_all add: std_stream_write_all_def)

end
