(* ===== verification/Printing.thy ===== *)
theory Printing
  imports Streams
begin

text \<open>
  \<open>emit\<close> and the macros of \<open>src/print.rs\<close>. What \<open>core::fmt\<close> makes of the arguments is the argument
  \<open>text\<close>; the macros differ in the descriptor only, whose answers are the script. A line is two calls of
  \<open>write_fd\<close>, its text and its newline, and the second is made however the first went.
\<close>

definition emit :: "libc \<Rightarrow> write_ans list \<Rightarrow> bytes \<Rightarrow> unit write_run" where
  "emit L script text = (let s = [] @ text in write_fd L script s)"

text \<open>\<open>print!\<close> and \<open>eprint!\<close>; \<open>println!\<close> and \<open>eprintln!\<close> without and with arguments.\<close>

definition print_text :: "libc \<Rightarrow> write_ans list \<Rightarrow> bytes \<Rightarrow> unit write_run" where
  "print_text L script text = emit L script text"

definition print_line :: "libc \<Rightarrow> write_ans list \<Rightarrow> bytes option \<Rightarrow> unit write_run" where
  "print_line L script text =
     (case text of
        None \<Rightarrow> write_fd L script [NEWLINE]
      | Some text \<Rightarrow>
          (case emit L script text of
             Some (Done _, out, rest) \<Rightarrow> accepted out (write_fd L rest [NEWLINE])
           | r \<Rightarrow> r))"

text \<open>What reaches the descriptor: a beginning of the text, then the newline or not.\<close>

lemma print_line_pieces:
  assumes "print_line L script (Some text) = Some (v, out, rest)"
  obtains k nl where "out = take k text @ nl" "prefix nl [NEWLINE]"
proof -
  from assms obtain w out1 rest1 where first: "write_fd L script text = Some (w, out1, rest1)"
    by (auto simp: print_line_def emit_def split: option.splits)
  have "prefix out1 text" using print_loop.run_result [OF first] by blast
  then have k: "out1 = take (length out1) text" by (auto simp: prefix_def)
  show thesis
  proof (cases w)
    case Panic
    with assms first have "out = take (length out1) text @ []" using k by (simp add: print_line_def emit_def)
    then show thesis by (rule that) simp
  next
    case (Done u)
    with assms first have "accepted out1 (write_fd L rest1 [NEWLINE]) = Some (v, out, rest)"
      by (simp add: print_line_def emit_def)
    then obtain out2 where out: "out = out1 @ out2" and
      second: "write_fd L rest1 [NEWLINE] = Some (v, out2, rest)"
      unfolding accepted_def by (cases "write_fd L rest1 [NEWLINE]") auto
    have "prefix out2 [NEWLINE]" using print_loop.run_result [OF second] by blast
    then show thesis using that [of "length out1" out2] k out by simp
  qed
qed

text \<open>A line arrives whole when the descriptor takes everything: no answer is an error other than an
  interruption, none is zero or more than was asked for.\<close>

fun takes_all :: "libc \<Rightarrow> nat \<Rightarrow> write_ans list \<Rightarrow> write_ans list option" where
  "takes_all L 0 script = Some script"
| "takes_all L n [] = None"
| "takes_all L n (Wrote k # script) = (if 0 < k \<and> k \<le> n then takes_all L (n - k) script else None)"
| "takes_all L n (WErr e # script) = (if e = EINTR L then takes_all L n script else None)"

lemma write_fd_takes_all:
  "takes_all L (length bytes) script = Some rest \<Longrightarrow> write_fd L script bytes = Some (Done (), bytes, rest)"
proof (induction L "length bytes" script arbitrary: bytes rule: takes_all.induct)
  case (1 L script)
  then show ?case by simp
next
  case (3 L n k script)
  then show ?case by (cases bytes) (auto simp: accepted_def split: if_splits)
next
  case (4 L v e script)
  then show ?case by (cases bytes) (auto split: if_splits)
next
  case (2 L v)
  then show ?case by (metis option.distinct(1) takes_all.simps(2))
qed

theorem print_line_arrives:
  assumes "takes_all L (length text) script = Some rest" "takes_all L 1 rest = Some rest'"
  shows "print_line L script (Some text) = Some (Done (), text @ [NEWLINE], rest')"
  using write_fd_takes_all [OF assms(1)] write_fd_takes_all [of L "[NEWLINE]" rest rest'] assms(2)
  by (simp add: print_line_def emit_def accepted_def)

text \<open>A descriptor that refuses the text and takes the newline is left with an empty line.\<close>

lemma refused_line: "print_line L [WErr (EINTR L + 1), Wrote 1] (Some [97]) = Some (Done (), [NEWLINE], [])"
  by (simp add: print_line_def emit_def accepted_def)

end
