(* ===== verification/Line_Readers.thy ===== *)
theory Line_Readers
  imports Streams
begin

text \<open>
  Reading lines and buffering text: \<open>Lines\<close> over a connection (\<open>src/socket.rs\<close>), \<open>Stdin\<close> and its
  iterator, and \<open>BufWriter\<close> (\<open>src/file.rs\<close>). The answers of the kernel are a list, as in the theory
  of the read loops.
\<close>

section \<open>\<open>socket::Lines\<close>\<close>

record lines =
  l_buf :: bytes
  l_filled :: nat
  l_at :: nat

definition lines_new :: lines where
  "lines_new = \<lparr>l_buf = replicate 8192 0, l_filled = 0, l_at = 0\<rparr>"

lemma socket_read_shorter: "socket_read L script = Some (r, rest) \<Longrightarrow> length rest < length script"
  by (induction L script rule: socket_read.induct) (auto split: if_splits)

text \<open>The loop of \<open>next_line\<close>, with the local \<open>line\<close>. A successful read overwrites the front of the
  buffer and leaves the rest of it.\<close>

function next_line_loop ::
  "libc \<Rightarrow> read_ans list \<Rightarrow> lines \<Rightarrow> bytes
   \<Rightarrow> ((errno + bytes option) \<times> lines \<times> read_ans list) option"
where
  "next_line_loop L script st line =
     (let ready = slice (l_buf st) (l_at st) (l_filled st) in
      case position (\<lambda>b. b = NEWLINE) ready of
        Some n \<Rightarrow>
          Some (Ok (Some (from_utf8_lossy (line @ slice (l_buf st) (l_at st) (l_at st + n)))),
                st\<lparr>l_at := l_at st + (n + 1)\<rparr>, script)
      | None \<Rightarrow>
          (let line' = line @ ready;
               st' = st\<lparr>l_at := 0, l_filled := 0\<rparr>
           in case socket_read L script of
                None \<Rightarrow> None
              | Some (Inl e, rest) \<Rightarrow> Some (Err e, st', rest)
              | Some (Inr got, rest) \<Rightarrow>
                  if got = [] then
                    Some (Ok (if line' = [] then None else Some (from_utf8_lossy line')), st', rest)
                  else
                    next_line_loop L rest
                      (st'\<lparr>l_buf := got @ drop (length got) (l_buf st'), l_filled := length got\<rparr>)
                      line'))"
  by pat_completeness auto
termination
  by (relation "measure (\<lambda>(L, script, st, line). length script)")
     (auto dest: socket_read_shorter)

declare next_line_loop.simps [simp del]

definition next_line ::
  "libc \<Rightarrow> read_ans list \<Rightarrow> lines \<Rightarrow> ((errno + bytes option) \<times> lines \<times> read_ans list) option"
where
  "next_line L script st = next_line_loop L script st []"

section \<open>\<open>file::Stdin\<close>\<close>

record stdin =
  in_buf :: bytes
  in_at :: nat
  in_eof :: bool

definition stdin_new :: stdin where
  "stdin_new = \<lparr>in_buf = [], in_at = 0, in_eof = False\<rparr>"

definition stdin_compact :: "stdin \<Rightarrow> stdin" where
  "stdin_compact st =
     (if 0 < in_at st then st\<lparr>in_buf := drop (in_at st) (in_buf st), in_at := 0\<rparr> else st)"

function read_line ::
  "libc \<Rightarrow> read_ans list \<Rightarrow> stdin \<Rightarrow> ((file_error + bytes option) \<times> stdin \<times> read_ans list) option"
where
  "read_line L script st =
     (case position (\<lambda>b. b = NEWLINE) (drop (in_at st) (in_buf st)) of
        Some nl \<Rightarrow>
          Some (Ok (Some (from_utf8_lossy (slice (in_buf st) (in_at st) (in_at st + nl)))),
                st\<lparr>in_at := in_at st + (nl + 1)\<rparr>, script)
      | None \<Rightarrow>
          if in_eof st then
            (if in_at st < length (in_buf st) then
               Some (Ok (Some (from_utf8_lossy (drop (in_at st) (in_buf st)))),
                     st\<lparr>in_at := length (in_buf st)\<rparr>, script)
             else Some (Ok None, st, script))
          else
            (let st' = stdin_compact st in
             case script of
               [] \<Rightarrow> None
             | RErr e # rest \<Rightarrow>
                 if e = EINTR L then read_line L rest st'
                 else Some (Err (err L e (bstr ''read'')), st', rest)
             | RData chunk # rest \<Rightarrow>
                 if chunk = [] then read_line L rest (st'\<lparr>in_eof := True\<rparr>)
                 else read_line L rest (st'\<lparr>in_buf := in_buf st' @ chunk\<rparr>)))"
  by pat_completeness auto
termination
  by (relation "measure (\<lambda>(L, script, st). length script)") auto

declare read_line.simps [simp del]

text \<open>The iterator's \<open>next\<close> transposes \<open>Result<Option<_>>\<close> into \<open>Option<Result<_>>\<close>.\<close>

definition transpose :: "('e + 'a option) \<Rightarrow> ('e + 'a) option" where
  "transpose r =
     (case r of Inl e \<Rightarrow> Some (Err e) | Inr None \<Rightarrow> None | Inr (Some x) \<Rightarrow> Some (Ok x))"

definition stdin_lines_next ::
  "libc \<Rightarrow> read_ans list \<Rightarrow> stdin \<Rightarrow> ((file_error + bytes) option \<times> stdin \<times> read_ans list) option"
where
  "stdin_lines_next L script st =
     map_option (\<lambda>(r, st', rest). (transpose r, st', rest)) (read_line L script st)"

section \<open>The contract of a line reader\<close>

text \<open>
  What is left to read is what the reader holds followed by what the kernel still delivers. A reader
  hands out what stands before the next newline and keeps the rest; at the end of the input it hands
  out what is left, if anything.
\<close>

definition before_newline :: "bytes \<Rightarrow> bytes" where
  "before_newline bs = takeWhile (\<lambda>b. b \<noteq> NEWLINE) bs"

definition after_newline :: "bytes \<Rightarrow> bytes" where
  "after_newline bs = drop (Suc (length (before_newline bs))) bs"

lemma newline_split:
  assumes "NEWLINE \<in> set bs"
  shows "bs = before_newline bs @ NEWLINE # after_newline bs"
    and "\<forall>b \<in> set (before_newline bs). b \<noteq> NEWLINE"
proof -
  from split_list_first [OF assms] obtain ys zs where bs: "bs = ys @ NEWLINE # zs"
    and ys: "NEWLINE \<notin> set ys" by auto
  have "before_newline bs = ys"
    using ys unfolding bs before_newline_def by (subst takeWhile_append2) auto
  with bs ys show "bs = before_newline bs @ NEWLINE # after_newline bs"
    and "\<forall>b \<in> set (before_newline bs). b \<noteq> NEWLINE"
    by (auto simp: after_newline_def)
qed

lemma newline_skip:
  assumes "NEWLINE \<notin> set xs"
  shows "before_newline (xs @ ys) = xs @ before_newline ys" "after_newline (xs @ ys) = after_newline ys"
proof -
  show b: "before_newline (xs @ ys) = xs @ before_newline ys"
    using assms unfolding before_newline_def by (subst takeWhile_append2) auto
  show "after_newline (xs @ ys) = after_newline ys" by (simp add: after_newline_def b)
qed

lemma newline_in_prefix:
  assumes "position (\<lambda>b. b = NEWLINE) xs = Some n"
  shows "before_newline (xs @ ys) = take n xs" "after_newline (xs @ ys) = drop (Suc n) xs @ ys"
    "NEWLINE \<in> set xs" "n < length xs"
proof -
  from position_split [OF assms] have xs: "xs = take n xs @ NEWLINE # drop (Suc n) xs"
    and no: "\<forall>x \<in> set (take n xs). x \<noteq> NEWLINE" by auto
  show n: "n < length xs" using assms by (simp add: position_Some)
  show "NEWLINE \<in> set xs" by (subst xs) simp
  have "before_newline (take n xs @ (NEWLINE # drop (Suc n) xs) @ ys) = take n xs"
    using no unfolding before_newline_def by (subst takeWhile_append2) auto
  then show b: "before_newline (xs @ ys) = take n xs" using xs by (metis append_assoc)
  show "after_newline (xs @ ys) = drop (Suc n) xs @ ys" using n by (simp add: after_newline_def b)
qed

locale line_reader =
  fixes L :: libc
    and read_next :: "read_ans list \<Rightarrow> 'st \<Rightarrow> (('e + bytes option) \<times> 'st \<times> read_ans list) option"
    and held :: "'st \<Rightarrow> bytes"
    and ok :: "'st \<Rightarrow> bool"
    and ended :: "'st \<Rightarrow> bool"
  assumes next_complete:
      "ok st \<Longrightarrow> \<not> ended st \<Longrightarrow> NEWLINE \<in> set (held st @ fst (incoming L script)) \<Longrightarrow>
       \<exists>st' rest. read_next script st
            = Some (Ok (Some (from_utf8_lossy (before_newline (held st @ fst (incoming L script))))), st', rest)
         \<and> ok st' \<and> \<not> ended st'
         \<and> held st' @ fst (incoming L rest) = after_newline (held st @ fst (incoming L script))
         \<and> snd (incoming L rest) = snd (incoming L script)"
    and next_final:
      "ok st \<Longrightarrow> \<not> ended st \<Longrightarrow> NEWLINE \<notin> set (held st @ fst (incoming L script)) \<Longrightarrow>
       snd (incoming L script) = AtEof \<Longrightarrow>
       \<exists>st' rest. read_next script st
            = Some (Ok (let bs = held st @ fst (incoming L script) in
                        if bs = [] then None else Some (from_utf8_lossy bs)), st', rest)
         \<and> ok st' \<and> held st' = []"
    and next_blocks:
      "ok st \<Longrightarrow> \<not> ended st \<Longrightarrow> NEWLINE \<notin> set (held st @ fst (incoming L script)) \<Longrightarrow>
       snd (incoming L script) = StillOpen \<Longrightarrow> read_next script st = None"
begin

text \<open>Reading \<open>k\<close> lines in a row.\<close>

fun take_lines :: "nat \<Rightarrow> read_ans list \<Rightarrow> 'st \<Rightarrow> (bytes list \<times> 'st \<times> read_ans list) option" where
  "take_lines 0 script st = Some ([], st, script)"
| "take_lines (Suc k) script st =
     (case read_next script st of
        Some (Inr (Some l), st', rest) \<Rightarrow>
          map_option (\<lambda>(ls, r). (l # ls, r)) (take_lines k rest st')
      | _ \<Rightarrow> None)"

lemma take_lines_split:
  assumes "ok st" "\<not> ended st"
    and "k < length (split_on (\<lambda>b. b = NEWLINE) (held st @ fst (incoming L script)))"
  shows "\<exists>st' rest. take_lines k script st
      = Some (map from_utf8_lossy
                (take k (split_on (\<lambda>b. b = NEWLINE) (held st @ fst (incoming L script)))), st', rest)
    \<and> ok st' \<and> \<not> ended st'"
  using assms
proof (induction k arbitrary: script st)
  case 0
  then show ?case by simp
next
  case (Suc k)
  define bs where "bs = held st @ fst (incoming L script)"
  have nl: "NEWLINE \<in> set bs"
  proof (rule ccontr)
    assume "NEWLINE \<notin> set bs"
    then have "split_on (\<lambda>b. b = NEWLINE) bs = [bs]" by (intro split_on_none) auto
    with Suc.prems(3) show False by (simp add: bs_def)
  qed
  have eq: "bs = before_newline bs @ NEWLINE # after_newline bs"
    and "\<forall>b \<in> set (before_newline bs). b \<noteq> NEWLINE"
    using newline_split [OF nl] by auto
  with split_on_append [of "\<lambda>b. b = NEWLINE" NEWLINE "before_newline bs" "after_newline bs"]
  have sp: "split_on (\<lambda>b. b = NEWLINE) bs
      = before_newline bs # split_on (\<lambda>b. b = NEWLINE) (after_newline bs)"
    unfolding eq [symmetric] by (simp add: split_on_none)
  from next_complete [OF Suc.prems(1,2), of script] nl obtain st' rest where
    n: "read_next script st = Some (Ok (Some (from_utf8_lossy (before_newline bs))), st', rest)"
    and st': "ok st'" "\<not> ended st'" "held st' @ fst (incoming L rest) = after_newline bs"
    by (auto simp: bs_def)
  have "k < length (split_on (\<lambda>b. b = NEWLINE) (held st' @ fst (incoming L rest)))"
    using Suc.prems(3) sp st' by (simp add: bs_def)
  from Suc.IH [OF st'(1,2) this] obtain st'' rest' where
    "take_lines k rest st' = Some (map from_utf8_lossy
        (take k (split_on (\<lambda>b. b = NEWLINE) (after_newline bs))), st'', rest')"
    "ok st''" "\<not> ended st''" unfolding st'(3) by auto
  with n show ?case by (auto simp: sp bs_def [symmetric])
qed

end


section \<open>The two readers keep the contract\<close>

lemma socket_read_incoming:
  "incoming L script =
     (case socket_read L script of
        None \<Rightarrow> ([], StillOpen)
      | Some (Inl e, _) \<Rightarrow> ([], Failing e)
      | Some (Inr got, rest) \<Rightarrow> incoming L (RData got # rest))"
  by (induction L script rule: socket_read.induct) auto

definition lines_held :: "lines \<Rightarrow> bytes" where
  "lines_held st = slice (l_buf st) (l_at st) (l_filled st)"

definition lines_ok :: "lines \<Rightarrow> bool" where
  "lines_ok st \<longleftrightarrow> l_at st \<le> l_filled st \<and> l_filled st \<le> length (l_buf st)"

text \<open>What one call of \<open>next_line\<close> does, for every answer of the kernel.\<close>

lemma next_line_loop_result:
  assumes "lines_ok st"
  shows "let bs = lines_held st @ fst (incoming L script) in
    if NEWLINE \<in> set bs then
      \<exists>st' rest. next_line_loop L script st line
           = Some (Ok (Some (from_utf8_lossy (line @ before_newline bs))), st', rest)
        \<and> lines_ok st' \<and> lines_held st' @ fst (incoming L rest) = after_newline bs
        \<and> snd (incoming L rest) = snd (incoming L script)
    else
      (case snd (incoming L script) of
         StillOpen \<Rightarrow> next_line_loop L script st line = None
       | AtEof \<Rightarrow> \<exists>st' rest. next_line_loop L script st line
           = Some (Ok (if line @ bs = [] then None else Some (from_utf8_lossy (line @ bs))), st', rest)
           \<and> lines_ok st' \<and> lines_held st' = []
       | Failing e \<Rightarrow> \<exists>st' rest. next_line_loop L script st line = Some (Err e, st', rest)
           \<and> lines_ok st' \<and> lines_held st' = [])"
  using assms
proof (induction L script st line rule: next_line_loop.induct)
  case (1 L script st line)
  define ready where "ready = slice (l_buf st) (l_at st) (l_filled st)"
  have held: "lines_held st = ready" by (simp add: lines_held_def ready_def)
  define data where "data = fst (incoming L script)"
  note unf = next_line_loop.simps [of L script st line, folded ready_def]
  have fit: "length ready = l_filled st - l_at st"
    using "1.prems" by (auto simp: ready_def lines_held_def lines_ok_def min_def)
  show ?case
  proof (cases "position (\<lambda>b. b = NEWLINE) ready")
    case (Some n)
    note nl = newline_in_prefix(1,2) [OF Some, of data]
      and inside = newline_in_prefix(3,4) [OF Some]
    have "slice (l_buf st) (l_at st) (l_at st + n) = take n ready"
      using inside(2) fit slice_take [of n "l_filled st" "l_at st" "l_buf st"]
      by (simp add: ready_def lines_held_def)
    moreover have "lines_held (st\<lparr>l_at := l_at st + (n + 1)\<rparr>) = drop (Suc n) ready"
      by (simp add: lines_held_def ready_def slice_def drop_take add.commute add.left_commute)
    moreover have "lines_ok (st\<lparr>l_at := l_at st + (n + 1)\<rparr>)"
      using "1.prems" inside(2) fit by (simp add: lines_ok_def)
    ultimately show ?thesis using Some nl inside
      by (simp add: unf held data_def [symmetric])
  next
    case None
    then have no: "NEWLINE \<notin> set ready" by auto
    define st' where "st' = st\<lparr>l_at := 0, l_filled := 0\<rparr>"
    have ok': "lines_ok st'" "lines_held st' = []"
      by (simp_all add: st'_def lines_ok_def lines_held_def)
    show ?thesis
    proof (cases "socket_read L script")
      case None': None
      then have "incoming L script = ([], StillOpen)" using socket_read_incoming [of L script] by simp
      with None None' no show ?thesis by (simp add: unf held del: position_None)
    next
      case (Some r)
      obtain v rest where r: "r = (v, rest)" by (cases r)
      show ?thesis
      proof (cases v)
        case (Inl e)
        then have "incoming L script = ([], Failing e)"
          using socket_read_incoming [of L script] Some r by simp
        with None Some r Inl no ok' show ?thesis
          by (simp add: unf held st'_def [symmetric] Let_def del: position_None)
      next
        case (Inr got)
        then have inc: "incoming L script = incoming L (RData got # rest)"
          using socket_read_incoming [of L script] Some r by simp
        show ?thesis
        proof (cases "got = []")
          case True
          with None Some r Inr no ok' inc show ?thesis
            by (simp add: unf held st'_def [symmetric] Let_def del: position_None)
        next
          case False
          define st'' where "st'' = st'\<lparr>l_buf := got @ drop (length got) (l_buf st'), l_filled := length got\<rparr>"
          have st'': "lines_ok st''" "lines_held st'' = got"
            by (simp_all add: st''_def st'_def lines_ok_def lines_held_def slice_def)
          have loop: "next_line_loop L script st line = next_line_loop L rest st'' (line @ ready)"
            using None Some r Inr False
            by (simp add: unf st'_def [symmetric] st''_def [symmetric] Let_def del: position_None)
          have data: "data = got @ fst (incoming L rest)" "snd (incoming L script) = snd (incoming L rest)"
            using inc False by (simp_all add: data_def case_prod_beta)
          have mem: "NEWLINE \<in> set (ready @ data) \<longleftrightarrow> NEWLINE \<in> set data" using no by simp
          have "lines_ok st'' \<Longrightarrow> let bs = lines_held st'' @ fst (incoming L rest) in
            if NEWLINE \<in> set bs then
              \<exists>st' rest'. next_line_loop L rest st'' (line @ ready)
                   = Some (Ok (Some (from_utf8_lossy ((line @ ready) @ before_newline bs))), st', rest')
                \<and> lines_ok st' \<and> lines_held st' @ fst (incoming L rest') = after_newline bs
                \<and> snd (incoming L rest') = snd (incoming L rest)
            else
              (case snd (incoming L rest) of
                 StillOpen \<Rightarrow> next_line_loop L rest st'' (line @ ready) = None
               | AtEof \<Rightarrow> \<exists>st' rest'. next_line_loop L rest st'' (line @ ready)
                   = Some (Ok (if (line @ ready) @ bs = [] then None
                               else Some (from_utf8_lossy ((line @ ready) @ bs))), st', rest')
                   \<and> lines_ok st' \<and> lines_held st' = []
               | Failing e \<Rightarrow> \<exists>st' rest'. next_line_loop L rest st'' (line @ ready)
                   = Some (Err e, st', rest') \<and> lines_ok st' \<and> lines_held st' = [])"
            unfolding st''_def st'_def ready_def
            by (rule "1.IH" [OF refl None [unfolded ready_def] refl refl Some r [symmetric] Inr False])
          note IH = this [OF st''(1), unfolded st''(2) data(1) [symmetric] Let_def]
          show ?thesis
            unfolding loop Let_def held data_def [symmetric] data(2) newline_skip [OF no] mem
            using IH unfolding append_assoc .
        qed
      qed
    qed
  qed
qed

definition stdin_held :: "stdin \<Rightarrow> bytes" where
  "stdin_held st = drop (in_at st) (in_buf st)"

definition stdin_ok :: "stdin \<Rightarrow> bool" where
  "stdin_ok st \<longleftrightarrow> in_at st \<le> length (in_buf st)"

text \<open>Once the end of file has been seen, \<open>Stdin\<close> asks the kernel no more.\<close>

definition stdin_incoming :: "libc \<Rightarrow> read_ans list \<Rightarrow> stdin \<Rightarrow> bytes \<times> terminator" where
  "stdin_incoming L script st = (if in_eof st then ([], AtEof) else incoming L script)"

lemma stdin_compact_held [simp]:
  "stdin_held (stdin_compact st) = stdin_held st" "in_eof (stdin_compact st) = in_eof st"
  "stdin_ok (stdin_compact st)" if "stdin_ok st"
  using that by (auto simp: stdin_held_def stdin_compact_def stdin_ok_def)

lemma read_line_result:
  assumes "stdin_ok st"
  shows "let bs = stdin_held st @ fst (stdin_incoming L script st) in
    if NEWLINE \<in> set bs then
      \<exists>st' rest. read_line L script st = Some (Ok (Some (from_utf8_lossy (before_newline bs))), st', rest)
        \<and> stdin_ok st' \<and> in_eof st' = in_eof st
        \<and> stdin_held st' @ fst (stdin_incoming L rest st') = after_newline bs
        \<and> snd (stdin_incoming L rest st') = snd (stdin_incoming L script st)
    else
      (case snd (stdin_incoming L script st) of
         StillOpen \<Rightarrow> read_line L script st = None
       | AtEof \<Rightarrow> \<exists>st' rest. read_line L script st
           = Some (Ok (if bs = [] then None else Some (from_utf8_lossy bs)), st', rest)
           \<and> stdin_ok st' \<and> in_eof st' \<and> stdin_held st' = []
       | Failing e \<Rightarrow> \<exists>st' rest. read_line L script st
           = Some (Err (err L e (bstr ''read'')), st', rest) \<and> stdin_ok st' \<and> stdin_held st' = bs)"
  using assms
proof (induction L script st rule: read_line.induct)
  case (1 L script st)
  note unf = read_line.simps [of L script st, folded stdin_held_def]
  define data where "data = fst (stdin_incoming L script st)"
  have fit: "length (stdin_held st) = length (in_buf st) - in_at st" by (simp add: stdin_held_def)
  show ?case
  proof (cases "position (\<lambda>b. b = NEWLINE) (stdin_held st)")
    case (Some n)
    note nl = newline_in_prefix(1,2) [OF Some, of data]
      and inside = newline_in_prefix(3,4) [OF Some]
    have "slice (in_buf st) (in_at st) (in_at st + n) = take n (stdin_held st)"
      by (simp add: slice_def stdin_held_def)
    moreover have "stdin_held (st\<lparr>in_at := in_at st + (n + 1)\<rparr>) = drop (Suc n) (stdin_held st)"
      by (simp add: stdin_held_def add.commute)
    moreover have "stdin_ok (st\<lparr>in_at := in_at st + (n + 1)\<rparr>)"
      using "1.prems" inside(2) fit by (simp add: stdin_ok_def)
    moreover have "stdin_incoming L script (st\<lparr>in_at := in_at st + (n + 1)\<rparr>) = stdin_incoming L script st"
      by (simp add: stdin_incoming_def)
    ultimately show ?thesis using Some nl inside by (simp add: unf data_def [symmetric])
  next
    case None
    then have no: "NEWLINE \<notin> set (stdin_held st)" by auto
    show ?thesis
    proof (cases "in_eof st")
      case True
      have more: "in_at st < length (in_buf st) \<longleftrightarrow> stdin_held st \<noteq> []" by (auto simp: stdin_held_def)
      have "read_line L script st = Some (Ok (if stdin_held st = [] then None
          else Some (from_utf8_lossy (stdin_held st))),
          if stdin_held st = [] then st else st\<lparr>in_at := length (in_buf st)\<rparr>, script)"
        using None True more by (auto simp: unf simp del: position_None)
      with True no "1.prems" show ?thesis
        by (auto simp: stdin_incoming_def stdin_ok_def stdin_held_def)
    next
      case False
      note compact = stdin_compact_held [OF "1.prems"]
      have run: "read_line L script st = (case script of
          [] \<Rightarrow> None
        | RErr e # rest \<Rightarrow>
            if e = EINTR L then read_line L rest (stdin_compact st)
            else Some (Err (err L e (bstr ''read'')), stdin_compact st, rest)
        | RData chunk # rest \<Rightarrow>
            if chunk = [] then read_line L rest ((stdin_compact st)\<lparr>in_eof := True\<rparr>)
            else read_line L rest ((stdin_compact st)\<lparr>in_buf := in_buf (stdin_compact st) @ chunk\<rparr>))"
        using None False by (simp add: unf Let_def del: position_None)
      note pos = None [unfolded stdin_held_def]
      show ?thesis
      proof (cases script)
        case Nil
        then show ?thesis using False no run by (simp add: stdin_incoming_def)
      next
        case (Cons a rest)
        show ?thesis
        proof (cases a)
          case (RErr e)
          show ?thesis
          proof (cases "e = EINTR L")
            case True
            have inc: "stdin_incoming L script st = stdin_incoming L rest (stdin_compact st)"
              using Cons RErr True False compact by (simp add: stdin_incoming_def)
            have rd: "read_line L script st = read_line L rest (stdin_compact st)"
              using run Cons RErr True by simp
            show ?thesis
              using "1.IH"(3) [OF pos False refl Cons RErr True compact(3)]
              unfolding inc rd compact .
          next
            case e: False
            with Cons RErr False no run compact show ?thesis by (simp add: stdin_incoming_def)
          qed
        next
          case (RData chunk)
          show ?thesis
          proof (cases "chunk = []")
            case True
            let ?st = "(stdin_compact st)\<lparr>in_eof := True\<rparr>"
            have st: "stdin_ok ?st" "stdin_held ?st = stdin_held st"
              using compact by (simp_all add: stdin_ok_def stdin_held_def)
            have "stdin_incoming L script st = ([], AtEof)" "stdin_incoming L rest ?st = ([], AtEof)"
              using Cons RData True False by (simp_all add: stdin_incoming_def)
            moreover have "read_line L script st = read_line L rest ?st"
              using run Cons RData True by simp
            ultimately show ?thesis
              using "1.IH"(1) [OF pos False refl Cons RData True st(1)] no st by simp
          next
            case ne: False
            let ?st = "(stdin_compact st)\<lparr>in_buf := in_buf (stdin_compact st) @ chunk\<rparr>"
            have st: "stdin_ok ?st" "stdin_held ?st = stdin_held st @ chunk"
              using compact by (simp_all add: stdin_ok_def stdin_held_def)
            have inc: "fst (stdin_incoming L script st) = chunk @ fst (stdin_incoming L rest ?st)"
              "snd (stdin_incoming L script st) = snd (stdin_incoming L rest ?st)"
              using Cons RData ne False compact by (simp_all add: stdin_incoming_def case_prod_beta)
            have rd: "read_line L script st = read_line L rest ?st"
              using run Cons RData ne by simp
            have eof: "in_eof ?st = in_eof st" using compact(2) by simp
            show ?thesis
              using "1.IH"(2) [OF pos False refl Cons RData ne st(1)]
              unfolding inc rd st(2) eof append_assoc .
          qed
        qed
      qed
    qed
  qed
qed

interpretation socket_lines: line_reader L "next_line L" lines_held lines_ok "\<lambda>_. False" for L
proof unfold_locales
  fix st script
  assume ok: "lines_ok st"
  note r = next_line_loop_result [OF ok, of L script "[]", folded next_line_def, unfolded Let_def append_Nil]
  { assume "NEWLINE \<in> set (lines_held st @ fst (incoming L script))"
    then show "\<exists>st' rest. next_line L script st
          = Some (Ok (Some (from_utf8_lossy (before_newline (lines_held st @ fst (incoming L script))))), st', rest)
        \<and> lines_ok st' \<and> \<not> False
        \<and> lines_held st' @ fst (incoming L rest) = after_newline (lines_held st @ fst (incoming L script))
        \<and> snd (incoming L rest) = snd (incoming L script)"
      using r by simp }
  { assume "NEWLINE \<notin> set (lines_held st @ fst (incoming L script))" "snd (incoming L script) = AtEof"
    then show "\<exists>st' rest. next_line L script st
          = Some (Ok (let bs = lines_held st @ fst (incoming L script) in
                      if bs = [] then None else Some (from_utf8_lossy bs)), st', rest)
        \<and> lines_ok st' \<and> lines_held st' = []"
      using r by (simp add: Let_def) }
  { assume "NEWLINE \<notin> set (lines_held st @ fst (incoming L script))" "snd (incoming L script) = StillOpen"
    then show "next_line L script st = None" using r by simp }
qed

interpretation stdin_lines: line_reader L "read_line L" stdin_held stdin_ok in_eof for L
proof unfold_locales
  fix st script
  assume ok: "stdin_ok st" and open': "\<not> in_eof st"
  note r = read_line_result [OF ok, of L script, unfolded Let_def]
  have inc: "stdin_incoming L script st = incoming L script"
    using open' by (simp add: stdin_incoming_def)
  { assume "NEWLINE \<in> set (stdin_held st @ fst (incoming L script))"
    then obtain st' rest where "read_line L script st
          = Some (Ok (Some (from_utf8_lossy (before_newline (stdin_held st @ fst (incoming L script))))), st', rest)
        \<and> stdin_ok st' \<and> in_eof st' = in_eof st
        \<and> stdin_held st' @ fst (stdin_incoming L rest st') = after_newline (stdin_held st @ fst (incoming L script))
        \<and> snd (stdin_incoming L rest st') = snd (incoming L script)"
      using r unfolding inc by auto
    then show "\<exists>st' rest. read_line L script st
          = Some (Ok (Some (from_utf8_lossy (before_newline (stdin_held st @ fst (incoming L script))))), st', rest)
        \<and> stdin_ok st' \<and> \<not> in_eof st'
        \<and> stdin_held st' @ fst (incoming L rest) = after_newline (stdin_held st @ fst (incoming L script))
        \<and> snd (incoming L rest) = snd (incoming L script)"
      using open' by (auto simp: stdin_incoming_def) }
  { assume "NEWLINE \<notin> set (stdin_held st @ fst (incoming L script))" "snd (incoming L script) = AtEof"
    then show "\<exists>st' rest. read_line L script st
          = Some (Ok (let bs = stdin_held st @ fst (incoming L script) in
                      if bs = [] then None else Some (from_utf8_lossy bs)), st', rest)
        \<and> stdin_ok st' \<and> stdin_held st' = []"
      using r unfolding inc Let_def by auto }
  { assume "NEWLINE \<notin> set (stdin_held st @ fst (incoming L script))" "snd (incoming L script) = StillOpen"
    then show "read_line L script st = None" using r unfolding inc by simp }
qed

section \<open>\<open>BufWriter\<close>\<close>

text \<open>
  The inner writer is any implementation of \<open>fmt::Write\<close>: its \<open>write_str\<close> is an argument, which maps
  its state and a text to a result and a new state. \<open>inner: Option<W>\<close> is \<open>None\<close> only after
  \<open>into_inner\<close> has taken the writer out.
\<close>

type_synonym 'w writer = "'w \<Rightarrow> bytes \<Rightarrow> (unit + unit) \<times> 'w"

record 'w buf_writer =
  bw_inner :: "'w option"
  bw_buf :: bytes

definition bw_new :: "'w \<Rightarrow> 'w buf_writer" where
  "bw_new inner = \<lparr>bw_inner = Some inner, bw_buf = []\<rparr>"

definition bw_flush :: "'w writer \<Rightarrow> 'w buf_writer \<Rightarrow> (unit + unit) \<times> 'w buf_writer" where
  "bw_flush put b =
     (if bw_buf b = [] then (Ok (), b)
      else
        (case bw_inner b of
           Some w \<Rightarrow> (let (r, w') = put w (bw_buf b) in (r, b\<lparr>bw_inner := Some w', bw_buf := []\<rparr>))
         | None \<Rightarrow> (Ok (), b\<lparr>bw_buf := []\<rparr>)))"

definition bw_write_str :: "'w writer \<Rightarrow> 'w buf_writer \<Rightarrow> bytes \<Rightarrow> (unit + unit) \<times> 'w buf_writer" where
  "bw_write_str put b s =
     (let b' = b\<lparr>bw_buf := bw_buf b @ s\<rparr> in
      if 64 * 1024 \<le> length (bw_buf b') then bw_flush put b' else (Ok (), b'))"

text \<open>\<open>into_inner\<close> flushes, takes the writer and then drops the rest, whose buffer is empty by then;
  taking it a second time panics.\<close>

definition bw_into_inner :: "'w writer \<Rightarrow> 'w buf_writer \<Rightarrow> 'w ended" where
  "bw_into_inner put b =
     (case bw_inner (snd (bw_flush put b)) of Some w \<Rightarrow> Done w | None \<Rightarrow> Panic)"

definition bw_drop :: "'w writer \<Rightarrow> 'w buf_writer \<Rightarrow> 'w buf_writer" where
  "bw_drop put b = snd (bw_flush put b)"

fun bw_writes :: "'w writer \<Rightarrow> 'w buf_writer \<Rightarrow> bytes list \<Rightarrow> 'w buf_writer" where
  "bw_writes put b [] = b"
| "bw_writes put b (s # ss) = bw_writes put (snd (bw_write_str put b s)) ss"

text \<open>The inner writer after a sequence of calls.\<close>

definition feed :: "'w writer \<Rightarrow> bytes list \<Rightarrow> 'w \<Rightarrow> 'w" where
  "feed put chunks w = fold (\<lambda>c w. snd (put w c)) chunks w"

lemma bw_flush_feed:
  assumes "bw_inner b = Some w"
  shows "\<exists>chunks. bw_inner (snd (bw_flush put b)) = Some (feed put chunks w)
    \<and> concat chunks = bw_buf b \<and> bw_buf (snd (bw_flush put b)) = [] \<and> (\<forall>c \<in> set chunks. c \<noteq> [])"
proof (cases "bw_buf b = []")
  case True
  then show ?thesis using assms by (intro exI [of _ "[]"]) (simp add: bw_flush_def feed_def)
next
  case False
  then show ?thesis using assms
    by (intro exI [of _ "[bw_buf b]"]) (simp add: bw_flush_def feed_def case_prod_beta Let_def)
qed

lemma bw_write_str_feed:
  assumes "bw_inner b = Some w"
  shows "\<exists>chunks. bw_inner (snd (bw_write_str put b s)) = Some (feed put chunks w)
    \<and> concat chunks @ bw_buf (snd (bw_write_str put b s)) = bw_buf b @ s
    \<and> (\<forall>c \<in> set chunks. 64 * 1024 \<le> length c)"
proof (cases "64 * 1024 \<le> length (bw_buf b @ s)")
  case True
  then have "bw_buf b @ s \<noteq> []" by (cases "bw_buf b @ s") auto
  with True assms show ?thesis
    by (intro exI [of _ "[bw_buf b @ s]"])
       (simp add: bw_write_str_def bw_flush_def feed_def case_prod_beta Let_def del: append_is_Nil_conv)
next
  case False
  with assms show ?thesis
    by (intro exI [of _ "[]"]) (auto simp: bw_write_str_def feed_def Let_def)
qed

lemma bw_writes_feed:
  assumes "bw_inner b = Some w"
  shows "\<exists>chunks. bw_inner (bw_writes put b ss) = Some (feed put chunks w)
    \<and> concat chunks @ bw_buf (bw_writes put b ss) = bw_buf b @ concat ss
    \<and> (\<forall>c \<in> set chunks. 64 * 1024 \<le> length c)"
  using assms
proof (induction ss arbitrary: b w)
  case Nil
  then show ?case by (intro exI [of _ "[]"]) (simp add: feed_def)
next
  case (Cons s ss)
  from bw_write_str_feed [OF Cons.prems, of put s] obtain cs where
    cs: "bw_inner (snd (bw_write_str put b s)) = Some (feed put cs w)"
    "concat cs @ bw_buf (snd (bw_write_str put b s)) = bw_buf b @ s"
    "\<forall>c \<in> set cs. 64 * 1024 \<le> length c" by blast
  from Cons.IH [OF cs(1)] obtain ds where
    ds: "bw_inner (bw_writes put b (s # ss)) = Some (feed put ds (feed put cs w))"
    "concat ds @ bw_buf (bw_writes put b (s # ss))
      = bw_buf (snd (bw_write_str put b s)) @ concat ss"
    "\<forall>c \<in> set ds. 64 * 1024 \<le> length c" by auto
  have "concat (cs @ ds) @ bw_buf (bw_writes put b (s # ss)) = bw_buf b @ concat (s # ss)"
    using cs(2) ds(2) by (metis append.assoc concat.simps(2) concat_append)
  with cs ds show ?case by (intro exI [of _ "cs @ ds"]) (auto simp: feed_def)
qed

section \<open>Properties\<close>

text \<open>C18 (refinement). However the kernel cuts the input into reads, and however often it interrupts
  them, the first lines a connection's \<open>Lines\<close> and standard input's \<open>read_line\<close> hand out are the
  newline-separated pieces of what is delivered, in order, none lost, none split.\<close>

theorem line_readers_split:
  assumes "k < length (split_on (\<lambda>b. b = NEWLINE) (fst (incoming L script)))"
  shows "(\<exists>st rest. socket_lines.take_lines L k script lines_new
        = Some (map from_utf8_lossy (take k (split_on (\<lambda>b. b = NEWLINE) (fst (incoming L script)))), st, rest))
    \<and> (\<exists>st rest. stdin_lines.take_lines L k script stdin_new
        = Some (map from_utf8_lossy (take k (split_on (\<lambda>b. b = NEWLINE) (fst (incoming L script)))), st, rest))"
proof -
  have "lines_ok lines_new" "lines_held lines_new = []"
    by (simp_all add: lines_ok_def lines_held_def lines_new_def)
  moreover have "stdin_ok stdin_new" "stdin_held stdin_new = []" "\<not> in_eof stdin_new"
    by (simp_all add: stdin_ok_def stdin_held_def stdin_new_def)
  ultimately show ?thesis
    using assms socket_lines.take_lines_split [of lines_new k L script]
      stdin_lines.take_lines_split [of stdin_new k L script] by auto
qed

theorem line_readers_split_witness:
  "\<exists>st rest. stdin_lines.take_lines linux_libc 2
      [RData [97], RErr 4, RData [98, 10, 99], RData [10, 100]] stdin_new
    = Some ([[97, 98], [99]], st, rest)"
proof -
  let ?s = "[RData [97], RErr 4, RData [98, 10, 99], RData [10, 100]]"
  have inc: "fst (incoming linux_libc ?s) = [97, 98, 10, 99, 10, 100]"
    by (simp add: linux_libc_def)
  have "map from_utf8_lossy (take 2 (split_on (\<lambda>b. b = NEWLINE) (fst (incoming linux_libc ?s))))
      = [[97, 98], [99]]"
    unfolding inc by (simp add: lossy_ascii)
  with line_readers_split [of 2 linux_libc ?s] inc show ?thesis by simp
qed

text \<open>The end of the input: a last line without a newline is handed out, \<open>None\<close> means
  that nothing was pending, a call on an input that has neither ended nor produced a newline has not
  returned, and standard input keeps what it had read when a read fails.\<close>

theorem line_readers_end:
  assumes "lines_ok st" "stdin_ok sd" "\<not> in_eof sd"
    and "NEWLINE \<notin> set (lines_held st @ fst (incoming L script))"
    and "NEWLINE \<notin> set (stdin_held sd @ fst (incoming L script))"
  shows "(snd (incoming L script) = AtEof \<longrightarrow>
        map_option fst (next_line L script st)
          = Some (Ok (if lines_held st @ fst (incoming L script) = [] then None
                      else Some (from_utf8_lossy (lines_held st @ fst (incoming L script)))))
      \<and> map_option fst (read_line L script sd)
          = Some (Ok (if stdin_held sd @ fst (incoming L script) = [] then None
                      else Some (from_utf8_lossy (stdin_held sd @ fst (incoming L script))))))
    \<and> (snd (incoming L script) = StillOpen \<longrightarrow>
        next_line L script st = None \<and> read_line L script sd = None)
    \<and> (\<forall>e. snd (incoming L script) = Failing e \<longrightarrow>
        (\<exists>sd' rest. read_line L script sd = Some (Err (err L e (bstr ''read'')), sd', rest)
           \<and> stdin_held sd' = stdin_held sd @ fst (incoming L script)))"
proof -
  have inc: "stdin_incoming L script sd = incoming L script"
    using assms(3) by (simp add: stdin_incoming_def)
  note sd = read_line_result [OF assms(2), of L script, unfolded inc Let_def]
  have "snd (incoming L script) = AtEof \<Longrightarrow> ?thesis"
    using socket_lines.next_final [OF assms(1) _ assms(4)]
      stdin_lines.next_final [OF assms(2,3,5)] by (auto simp: Let_def)
  moreover have "snd (incoming L script) = StillOpen \<Longrightarrow> ?thesis"
    using socket_lines.next_blocks [OF assms(1) _ assms(4)]
      stdin_lines.next_blocks [OF assms(2,3,5)] by simp
  moreover have "snd (incoming L script) = Failing e \<Longrightarrow> ?thesis" for e
    using sd assms(5) by auto
  ultimately show ?thesis by (cases "snd (incoming L script)") blast+
qed

theorem line_readers_end_witness:
  "map_option fst (next_line linux_libc [RData [97, 98], RData []] lines_new) = Some (Ok (Some [97, 98]))"
proof -
  have "lines_ok lines_new" "lines_held lines_new = []"
    by (simp_all add: lines_ok_def lines_held_def lines_new_def)
  moreover have "stdin_ok stdin_new" "stdin_held stdin_new = []" "\<not> in_eof stdin_new"
    by (simp_all add: stdin_ok_def stdin_held_def stdin_new_def)
  ultimately show ?thesis
    using line_readers_end [of lines_new stdin_new linux_libc "[RData [97, 98], RData []]"]
    by (simp add: lossy_ascii)
qed

text \<open>Whatever the inner writer does with each call, a \<open>BufWriter\<close> gives it exactly
  the text written to it, in order and once, in calls of at least 64 KiB until the final flush
  (\<open>into_inner\<close> or the drop), which leaves nothing behind.\<close>

theorem buf_writer_passes_text_on:
  "\<exists>chunks tail.
     concat chunks @ concat tail = concat texts
     \<and> list_all (\<lambda>c. 64 * 1024 \<le> length c) chunks \<and> [] \<notin> set tail
     \<and> bw_inner (bw_writes put (bw_new w) texts) = Some (feed put chunks w)
     \<and> bw_into_inner put (bw_writes put (bw_new w) texts) = Done (feed put (chunks @ tail) w)
     \<and> bw_buf (bw_drop put (bw_writes put (bw_new w) texts)) = []"
proof -
  let ?b = "bw_writes put (bw_new w) texts"
  from bw_writes_feed [of "bw_new w" w put texts] obtain chunks where
    c: "bw_inner ?b = Some (feed put chunks w)" "concat chunks @ bw_buf ?b = concat texts"
    "\<forall>c \<in> set chunks. 64 * 1024 \<le> length c" by (auto simp: bw_new_def)
  from bw_flush_feed [OF c(1), of put] obtain tail where
    t: "bw_inner (snd (bw_flush put ?b)) = Some (feed put tail (feed put chunks w))"
    "concat tail = bw_buf ?b" "bw_buf (snd (bw_flush put ?b)) = []" "\<forall>c \<in> set tail. c \<noteq> []" by blast
  have "feed put (chunks @ tail) w = feed put tail (feed put chunks w)" by (simp add: feed_def)
  with c t show ?thesis
    by (intro exI [of _ chunks] exI [of _ tail]) (auto simp: bw_into_inner_def bw_drop_def list_all_iff)
qed

text \<open>The two readers part where a read fails in the middle of a line. On a connection, an error
  (a non-blocking read with nothing there, say) discards what the call had already taken off the
  buffer; standard input keeps it.\<close>

lemma next_line_error_loses_data:
  "let script = [RData [97, 98], RErr (EAGAIN linux_libc), RData [99, 10]];
       r1 = next_line linux_libc script lines_new;
       r2 = next_line linux_libc (snd (snd (the r1))) (fst (snd (the r1)));
       q1 = read_line linux_libc script stdin_new;
       q2 = read_line linux_libc (snd (snd (the q1))) (fst (snd (the q1)))
   in map_option fst r1 = Some (Err (EAGAIN linux_libc)) \<and> map_option fst r2 = Some (Ok (Some [99]))
      \<and> map_option fst q2 = Some (Ok (Some [97, 98, 99]))"
  by code_simp

end
