(* ===== verification/Locks.thy ===== *)
theory Locks
  imports Prelude
begin

text \<open>
  \<open>Mutex\<close>, \<open>Guard\<close> and \<open>Condvar\<close> of \<open>src/thread.rs\<close>. The crate's own state is the counter
  \<open>waiters\<close>; the lock and the sleepers belong to pthreads and take the steps POSIX documents: a
  mutex has at most one owner, \<open>pthread_cond_wait\<close> releases it and sleeps in one step and takes it
  again before it returns, a signal wakes one sleeper if there is one, a broadcast all of them, and a
  sleeper may wake spuriously. One mutex and the condition variable used with it are modelled, with
  any number of threads; a step is one thread moving, at the granularity of the calls the code makes.
\<close>

section \<open>State\<close>

type_synonym tid = nat

text \<open>
  Where a thread is: outside; holding a \<open>Guard\<close>; in \<open>Condvar::wait\<close> after \<open>fetch_add\<close> (the guard has
  been forgotten, the mutex is still held); asleep in \<open>pthread_cond_wait\<close>; woken there and waiting for
  the mutex; returned from it with the mutex, before \<open>fetch_sub\<close>.
\<close>

datatype place = Outside | Holding | Counted | Asleep | Woken | Returned

record condvar =
  owner :: "tid option"
  waiters :: nat
  place_of :: "tid \<Rightarrow> place"

definition condvar_new :: condvar where
  "condvar_new = \<lparr>owner = None, waiters = 0, place_of = (\<lambda>_. Outside)\<rparr>"

definition move :: "condvar \<Rightarrow> tid \<Rightarrow> place \<Rightarrow> condvar" where
  "move s t p = s\<lparr>place_of := (place_of s)(t := p)\<rparr>"

section \<open>Operations\<close>

text \<open>\<open>try_lock\<close>: the lock when it is free, nothing otherwise. \<open>lock\<close> is the same step once the lock
  is free; until then the thread has not moved.\<close>

definition try_lock :: "condvar \<Rightarrow> tid \<Rightarrow> bool \<times> condvar" where
  "try_lock s t =
     (if owner s = None then (True, (move s t Holding)\<lparr>owner := Some t\<rparr>) else (False, s))"

text \<open>\<open>Drop for Guard\<close>.\<close>

definition unlock :: "condvar \<Rightarrow> tid \<Rightarrow> condvar" where
  "unlock s t = (move s t Outside)\<lparr>owner := None\<rparr>"

text \<open>\<open>Condvar::wait\<close>, in its three parts: count, sleep (in the kernel, releasing the mutex), and, once
  woken and in possession of the mutex again, count down and hand the guard back.\<close>

definition wait_count :: "condvar \<Rightarrow> tid \<Rightarrow> condvar" where
  "wait_count s t = (move s t Counted)\<lparr>waiters := waiters s + 1\<rparr>"

definition wait_sleep :: "condvar \<Rightarrow> tid \<Rightarrow> condvar" where
  "wait_sleep s t = (move s t Asleep)\<lparr>owner := None\<rparr>"

definition wait_reacquire :: "condvar \<Rightarrow> tid \<Rightarrow> condvar" where
  "wait_reacquire s t = (move s t Returned)\<lparr>owner := Some t\<rparr>"

definition wait_return :: "condvar \<Rightarrow> tid \<Rightarrow> condvar" where
  "wait_return s t = (move s t Holding)\<lparr>waiters := waiters s - 1\<rparr>"

text \<open>\<open>notify_one\<close> and \<open>notify_all\<close>: the answer, and the state after the signal; which sleeper a signal
  wakes is the kernel's choice, here the argument \<open>w\<close> (\<open>None\<close> when nobody sleeps).\<close>

definition notify_one :: "condvar \<Rightarrow> tid option \<Rightarrow> bool \<times> condvar" where
  "notify_one s w =
     (0 < waiters s, case w of Some t \<Rightarrow> move s t Woken | None \<Rightarrow> s)"

definition wake_all :: "condvar \<Rightarrow> condvar" where
  "wake_all s = s\<lparr>place_of := (\<lambda>t. if place_of s t = Asleep then Woken else place_of s t)\<rparr>"

definition notify_all :: "condvar \<Rightarrow> nat \<times> condvar" where
  "notify_all s = (waiters s, wake_all s)"

text \<open>What POSIX says of the sleeper a signal wakes.\<close>

definition signal_choice :: "condvar \<Rightarrow> tid option \<Rightarrow> bool" where
  "signal_choice s w =
     (case w of Some t \<Rightarrow> place_of s t = Asleep | None \<Rightarrow> \<forall>t. place_of s t \<noteq> Asleep)"

inductive condvar_step :: "condvar \<Rightarrow> condvar \<Rightarrow> bool" where
  lock: "place_of s t = Outside \<Longrightarrow> try_lock s t = (True, s') \<Longrightarrow> condvar_step s s'"
| unlock: "place_of s t = Holding \<Longrightarrow> condvar_step s (unlock s t)"
| count: "place_of s t = Holding \<Longrightarrow> condvar_step s (wait_count s t)"
| sleep: "place_of s t = Counted \<Longrightarrow> condvar_step s (wait_sleep s t)"
| spurious: "place_of s t = Asleep \<Longrightarrow> condvar_step s (move s t Woken)"
| reacquire: "place_of s t = Woken \<Longrightarrow> owner s = None \<Longrightarrow> condvar_step s (wait_reacquire s t)"
| ret: "place_of s t = Returned \<Longrightarrow> condvar_step s (wait_return s t)"
| signal: "signal_choice s w \<Longrightarrow> condvar_step s (snd (notify_one s w))"
| broadcast: "condvar_step s (snd (notify_all s))"

section \<open>The invariant\<close>

definition holds_mutex :: "place \<Rightarrow> bool" where
  "holds_mutex p = (p = Holding \<or> p = Counted \<or> p = Returned)"

definition inside_wait :: "place \<Rightarrow> bool" where
  "inside_wait p = (p = Counted \<or> p = Asleep \<or> p = Woken \<or> p = Returned)"

definition waiting_threads :: "condvar \<Rightarrow> tid set" where
  "waiting_threads s = {t. inside_wait (place_of s t)}"

definition condvar_inv :: "condvar \<Rightarrow> bool" where
  "condvar_inv s \<longleftrightarrow>
     (\<forall>t. holds_mutex (place_of s t) \<longleftrightarrow> owner s = Some t)
     \<and> finite (waiting_threads s) \<and> waiters s = card (waiting_threads s)"

lemma place_move [simp]: "place_of (move s t p) = (place_of s)(t := p)"
  and owner_move [simp]: "owner (move s t p) = owner s"
  and waiters_move [simp]: "waiters (move s t p) = waiters s"
  by (simp_all add: move_def)

lemma waiting_move:
  "waiting_threads (move s t p) =
     (if inside_wait p then insert t (waiting_threads s) else waiting_threads s - {t})"
  by (auto simp: waiting_threads_def)

lemma waiting_update [simp]:
  "waiting_threads (s\<lparr>owner := x\<rparr>) = waiting_threads s"
  "waiting_threads (s\<lparr>waiters := n\<rparr>) = waiting_threads s"
  by (simp_all add: waiting_threads_def)

lemma waiting_mem: "t \<in> waiting_threads s \<longleftrightarrow> inside_wait (place_of s t)"
  by (simp add: waiting_threads_def)

lemma waiting_wake_all [simp]: "waiting_threads (wake_all s) = waiting_threads s"
  by (auto simp: waiting_threads_def wake_all_def inside_wait_def)

lemma owner_place: "condvar_inv s \<Longrightarrow> owner s = Some t \<longleftrightarrow> holds_mutex (place_of s t)"
  by (auto simp: condvar_inv_def)

lemma holds_simps [simp]:
  "holds_mutex Holding" "holds_mutex Counted" "holds_mutex Returned"
  "\<not> holds_mutex Outside" "\<not> holds_mutex Asleep" "\<not> holds_mutex Woken"
  by (simp_all add: holds_mutex_def)

lemma inside_simps [simp]:
  "inside_wait Counted" "inside_wait Asleep" "inside_wait Woken" "inside_wait Returned"
  "\<not> inside_wait Outside" "\<not> inside_wait Holding"
  by (simp_all add: inside_wait_def)

text \<open>A thread that moves and leaves the mutex as it is, or takes it, or gives it back, with the counter
  following it in and out of \<open>wait\<close>: every step of one thread is an instance.\<close>

lemma condvar_inv_move:
  assumes "condvar_inv s"
    and "owner s' = (if holds_mutex p then Some t else if owner s = Some t then None else owner s)"
    and "owner s = None \<or> owner s = Some t \<or> \<not> holds_mutex p"
    and "waiters s' = card (waiting_threads (move s t p))"
    and "place_of s' = (place_of s)(t := p)"
  shows "condvar_inv s'"
proof -
  have w: "waiting_threads s' = waiting_threads (move s t p)"
    using assms(5) by (simp add: waiting_threads_def)
  have "finite (waiting_threads (move s t p))"
    using assms(1) by (simp add: condvar_inv_def waiting_move)
  moreover have "holds_mutex (place_of s' u) \<longleftrightarrow> owner s' = Some u" for u
    using assms(2,3,5) owner_place [OF assms(1), of u] by (auto split: if_splits)
  ultimately show ?thesis using w assms(4) by (simp add: condvar_inv_def)
qed

lemma waiting_card:
  assumes "condvar_inv s"
  shows "card (waiting_threads (move s t p)) =
    (if inside_wait p then (if inside_wait (place_of s t) then waiters s else waiters s + 1)
     else (if inside_wait (place_of s t) then waiters s - 1 else waiters s))"
  using assms by (simp add: condvar_inv_def waiting_move waiting_mem insert_absorb card_insert_if)

lemmas condvar_defs = try_lock_def unlock_def wait_count_def wait_sleep_def wait_reacquire_def
  wait_return_def

lemma condvar_inv_wake:
  assumes "condvar_inv s" "place_of s t = Asleep"
  shows "condvar_inv (move s t Woken)"
  using assms owner_place [OF assms(1), of t]
  by (intro condvar_inv_move [OF assms(1), of _ Woken t]) (auto simp: waiting_card)

lemma condvar_inv_step:
  assumes "condvar_inv s" "condvar_step s s'"
  shows "condvar_inv s'"
  using assms(2)
proof (cases rule: condvar_step.cases)
  case (lock t)
  then show ?thesis using owner_place [OF assms(1), of t]
    by (intro condvar_inv_move [OF assms(1), of _ Holding t])
      (auto simp: condvar_defs waiting_card [OF assms(1)] split: if_splits)
next
  case (unlock t)
  then show ?thesis using owner_place [OF assms(1), of t]
    by (intro condvar_inv_move [OF assms(1), of _ Outside t])
      (auto simp: condvar_defs waiting_card [OF assms(1)])
next
  case (count t)
  then show ?thesis using owner_place [OF assms(1), of t]
    by (intro condvar_inv_move [OF assms(1), of _ Counted t])
      (auto simp: condvar_defs waiting_card [OF assms(1)])
next
  case (sleep t)
  then show ?thesis using owner_place [OF assms(1), of t]
    by (intro condvar_inv_move [OF assms(1), of _ Asleep t])
      (auto simp: condvar_defs waiting_card [OF assms(1)])
next
  case (spurious t)
  then show ?thesis using condvar_inv_wake [OF assms(1)] by simp
next
  case (reacquire t)
  then show ?thesis using owner_place [OF assms(1), of t]
    by (intro condvar_inv_move [OF assms(1), of _ Returned t])
      (auto simp: condvar_defs waiting_card [OF assms(1)])
next
  case (ret t)
  then show ?thesis using owner_place [OF assms(1), of t]
    by (intro condvar_inv_move [OF assms(1), of _ Holding t])
      (auto simp: condvar_defs waiting_card [OF assms(1)])
next
  case (signal w)
  then show ?thesis using assms(1) condvar_inv_wake [OF assms(1)]
    by (auto simp: notify_one_def signal_choice_def split: option.splits)
next
  case broadcast
  have "holds_mutex (place_of (wake_all s) t) = holds_mutex (place_of s t)" for t
    by (simp add: wake_all_def)
  with broadcast show ?thesis using assms(1)
    by (simp add: notify_all_def condvar_inv_def) (simp add: wake_all_def)
qed

interpretation condvar_system: transition_system "\<lambda>s. s = condvar_new" condvar_step condvar_inv
proof unfold_locales
  fix s :: condvar
  assume "s = condvar_new"
  then show "condvar_inv s"
    by (simp add: condvar_inv_def condvar_new_def waiting_threads_def inside_wait_def holds_mutex_def)
qed (rule condvar_inv_step)

lemma waiters_under_guard:
  assumes "condvar_inv s" "place_of s t = Holding"
  shows "waiters s = card {u. place_of s u = Asleep \<or> place_of s u = Woken}"
proof -
  have "owner s = Some t" using assms by (auto simp: condvar_inv_def holds_mutex_def)
  then have "\<not> holds_mutex (place_of s u)" if "u \<noteq> t" for u
    using assms that by (auto simp: condvar_inv_def)
  then have "inside_wait (place_of s u) \<longleftrightarrow> place_of s u = Asleep \<or> place_of s u = Woken" for u
    using assms(2) by (cases "u = t") (auto simp: inside_wait_def holds_mutex_def)
  then show ?thesis using assms by (simp add: condvar_inv_def waiting_threads_def)
qed

section \<open>Properties\<close>

text \<open>In every state the threads can reach, at most one of them is inside the mutex, as the
  holder of a guard or in the parts of \<open>Condvar::wait\<close> that run with it held: giving the guard to
  \<open>wait\<close> and getting it back never unlocks twice and never leaves two guards.\<close>

theorem guards_exclude_each_other:
  assumes "reach (\<lambda>s. s = condvar_new) condvar_step s"
    and "holds_mutex (place_of s t)" and "holds_mutex (place_of s u)"
  shows "t = u \<and> owner s = Some t"
  using condvar_system.reachable_inv [OF assms(1)] assms(2,3) by (auto simp: condvar_inv_def)

lemma reach_one_guard: "reach (\<lambda>s. s = condvar_new) condvar_step (snd (try_lock condvar_new t))"
proof -
  have "condvar_step condvar_new (snd (try_lock condvar_new t))"
    by (rule condvar_step.lock [of _ t]) (auto simp: condvar_new_def try_lock_def)
  then show ?thesis by (blast intro: reach.intros)
qed

theorem guards_exclude_each_other_witness:
  "let s = snd (try_lock condvar_new 3) in holds_mutex (place_of s 3) \<and> owner s = Some 3"
proof -
  have "holds_mutex (place_of (snd (try_lock condvar_new 3)) 3)"
    by (simp add: try_lock_def condvar_new_def holds_mutex_def)
  with guards_exclude_each_other [OF reach_one_guard this this] show ?thesis by simp
qed

text \<open>C26 (invariant). For a notifier that holds the mutex, \<open>waiters\<close> is exactly the number of threads
  that have gone to sleep on the condition variable and not yet got the mutex back: \<open>notify_one\<close>
  answers \<open>false\<close> only when nobody sleeps, and \<open>notify_all\<close> never answers less than it wakes.\<close>

theorem notify_under_guard:
  assumes "reach (\<lambda>s. s = condvar_new) condvar_step s" and "place_of s t = Holding"
  shows "waiters s = card {u. place_of s u = Asleep \<or> place_of s u = Woken}
    \<and> (fst (notify_one s w) = False \<longrightarrow> (\<forall>u. place_of s u \<noteq> Asleep))
    \<and> card {u. place_of s u = Asleep} \<le> fst (notify_all s)"
proof -
  have inv: "condvar_inv s" by (rule condvar_system.reachable_inv [OF assms(1)])
  note w = waiters_under_guard [OF inv assms(2)]
  have sub: "{u. place_of s u = Asleep \<or> place_of s u = Woken} \<subseteq> waiting_threads s"
    by (auto simp: waiting_threads_def inside_wait_def)
  then have fin: "finite {u. place_of s u = Asleep \<or> place_of s u = Woken}"
    using inv by (auto simp: condvar_inv_def dest: finite_subset)
  have "card {u. place_of s u = Asleep} \<le> card {u. place_of s u = Asleep \<or> place_of s u = Woken}"
    using fin by (rule card_mono) auto
  with w fin show ?thesis by (auto simp: notify_one_def notify_all_def)
qed

theorem notify_under_guard_witness:
  "fst (notify_one (snd (try_lock condvar_new 0)) None) = False
   \<and> (\<forall>u. place_of (snd (try_lock condvar_new 0)) u \<noteq> Asleep)"
proof -
  have a: "place_of (snd (try_lock condvar_new 0)) 0 = Holding"
    and b: "fst (notify_one (snd (try_lock condvar_new 0)) None) = False"
    by (simp_all add: try_lock_def condvar_new_def notify_one_def)
  from notify_under_guard [OF reach_one_guard a, of None] b show ?thesis by blast
qed

text \<open>
  The answer \<open>true\<close> is not exact even under the mutex, contrary to the comment on \<open>notify_one\<close>: a woken
  thread stays counted until it has the mutex back, which it cannot have while the notifier holds
  it, so a second \<open>notify_one\<close> under the same guard says there was somebody to wake when there was
  nobody.
\<close>

lemma second_notify_claims_a_waiter:
  "\<exists>s. reach (\<lambda>s. s = condvar_new) condvar_step s \<and> place_of s 1 = Holding
     \<and> fst (notify_one s None) \<and> (\<forall>t. place_of s t \<noteq> Asleep)"
proof -
  define s1 where "s1 = snd (try_lock condvar_new 0)"
  define s3 where "s3 = wait_sleep (wait_count s1 0) 0"
  define s4 where "s4 = snd (try_lock s3 1)"
  define s5 where "s5 = snd (notify_one s4 (Some 0))"
  note defs = s1_def s3_def s4_def s5_def try_lock_def condvar_new_def wait_count_def wait_sleep_def
    notify_one_def signal_choice_def
  have r1: "reach (\<lambda>s. s = condvar_new) condvar_step s1" unfolding s1_def by (rule reach_one_guard)
  have "condvar_step s1 (wait_count s1 0)" by (rule condvar_step.count) (simp add: defs)
  moreover have "condvar_step (wait_count s1 0) s3"
    unfolding s3_def by (rule condvar_step.sleep) (simp add: defs)
  moreover have "condvar_step s3 s4" by (rule condvar_step.lock [of _ 1]) (simp_all add: defs)
  moreover have "condvar_step s4 s5" unfolding s5_def by (rule condvar_step.signal) (simp add: defs)
  ultimately have "reach (\<lambda>s. s = condvar_new) condvar_step s5"
    using r1 by (meson reach.reach_step)
  moreover have "place_of s5 1 = Holding" "fst (notify_one s5 None)" "\<forall>t. place_of s5 t \<noteq> Asleep"
    by (simp_all add: defs)
  ultimately show ?thesis by blast
qed

end
