(* ===== verification/Channels.thy ===== *)
theory Channels
  imports Prelude
begin

text \<open>
  The bounded channel of \<open>src/channel.rs\<close>. The state under the mutex and the critical sections of
  each operation are functions, one per operation of the file; the channel in use is a step relation
  of any number of threads with a call of \<open>send\<close> under way, the handles they call it on, and the one
  receiver. A critical section is one step (the mutex is held throughout it); a notification, which
  the code makes after releasing the mutex, is another, so anything may happen in between.
\<close>

section \<open>The shared state and the operations on it\<close>

record 'a chan =
  ch_queue :: "'a list"
  ch_senders :: nat
  ch_receiver :: bool

definition sync_channel :: "'a chan" where
  "sync_channel = \<lparr>ch_queue = [], ch_senders = 1, ch_receiver = True\<rparr>"

text \<open>One turn of the loop of \<open>send\<close>: refused with the value handed back, queued, or no room.\<close>

datatype 'a sending = Refused 'a | Queued | Full

definition send_turn :: "nat \<Rightarrow> 'a chan \<Rightarrow> 'a \<Rightarrow> 'a sending \<times> 'a chan" where
  "send_turn cap st v =
     (if \<not> ch_receiver st then (Refused v, st)
      else if length (ch_queue st) < cap then (Queued, st\<lparr>ch_queue := ch_queue st @ [v]\<rparr>)
      else (Full, st))"

text \<open>One turn of the loop of \<open>recv\<close>.\<close>

datatype 'a taking = Took 'a | Disconnected | NothingYet

definition recv_turn :: "'a chan \<Rightarrow> 'a taking \<times> 'a chan" where
  "recv_turn st =
     (case ch_queue st of
        v # vs \<Rightarrow> (Took v, st\<lparr>ch_queue := vs\<rparr>)
      | [] \<Rightarrow> (if ch_senders st = 0 then Disconnected else NothingYet, st))"

definition try_recv :: "'a chan \<Rightarrow> 'a option \<times> 'a chan" where
  "try_recv st =
     (case ch_queue st of v # vs \<Rightarrow> (Some v, st\<lparr>ch_queue := vs\<rparr>) | [] \<Rightarrow> (None, st))"

definition clone_sender :: "'a chan \<Rightarrow> 'a chan" where
  "clone_sender st = st\<lparr>ch_senders := ch_senders st + 1\<rparr>"

text \<open>\<open>Drop for SyncSender\<close>: whether this was the last one.\<close>

definition drop_sender :: "'a chan \<Rightarrow> bool \<times> 'a chan" where
  "drop_sender st =
     (let senders = ch_senders st - 1 in (senders = 0, st\<lparr>ch_senders := senders\<rparr>))"

definition drop_receiver :: "'a chan \<Rightarrow> 'a chan" where
  "drop_receiver st = st\<lparr>ch_receiver := False\<rparr>"

section \<open>The channel in use\<close>

text \<open>
  Where a call of \<open>send\<close> is: at the top of its loop (about to take the mutex, or woken), asleep on
  \<open>on_recv\<close>, or past the queueing and about to notify. Handles are numbered; a \<open>SyncSender\<close> may be
  shared, so several calls may be under way on one. The receiver is not \<open>Sync\<close>: one call at a time.
\<close>

datatype 'a call = Idle | Trying nat 'a | Sleeping nat 'a | Notifying nat

datatype receiving = RIdle | RTrying | RSleeping | RNotifying | RDropping | RGone

record 'a system =
  shared :: "'a chan"
  calls :: "nat \<Rightarrow> 'a call"
  handles :: "nat set"
  last_gone :: bool
  receiving :: receiving
  sent :: "'a list"
  received :: "'a list"

definition start :: "'a system" where
  "start = \<lparr>shared = sync_channel, calls = (\<lambda>_. Idle), handles = {0}, last_gone = False,
     receiving = RIdle, sent = [], received = []\<rparr>"

fun on_handle :: "nat \<Rightarrow> 'a call \<Rightarrow> bool" where
  "on_handle h Idle = False"
| "on_handle h (Trying h' v) = (h' = h)"
| "on_handle h (Sleeping h' v) = (h' = h)"
| "on_handle h (Notifying h') = (h' = h)"

fun is_trying :: "'a call \<Rightarrow> bool" where
  "is_trying (Trying h v) = True"
| "is_trying _ = False"

fun is_sleeping :: "'a call \<Rightarrow> bool" where
  "is_sleeping (Sleeping h v) = True"
| "is_sleeping _ = False"

fun is_notifying :: "'a call \<Rightarrow> bool" where
  "is_notifying (Notifying h) = True"
| "is_notifying _ = False"

fun woken :: "'a call \<Rightarrow> 'a call" where
  "woken (Sleeping h v) = Trying h v"
| "woken c = c"

definition set_call :: "'a system \<Rightarrow> nat \<Rightarrow> 'a call \<Rightarrow> 'a system" where
  "set_call s t c = s\<lparr>calls := (calls s)(t := c)\<rparr>"

text \<open>The waker's effects: \<open>on_send\<close> has one possible sleeper, the receiver; \<open>on_recv\<close> has senders, of
  which \<open>notify_one\<close> wakes one of the kernel's choosing and \<open>notify_all\<close> every one.\<close>

definition wake_receiver :: "'a system \<Rightarrow> 'a system" where
  "wake_receiver s = (if receiving s = RSleeping then s\<lparr>receiving := RTrying\<rparr> else s)"

definition wake_sender :: "'a system \<Rightarrow> nat option \<Rightarrow> 'a system" where
  "wake_sender s w = (case w of None \<Rightarrow> s | Some t \<Rightarrow> set_call s t (woken (calls s t)))"

definition wake_senders :: "'a system \<Rightarrow> 'a system" where
  "wake_senders s = s\<lparr>calls := (\<lambda>t. woken (calls s t))\<rparr>"

definition chosen :: "'a system \<Rightarrow> nat option \<Rightarrow> bool" where
  "chosen s w = (case w of None \<Rightarrow> \<forall>t. \<not> is_sleeping (calls s t) | Some t \<Rightarrow> is_sleeping (calls s t))"

inductive chan_step :: "nat \<Rightarrow> 'a system \<Rightarrow> 'a system \<Rightarrow> bool" for cap :: nat where
  call_send: "calls s t = Idle \<Longrightarrow> h \<in> handles s \<Longrightarrow> chan_step cap s (set_call s t (Trying h v))"
| refused: "calls s t = Trying h v \<Longrightarrow> send_turn cap (shared s) v = (Refused v', st) \<Longrightarrow>
    chan_step cap s (set_call s t Idle)"
| queued: "calls s t = Trying h v \<Longrightarrow> send_turn cap (shared s) v = (Queued, st) \<Longrightarrow>
    chan_step cap s ((set_call s t (Notifying h))\<lparr>shared := st, sent := sent s @ [v]\<rparr>)"
| full: "calls s t = Trying h v \<Longrightarrow> send_turn cap (shared s) v = (Full, st) \<Longrightarrow>
    chan_step cap s (set_call s t (Sleeping h v))"
| spurious_send: "is_sleeping (calls s t) \<Longrightarrow> chan_step cap s (set_call s t (woken (calls s t)))"
| notify_send: "calls s t = Notifying h \<Longrightarrow> chan_step cap s (wake_receiver (set_call s t Idle))"
| clone_handle: "h \<in> handles s \<Longrightarrow> h' \<notin> handles s \<Longrightarrow>
    chan_step cap s (s\<lparr>shared := clone_sender (shared s), handles := insert h' (handles s)\<rparr>)"
| drop_handle: "h \<in> handles s \<Longrightarrow> \<forall>t. \<not> on_handle h (calls s t) \<Longrightarrow>
    drop_sender (shared s) = (gone, st) \<Longrightarrow>
    chan_step cap s (s\<lparr>shared := st, handles := handles s - {h}, last_gone := gone\<rparr>)"
| notify_gone: "last_gone s \<Longrightarrow> chan_step cap s (wake_receiver (s\<lparr>last_gone := False\<rparr>))"
| call_recv: "receiving s = RIdle \<Longrightarrow> chan_step cap s (s\<lparr>receiving := RTrying\<rparr>)"
| took: "receiving s = RTrying \<Longrightarrow> recv_turn (shared s) = (Took v, st) \<Longrightarrow>
    chan_step cap s (s\<lparr>shared := st, receiving := RNotifying, received := received s @ [v]\<rparr>)"
| disconnected: "receiving s = RTrying \<Longrightarrow> recv_turn (shared s) = (Disconnected, st) \<Longrightarrow>
    chan_step cap s (s\<lparr>receiving := RIdle\<rparr>)"
| nothing_yet: "receiving s = RTrying \<Longrightarrow> recv_turn (shared s) = (NothingYet, st) \<Longrightarrow>
    chan_step cap s (s\<lparr>receiving := RSleeping\<rparr>)"
| spurious_recv: "receiving s = RSleeping \<Longrightarrow> chan_step cap s (s\<lparr>receiving := RTrying\<rparr>)"
| try_took: "receiving s = RIdle \<Longrightarrow> try_recv (shared s) = (Some v, st) \<Longrightarrow>
    chan_step cap s (s\<lparr>shared := st, receiving := RNotifying, received := received s @ [v]\<rparr>)"
| notify_recv: "receiving s = RNotifying \<Longrightarrow> chosen s w \<Longrightarrow>
    chan_step cap s (wake_sender (s\<lparr>receiving := RIdle\<rparr>) w)"
| drop_recv: "receiving s = RIdle \<Longrightarrow>
    chan_step cap s (s\<lparr>shared := drop_receiver (shared s), receiving := RDropping\<rparr>)"
| notify_dropped: "receiving s = RDropping \<Longrightarrow>
    chan_step cap s (wake_senders (s\<lparr>receiving := RGone\<rparr>))"

section \<open>What every step keeps\<close>

text \<open>The accounting: what was sent is what was received and what is queued, in that order; the
  queue stays within its bound; the counter counts the handles, and calls are made on live ones.\<close>

definition fifo_inv :: "nat \<Rightarrow> 'a system \<Rightarrow> bool" where
  "fifo_inv cap s \<longleftrightarrow>
     sent s = received s @ ch_queue (shared s) \<and> length (ch_queue (shared s)) \<le> cap"

definition handle_inv :: "'a system \<Rightarrow> bool" where
  "handle_inv s \<longleftrightarrow>
     finite (handles s) \<and> ch_senders (shared s) = card (handles s)
     \<and> (\<forall>t h. on_handle h (calls s t) \<longrightarrow> h \<in> handles s)
     \<and> (last_gone s \<longrightarrow> handles s = {})
     \<and> (ch_receiver (shared s) \<longleftrightarrow> receiving s \<noteq> RDropping \<and> receiving s \<noteq> RGone)"

text \<open>No wake-up is lost. A sleeping receiver with something to find has a notification on its way;
  as long as some sender sleeps, the room in the queue is covered by the pending notification of the
  receiver and the calls already awake.\<close>

definition trying :: "'a system \<Rightarrow> nat set" where
  "trying s = {t. is_trying (calls s t)}"

definition recv_wake_inv :: "'a system \<Rightarrow> bool" where
  "recv_wake_inv s \<longleftrightarrow>
     (receiving s = RSleeping \<longrightarrow>
        (ch_queue (shared s) \<noteq> [] \<longrightarrow> (\<exists>t. is_notifying (calls s t)))
        \<and> (handles s = {} \<longrightarrow> last_gone s))"

definition send_wake_inv :: "nat \<Rightarrow> 'a system \<Rightarrow> bool" where
  "send_wake_inv cap s \<longleftrightarrow>
     finite {t. calls s t \<noteq> Idle}
     \<and> ((\<exists>t. is_sleeping (calls s t)) \<longrightarrow>
          (if ch_receiver (shared s)
           then cap \<le> length (ch_queue (shared s)) + card (trying s)
                  + (if receiving s = RNotifying then 1 else 0)
           else receiving s = RDropping))"

definition chan_inv :: "nat \<Rightarrow> 'a system \<Rightarrow> bool" where
  "chan_inv cap s \<longleftrightarrow> fifo_inv cap s \<and> handle_inv s \<and> recv_wake_inv s \<and> send_wake_inv cap s"

section \<open>Preservation\<close>

lemma set_call_simps [simp]:
  "calls (set_call s t c) = (calls s)(t := c)" "shared (set_call s t c) = shared s"
  "handles (set_call s t c) = handles s" "last_gone (set_call s t c) = last_gone s"
  "receiving (set_call s t c) = receiving s" "sent (set_call s t c) = sent s"
  "received (set_call s t c) = received s"
  by (simp_all add: set_call_def)

lemma wake_receiver_simps [simp]:
  "calls (wake_receiver s) = calls s" "shared (wake_receiver s) = shared s"
  "handles (wake_receiver s) = handles s" "last_gone (wake_receiver s) = last_gone s"
  "sent (wake_receiver s) = sent s" "received (wake_receiver s) = received s"
  "receiving (wake_receiver s) = (if receiving s = RSleeping then RTrying else receiving s)"
  by (simp_all add: wake_receiver_def)

lemma wake_sender_simps [simp]:
  "shared (wake_sender s w) = shared s" "handles (wake_sender s w) = handles s"
  "last_gone (wake_sender s w) = last_gone s" "receiving (wake_sender s w) = receiving s"
  "sent (wake_sender s w) = sent s" "received (wake_sender s w) = received s"
  by (simp_all add: wake_sender_def split: option.splits)

lemma wake_senders_simps [simp]:
  "calls (wake_senders s) t = woken (calls s t)" "shared (wake_senders s) = shared s"
  "handles (wake_senders s) = handles s" "last_gone (wake_senders s) = last_gone s"
  "receiving (wake_senders s) = receiving s" "sent (wake_senders s) = sent s"
  "received (wake_senders s) = received s"
  by (simp_all add: wake_senders_def)

lemma woken_simps [simp]:
  "on_handle h (woken c) = on_handle h c" "\<not> is_sleeping (woken c)"
  "is_notifying (woken c) = is_notifying c" "woken c = Idle \<longleftrightarrow> c = Idle"
  by (cases c; simp)+

lemma is_trying_woken: "is_sleeping c \<Longrightarrow> is_trying (woken c)"
  by (cases c) auto

lemma kinds:
  "is_sleeping c \<Longrightarrow> c \<noteq> Idle \<and> \<not> is_trying c \<and> \<not> is_notifying c"
  "is_trying c \<Longrightarrow> c \<noteq> Idle" "is_notifying c \<Longrightarrow> c \<noteq> Idle"
  by (cases c; simp)+

lemmas turn_defs = send_turn_def recv_turn_def try_recv_def clone_sender_def drop_sender_def
  drop_receiver_def

lemma fifo_step:
  assumes "fifo_inv cap s" "chan_step cap s s'"
  shows "fifo_inv cap s'"
  using assms(2,1)
  by (cases rule: chan_step.cases)
     (auto simp: fifo_inv_def turn_defs Let_def split: if_splits list.splits)

lemma handle_live:
  "handle_inv s \<Longrightarrow> on_handle h (calls s t) \<Longrightarrow> h \<in> handles s \<and> \<not> last_gone s"
  by (auto simp: handle_inv_def)

lemma handle_step:
  assumes "handle_inv s" "chan_step cap s s'"
  shows "handle_inv s'"
  using assms(2,1)
proof (cases rule: chan_step.cases)
  case (drop_handle h gone st)
  have n: "card (handles s - {h}) = ch_senders (shared s) - 1"
    using drop_handle(2) assms(1) by (simp add: handle_inv_def)
  have "gone \<longleftrightarrow> card (handles s - {h}) = 0" "ch_senders st = card (handles s - {h})"
    "ch_receiver st = ch_receiver (shared s)"
    using drop_handle(4) unfolding n by (auto simp: drop_sender_def Let_def)
  moreover have "card (handles s - {h}) = 0 \<longleftrightarrow> handles s - {h} = {}"
    using assms(1) by (intro card_0_eq) (simp add: handle_inv_def)
  ultimately show ?thesis
    using drop_handle(1,3) assms(1) by (auto simp: handle_inv_def simp del: card_Diff_insert)
next
  case (queued t h v st)
  then show ?thesis using assms(1) handle_live [of s h t]
    by (auto simp: handle_inv_def send_turn_def split: if_splits)
next
  case (full t h v st)
  then show ?thesis using assms(1) handle_live [of s h t]
    by (auto simp: handle_inv_def send_turn_def split: if_splits)
next
  case (notify_recv w)
  then show ?thesis using assms(1)
    by (auto simp: handle_inv_def wake_sender_def split: option.splits if_splits)
qed (auto simp: handle_inv_def turn_defs Let_def split: if_splits list.splits)

lemma trying_set_call:
  "trying (set_call s t c) = (if is_trying c then insert t (trying s) else trying s - {t})"
  by (auto simp: trying_def)

lemma finite_trying:
  assumes "finite {t. calls s t \<noteq> Idle}"
  shows "finite (trying s)"
  by (rule finite_subset [OF _ assms]) (auto simp: trying_def)

lemma card_trying:
  assumes "finite {t. calls s t \<noteq> Idle}"
  shows "card (trying (set_call s t c)) + (if is_trying (calls s t) then 1 else 0)
    = card (trying s) + (if is_trying c then 1 else 0)"
proof -
  have t: "t \<in> trying s \<longleftrightarrow> is_trying (calls s t)" by (simp add: trying_def)
  show ?thesis
    using finite_trying [OF assms] card_Suc_Diff1 [of "trying s" t]
    by (auto simp: trying_set_call t card_insert_if)
qed

lemma finite_calls_update:
  assumes "finite {t. calls s t \<noteq> Idle}" "calls s' = (calls s)(t := c)"
  shows "finite {u. calls s' u \<noteq> Idle}"
  by (rule finite_subset [of _ "insert t {t. calls s t \<noteq> Idle}"]) (use assms in auto)

lemma finite_calls_step:
  assumes "finite {t. calls s t \<noteq> Idle}" "chan_step cap s s'"
  shows "finite {t. calls s' t \<noteq> Idle}"
  using assms(2)
proof (cases rule: chan_step.cases)
  case (call_send t h v)
  then show ?thesis by (intro finite_calls_update [OF assms(1), of _ t]) simp
next
  case (refused t)
  then show ?thesis by (intro finite_calls_update [OF assms(1), of _ t]) simp
next
  case (queued t)
  then show ?thesis by (intro finite_calls_update [OF assms(1), of _ t]) simp
next
  case (full t)
  then show ?thesis by (intro finite_calls_update [OF assms(1), of _ t]) simp
next
  case (spurious_send t)
  then show ?thesis by (intro finite_calls_update [OF assms(1), of _ t]) simp
next
  case (notify_send t)
  then show ?thesis by (intro finite_calls_update [OF assms(1), of _ t]) simp
next
  case (notify_recv w)
  then show ?thesis
    using assms(1) finite_calls_update [OF assms(1), of s' "the w"]
    by (cases w) (simp_all add: wake_sender_def)
qed (use assms(1) in simp_all)

text \<open>The receiver's half.\<close>

lemma recv_wake_call:
  assumes "recv_wake_inv s" "\<not> is_notifying (calls s t)"
  shows "recv_wake_inv (set_call s t c)"
proof -
  have "is_notifying (calls (set_call s t c) u)" if "is_notifying (calls s u)" for u
    using that assms(2) by (cases "u = t") auto
  with assms(1) show ?thesis by (auto simp only: recv_wake_inv_def set_call_simps(2-5))
qed

lemma recv_wake_step:
  assumes "recv_wake_inv s" "handle_inv s" "chan_step cap s s'"
  shows "recv_wake_inv s'"
  using assms(3)
proof (cases rule: chan_step.cases)
  case (call_send t h v)
  then show ?thesis using recv_wake_call [OF assms(1), of t] by simp
next
  case (refused t h v)
  then show ?thesis using recv_wake_call [OF assms(1), of t] by simp
next
  case (full t h v)
  then show ?thesis using recv_wake_call [OF assms(1), of t] by simp
next
  case (spurious_send t)
  then show ?thesis using recv_wake_call [OF assms(1), of t] by (simp add: kinds)
next
  case (queued t h v st)
  then have "is_notifying (calls s' t)" by simp
  with queued show ?thesis using assms(1) by (auto simp: recv_wake_inv_def)
next
  case (drop_handle h gone st)
  have "ch_senders st = card (handles s')"
    using handle_step [OF assms(2,3)] drop_handle(1) by (simp add: handle_inv_def)
  moreover have "gone = (ch_senders st = 0)" "ch_queue st = ch_queue (shared s)"
    using drop_handle(4) by (auto simp: drop_sender_def Let_def)
  ultimately have "last_gone s' \<longleftrightarrow> card (handles s') = 0"
    and "ch_queue (shared s') = ch_queue (shared s)" "receiving s' = receiving s" "calls s' = calls s"
    using drop_handle(1) by simp_all
  then show ?thesis using assms(1) by (auto simp: recv_wake_inv_def)
next
  case (nothing_yet st)
  then show ?thesis using assms(1,2)
    by (auto simp: recv_wake_inv_def handle_inv_def turn_defs split: list.splits if_splits)
next
  case (notify_recv w)
  then show ?thesis by (simp add: recv_wake_inv_def)
qed (use assms(1) in \<open>auto simp: recv_wake_inv_def turn_defs dest: kinds split: if_splits list.splits\<close>)

text \<open>The senders' half: for a step that moves one call, and for one that leaves the calls alone.\<close>

lemma send_wake_move:
  assumes "send_wake_inv cap s" "calls s' = (calls s)(t := c)"
    and "ch_receiver (shared s') = ch_receiver (shared s)"
    and "receiving s' = RDropping \<longleftrightarrow> receiving s = RDropping"
    and "is_sleeping c \<Longrightarrow> is_sleeping (calls s t) \<or>
      (if ch_receiver (shared s) then cap \<le> length (ch_queue (shared s')) else receiving s = RDropping)"
    and "ch_receiver (shared s) \<Longrightarrow>
      length (ch_queue (shared s)) + (if receiving s = RNotifying then 1 else 0)
        + (if is_trying (calls s t) then 1 else 0)
      \<le> length (ch_queue (shared s')) + (if receiving s' = RNotifying then 1 else 0)
        + (if is_trying c then 1 else 0)"
  shows "send_wake_inv cap s'"
proof -
  have fin: "finite {t. calls s t \<noteq> Idle}" using assms(1) by (simp add: send_wake_inv_def)
  have "trying s' = trying (set_call s t c)" using assms(2) by (simp add: trying_def)
  then have card: "card (trying s') + (if is_trying (calls s t) then 1 else 0)
      = card (trying s) + (if is_trying c then 1 else 0)"
    using card_trying [OF fin, of t c] by simp
  have "cap \<le> length (ch_queue (shared s')) + card (trying s') + (if receiving s' = RNotifying then 1 else 0)"
    if "is_sleeping (calls s' u)" "ch_receiver (shared s)" for u
  proof (cases "\<exists>u. is_sleeping (calls s u)")
    case True
    then have "cap \<le> length (ch_queue (shared s)) + card (trying s) + (if receiving s = RNotifying then 1 else 0)"
      using assms(1) that(2) by (simp add: send_wake_inv_def)
    with card assms(6) [OF that(2)] show ?thesis by linarith
  next
    case False
    then have "u = t" "is_sleeping c" using that(1) assms(2) by (auto split: if_splits)
    with False assms(5) that(2) show ?thesis by auto
  qed
  moreover have "receiving s' = RDropping" if "is_sleeping (calls s' u)" "\<not> ch_receiver (shared s)" for u
    using that assms(1,2,4,5) by (auto simp: send_wake_inv_def split: if_splits)
  ultimately show ?thesis
    using assms(3) finite_calls_update [OF fin assms(2)] by (auto simp: send_wake_inv_def)
qed

lemma send_wake_same:
  assumes "send_wake_inv cap s" "calls s' = calls s"
    and "ch_receiver (shared s') = ch_receiver (shared s)"
    and "receiving s' = RDropping \<longleftrightarrow> receiving s = RDropping"
    and "length (ch_queue (shared s)) + (if receiving s = RNotifying then 1 else 0)
      \<le> length (ch_queue (shared s')) + (if receiving s' = RNotifying then 1 else 0)"
  shows "send_wake_inv cap s'"
  using send_wake_move [of cap s s' t "calls s t"] assms by (auto simp: fun_upd_triv)

lemma send_wake_step:
  assumes "send_wake_inv cap s" "handle_inv s" "chan_step cap s s'"
  shows "send_wake_inv cap s'"
  using assms(3)
proof (cases rule: chan_step.cases)
  case (call_send t h v)
  then show ?thesis by (intro send_wake_move [OF assms(1), of _ t "Trying h v"]) auto
next
  case (refused t h v)
  then show ?thesis by (intro send_wake_move [OF assms(1), of _ t Idle]) (auto simp: turn_defs split: if_splits)
next
  case (queued t h v st)
  then show ?thesis
    by (intro send_wake_move [OF assms(1), of _ t "Notifying h"]) (auto simp: turn_defs split: if_splits)
next
  case (full t h v)
  then show ?thesis
    using assms(1) finite_calls_step [OF _ assms(3)]
    by (auto simp: send_wake_inv_def turn_defs simp del: fun_upd_apply split: if_splits)
next
  case (spurious_send t)
  then show ?thesis
    by (intro send_wake_move [OF assms(1), of _ t "woken (calls s t)"]) (auto simp: kinds is_trying_woken)
next
  case (notify_send t h)
  then show ?thesis by (intro send_wake_move [OF assms(1), of _ t Idle]) auto
next
  case (took v st)
  then show ?thesis by (intro send_wake_same [OF assms(1)]) (auto simp: turn_defs split: list.splits if_splits)
next
  case (try_took v st)
  then show ?thesis by (intro send_wake_same [OF assms(1)]) (auto simp: turn_defs split: list.splits)
next
  case (notify_recv w)
  show ?thesis
  proof (cases w)
    case None
    with notify_recv show ?thesis using finite_calls_step [OF _ assms(3)] assms(1)
      by (simp add: send_wake_inv_def wake_sender_def chosen_def)
  next
    case (Some t)
    with notify_recv show ?thesis
      by (intro send_wake_move [OF assms(1), of _ t "woken (calls s t)"])
         (auto simp: wake_sender_def chosen_def kinds is_trying_woken)
  qed
next
  case drop_recv
  then show ?thesis using assms(1)
    by (auto simp: send_wake_inv_def turn_defs)
next
  case notify_dropped
  then show ?thesis using finite_calls_step [OF _ assms(3)] assms(1)
    by (simp add: send_wake_inv_def)
qed (auto intro!: send_wake_same [OF assms(1)] simp: turn_defs Let_def split: if_splits)

lemma chan_inv_step:
  assumes "chan_inv cap s" "chan_step cap s s'"
  shows "chan_inv cap s'"
  using assms fifo_step handle_step recv_wake_step send_wake_step unfolding chan_inv_def by blast

lemma chan_inv_start: "chan_inv cap start"
  by (simp add: chan_inv_def fifo_inv_def handle_inv_def recv_wake_inv_def send_wake_inv_def
      start_def sync_channel_def)

interpretation channel: transition_system "\<lambda>s. s = start" "chan_step cap" "chan_inv cap" for cap
  by unfold_locales (auto simp: chan_inv_start intro: chan_inv_step)

section \<open>Properties\<close>

text \<open>C7 (safety). In every state the threads can reach, the values received are those sent, in the
  order they were queued, with the queue holding exactly the rest; never more than \<open>capacity\<close> values
  are queued, and \<open>senders\<close> is the number of sending handles alive.\<close>

theorem channel_delivers_in_order:
  assumes "reach (\<lambda>s. s = start) (chan_step cap) s"
  shows "sent s = received s @ ch_queue (shared s) \<and> length (ch_queue (shared s)) \<le> cap
    \<and> ch_senders (shared s) = card (handles s)
    \<and> (ch_receiver (shared s) \<longleftrightarrow> receiving s \<noteq> RDropping \<and> receiving s \<noteq> RGone)"
  using channel.reachable_inv [OF assms] by (simp add: chan_inv_def fifo_inv_def handle_inv_def)

text \<open>A run used as an example: a value is sent, the handle dropped, and the value received.\<close>

definition queued_state :: "nat system" where
  "queued_state = (set_call (set_call start 5 (Trying 0 42)) 5 (Notifying 0))
     \<lparr>shared := \<lparr>ch_queue = [42], ch_senders = 1, ch_receiver = True\<rparr>, sent := [42]\<rparr>"

lemma queued_reached: "reach (\<lambda>s. s = start) (chan_step 1) queued_state"
proof -
  have "chan_step 1 start (set_call start 5 (Trying 0 42))"
    by (rule chan_step.call_send) (simp_all add: start_def)
  moreover have "chan_step 1 (set_call start 5 (Trying 0 (42 :: nat))) queued_state"
    using chan_step.queued [of "set_call start 5 (Trying 0 42)" 5 0 42 1
        "\<lparr>ch_queue = [42], ch_senders = 1, ch_receiver = True\<rparr>"]
    by (simp add: queued_state_def send_turn_def start_def sync_channel_def)
  ultimately show ?thesis by (blast intro: reach.intros)
qed

theorem channel_delivers_in_order_witness:
  "sent queued_state = received queued_state @ ch_queue (shared queued_state)
   \<and> ch_queue (shared queued_state) = [42]"
  using channel_delivers_in_order [OF queued_reached] by (simp add: queued_state_def)

lemma sleepers_wait:
  assumes "chan_inv cap s"
    and "\<not> last_gone s" and "receiving s \<in> {RIdle, RSleeping, RGone}"
    and "\<forall>t. \<not> is_trying (calls s t) \<and> \<not> is_notifying (calls s t)"
  shows "(is_sleeping (calls s t) \<longrightarrow> length (ch_queue (shared s)) = cap \<and> ch_receiver (shared s))
    \<and> (receiving s = RSleeping \<longrightarrow> ch_queue (shared s) = [] \<and> handles s \<noteq> {})
    \<and> (0 < cap \<longrightarrow> \<not> (is_sleeping (calls s t) \<and> receiving s = RSleeping))"
proof -
  note inv = assms(1)
  have "trying s = {}" using assms(4) by (simp add: trying_def)
  then have "length (ch_queue (shared s)) = cap \<and> ch_receiver (shared s)" if "is_sleeping (calls s t)"
    using inv that assms(3)
    by (auto simp: chan_inv_def fifo_inv_def send_wake_inv_def split: if_splits)
  moreover have "ch_queue (shared s) = [] \<and> handles s \<noteq> {}" if "receiving s = RSleeping"
    using inv that assms(2,4) by (auto simp: chan_inv_def recv_wake_inv_def)
  ultimately show ?thesis by auto
qed


text \<open>The channel of capacity 1 with its queue full and a second sender asleep.\<close>

lemma sleeping_reached:
  "\<exists>s. reach (\<lambda>s. s = start) (chan_step 1) (s :: nat system) \<and> \<not> last_gone s \<and> receiving s = RIdle
     \<and> (\<forall>t. \<not> is_trying (calls s t) \<and> \<not> is_notifying (calls s t)) \<and> is_sleeping (calls s 6)"
proof -
  let ?q = "wake_receiver (set_call queued_state 5 Idle)"
  let ?t = "set_call ?q 6 (Trying 0 43)"
  have "chan_step 1 queued_state ?q" by (rule chan_step.notify_send) (simp add: queued_state_def)
  moreover have "chan_step 1 ?q ?t"
    by (rule chan_step.call_send) (simp_all add: queued_state_def start_def)
  moreover have "chan_step 1 ?t (set_call ?t 6 (Sleeping 0 43))"
    by (rule chan_step.full) (auto simp: send_turn_def queued_state_def)
  ultimately have "reach (\<lambda>s. s = start) (chan_step 1) (set_call ?t 6 (Sleeping 0 43))"
    using queued_reached by (meson reach.reach_step)
  then show ?thesis
    by (intro exI [of _ "set_call ?t 6 (Sleeping 0 43)"]) (auto simp: queued_state_def start_def)
qed


lemma all_gone_stays:
  assumes "chan_inv cap s" "handles s = {}" "ch_queue (shared s) = []" "chan_step cap s s'"
  shows "handles s' = {} \<and> ch_queue (shared s') = [] \<and> sent s' = sent s \<and> received s' = received s"
proof -
  have "\<not> on_handle h (calls s t)" for h t
    using assms(1,2) by (auto simp: chan_inv_def handle_inv_def)
  then have "calls s t = Idle" for t
    by (cases "calls s t") (metis on_handle.simps)+
  from assms(4) this assms(2,3) show ?thesis
    by (cases rule: chan_step.cases) (auto simp: turn_defs split: list.splits if_splits)
qed

text \<open>C36 (safety). \<open>recv\<close> reports a disconnect only when every value ever sent has been received and
  no sending handle is left, and it stays so: nothing can be sent afterwards, and every further turn
  of \<open>recv\<close> reports the same.\<close>

theorem disconnect_is_final:
  assumes "reach (\<lambda>s. s = start) (chan_step cap) s" and "fst (recv_turn (shared s)) = Disconnected"
    and "(chan_step cap)\<^sup>*\<^sup>* s s'"
  shows "received s = sent s \<and> sent s' = sent s \<and> fst (recv_turn (shared s')) = Disconnected"
proof -
  have inv: "chan_inv cap s" by (rule channel.reachable_inv [OF assms(1)])
  from assms(2) have q: "ch_queue (shared s) = []" and n: "ch_senders (shared s) = 0"
    by (auto simp: recv_turn_def split: list.splits if_splits)
  with inv have h: "handles s = {}" by (auto simp: chan_inv_def handle_inv_def)
  from assms(3) have "chan_inv cap s' \<and> handles s' = {} \<and> ch_queue (shared s') = [] \<and> sent s' = sent s"
  proof (induction rule: rtranclp_induct)
    case base
    show ?case using inv q h by simp
  next
    case (step y z)
    then show ?case using all_gone_stays [of cap y z] chan_inv_step [of cap y z] by auto
  qed
  with inv q show ?thesis by (auto simp: chan_inv_def fifo_inv_def handle_inv_def recv_turn_def)
qed

theorem disconnect_is_final_witness:
  "let s = start\<lparr>shared := snd (drop_sender sync_channel), handles := {}, last_gone := True\<rparr>
   in received s = ([] :: nat list) \<and> fst (recv_turn (shared s)) = Disconnected"
proof -
  let ?s = "start\<lparr>shared := snd (drop_sender sync_channel), handles := {}, last_gone := True\<rparr> :: nat system"
  have "chan_step 1 start ?s"
    using chan_step.drop_handle [of 0 start True "snd (drop_sender sync_channel)" 1]
    by (simp add: start_def drop_sender_def sync_channel_def)
  then have r: "reach (\<lambda>s. s = start) (chan_step 1) ?s" by (blast intro: reach.intros)
  have d: "fst (recv_turn (shared ?s)) = Disconnected"
    by (simp add: recv_turn_def drop_sender_def sync_channel_def)
  from disconnect_is_final [OF r d rtranclp.rtrancl_refl] show ?thesis
    by (simp add: start_def Let_def)
qed

text \<open>
  A channel of capacity 0 accepts nothing: \<open>send\<close> waits until the receiver is dropped. The type the
  file replaces, \<open>std::sync::mpsc::sync_channel\<close>, hands a value over in that case.
\<close>

lemma capacity_zero_never_queues: "fst (send_turn 0 st v) \<noteq> Queued"
  by (simp add: send_turn_def)

text \<open>There a sender and the receiver are asleep on each other as soon as both have made a call.\<close>

lemma capacity_zero_both_sleep:
  "\<exists>s. reach (\<lambda>s. s = start) (chan_step 0) (s :: nat system) \<and> is_sleeping (calls s 5) \<and> receiving s = RSleeping
     \<and> \<not> last_gone s \<and> (\<forall>t. \<not> is_trying (calls s t) \<and> \<not> is_notifying (calls s t))"
proof -
  let ?reach = "reach (\<lambda>s. s = start) (chan_step 0)"
  let ?s1 = "set_call start 5 (Trying 0 42) :: nat system"
  let ?s2 = "set_call ?s1 5 (Sleeping 0 42)"
  let ?s3 = "?s2\<lparr>receiving := RTrying\<rparr>"
  let ?s4 = "?s3\<lparr>receiving := RSleeping\<rparr>"
  have "?reach start" by (simp add: reach_init)
  then have "?reach ?s1" by (rule reach_step) (rule chan_step.call_send, simp_all add: start_def)
  then have "?reach ?s2"
    by (rule reach_step) (rule chan_step.full, auto simp: send_turn_def start_def sync_channel_def)
  then have "?reach ?s3" by (rule reach_step) (rule chan_step.call_recv, simp add: start_def)
  then have "?reach ?s4"
    by (rule reach_step) (rule chan_step.nothing_yet, auto simp: recv_turn_def start_def sync_channel_def)
  then show ?thesis by (intro exI [of _ ?s4]) (auto simp: start_def)
qed

end
