(* ===== verification/Channel_Threads.thy ===== *)
theory Channel_Threads
  imports Channels Locks
begin

text \<open>
  The bounded channel (\<open>src/channel.rs\<close>) on the mutex and the condition variables it is built from
  (\<open>src/thread.rs\<close>): the operations of the ends in the steps a thread takes, each call to lock, unlock,
  wait or notify one of its own. Three refinements connect it to the other theories: seen from either
  condition variable it is the system of the theory Locks, which gives it mutual exclusion; and with
  every critical section taken as one step it is the system of the theory Channels, which gives it order,
  capacity and wake-ups.
\<close>

section \<open>Threads\<close>

text \<open>
  Where a thread is that uses a sender: in \<open>send\<close> (\<open>A_\<close>: waiting for the mutex, at the top of the loop with
  the guard, about to wait, in \<open>Condvar::wait\<close> as the theory Locks has it, returning an error, past the
  queueing with the guard and without), in \<open>clone\<close> (\<open>C_\<close>) or in \<open>drop\<close> (\<open>D_\<close>). Senders are numbered.
\<close>

datatype 'a act =
    A_Idle
  | A_Lock nat 'a | A_Loop nat 'a | A_Wait nat 'a
  | A_Counted nat 'a | A_Asleep nat 'a | A_Woken nat 'a | A_Returned nat 'a
  | A_Refused nat 'a | A_Queued nat | A_Notify nat
  | C_Lock nat | C_Holding nat | C_Done nat nat
  | D_Lock nat | D_Holding nat | D_Done bool | D_Notify

text \<open>Where the receiver is: in \<open>recv\<close> (\<open>R_\<close>), in \<open>try_recv\<close> (\<open>T_\<close>), which ends like \<open>recv\<close> when it has a
  value, or in \<open>drop\<close> (\<open>X_\<close>).\<close>

datatype ract =
    R_Idle
  | R_Lock | R_Loop | R_Wait
  | R_Counted | R_Asleep | R_Woken | R_Returned
  | R_Closed | R_Took | R_Notify
  | T_Lock | T_Holding | T_None
  | X_Lock | X_Holding | X_Done | X_Notify | R_Gone

text \<open>What is shared: the mutex, the counters of \<open>on_send\<close> and \<open>on_recv\<close>, the state behind the mutex, and,
  for the statements, the senders there are and the values sent and received.\<close>

record 'a room =
  mutex :: "tid option"
  send_waiters :: nat
  recv_waiters :: nat
  state :: "'a chan"
  live :: "nat set"
  log_sent :: "'a list"
  log_received :: "'a list"

record 'a threads =
  acts :: "nat \<Rightarrow> 'a act"
  ract :: ract
  room :: "'a room"

text \<open>In the mutex's eyes the receiver is thread 0 and the thread numbered \<open>t\<close> here is \<open>Suc t\<close>.\<close>

definition threads_start :: "'a threads" where
  "threads_start = \<lparr>acts = (\<lambda>_. A_Idle), ract = R_Idle,
     room = \<lparr>mutex = None, send_waiters = 0, recv_waiters = 0, state = sync_channel, live = {0},
       log_sent = [], log_received = []\<rparr>\<rparr>"

section \<open>The steps of a sender and of the receiver\<close>

text \<open>
  One step of a thread on a sender, up to the notification. \<open>usable\<close> are the senders a call may be made on,
  \<open>free\<close> those that nobody is using, which their owner may drop.
\<close>

inductive sender_step ::
  "nat \<Rightarrow> (nat \<Rightarrow> bool) \<Rightarrow> (nat \<Rightarrow> bool) \<Rightarrow> tid \<Rightarrow> 'a act \<Rightarrow> 'a room \<Rightarrow> 'a act \<Rightarrow> 'a room \<Rightarrow> bool"
  for cap :: nat and usable :: "nat \<Rightarrow> bool" and free :: "nat \<Rightarrow> bool" and i :: tid where
  send_call: "usable h \<Longrightarrow> sender_step cap usable free i A_Idle c (A_Lock h v) c"
| send_lock: "mutex c = None \<Longrightarrow>
    sender_step cap usable free i (A_Lock h v) c (A_Loop h v) (c\<lparr>mutex := Some i\<rparr>)"
| send_refused: "send_turn cap (state c) v = (Refused v', st) \<Longrightarrow>
    sender_step cap usable free i (A_Loop h v) c (A_Refused h v') c"
| send_queued: "send_turn cap (state c) v = (Queued, st) \<Longrightarrow>
    sender_step cap usable free i (A_Loop h v) c (A_Queued h) (c\<lparr>state := st, log_sent := log_sent c @ [v]\<rparr>)"
| send_full: "send_turn cap (state c) v = (Full, st) \<Longrightarrow>
    sender_step cap usable free i (A_Loop h v) c (A_Wait h v) c"
| send_count:
    "sender_step cap usable free i (A_Wait h v) c (A_Counted h v) (c\<lparr>recv_waiters := recv_waiters c + 1\<rparr>)"
| send_sleep: "sender_step cap usable free i (A_Counted h v) c (A_Asleep h v) (c\<lparr>mutex := None\<rparr>)"
| send_spurious: "sender_step cap usable free i (A_Asleep h v) c (A_Woken h v) c"
| send_relock: "mutex c = None \<Longrightarrow>
    sender_step cap usable free i (A_Woken h v) c (A_Returned h v) (c\<lparr>mutex := Some i\<rparr>)"
| send_return:
    "sender_step cap usable free i (A_Returned h v) c (A_Loop h v) (c\<lparr>recv_waiters := recv_waiters c - 1\<rparr>)"
| send_error: "sender_step cap usable free i (A_Refused h v) c A_Idle (c\<lparr>mutex := None\<rparr>)"
| send_unlock: "sender_step cap usable free i (A_Queued h) c (A_Notify h) (c\<lparr>mutex := None\<rparr>)"
| clone_call: "usable h \<Longrightarrow> sender_step cap usable free i A_Idle c (C_Lock h) c"
| clone_lock: "mutex c = None \<Longrightarrow>
    sender_step cap usable free i (C_Lock h) c (C_Holding h) (c\<lparr>mutex := Some i\<rparr>)"
| clone_count: "h' \<notin> live c \<Longrightarrow>
    sender_step cap usable free i (C_Holding h) c (C_Done h h')
      (c\<lparr>state := clone_sender (state c), live := insert h' (live c)\<rparr>)"
| clone_unlock: "sender_step cap usable free i (C_Done h h') c A_Idle (c\<lparr>mutex := None\<rparr>)"
| drop_call: "free h \<Longrightarrow> sender_step cap usable free i A_Idle c (D_Lock h) c"
| drop_lock: "mutex c = None \<Longrightarrow>
    sender_step cap usable free i (D_Lock h) c (D_Holding h) (c\<lparr>mutex := Some i\<rparr>)"
| drop_count: "drop_sender (state c) = (gone, st) \<Longrightarrow>
    sender_step cap usable free i (D_Holding h) c (D_Done gone) (c\<lparr>state := st, live := live c - {h}\<rparr>)"
| drop_unlock:
    "sender_step cap usable free i (D_Done gone) c (if gone then D_Notify else A_Idle) (c\<lparr>mutex := None\<rparr>)"

inductive receiver_step :: "ract \<Rightarrow> 'a room \<Rightarrow> ract \<Rightarrow> 'a room \<Rightarrow> bool" where
  recv_call: "receiver_step R_Idle c R_Lock c"
| recv_lock: "mutex c = None \<Longrightarrow> receiver_step R_Lock c R_Loop (c\<lparr>mutex := Some 0\<rparr>)"
| recv_took: "recv_turn (state c) = (Took v, st) \<Longrightarrow>
    receiver_step R_Loop c R_Took (c\<lparr>state := st, log_received := log_received c @ [v]\<rparr>)"
| recv_closed: "recv_turn (state c) = (Disconnected, st) \<Longrightarrow> receiver_step R_Loop c R_Closed c"
| recv_empty: "recv_turn (state c) = (NothingYet, st) \<Longrightarrow> receiver_step R_Loop c R_Wait c"
| recv_count: "receiver_step R_Wait c R_Counted (c\<lparr>send_waiters := send_waiters c + 1\<rparr>)"
| recv_sleep: "receiver_step R_Counted c R_Asleep (c\<lparr>mutex := None\<rparr>)"
| recv_spurious: "receiver_step R_Asleep c R_Woken c"
| recv_relock: "mutex c = None \<Longrightarrow> receiver_step R_Woken c R_Returned (c\<lparr>mutex := Some 0\<rparr>)"
| recv_return: "receiver_step R_Returned c R_Loop (c\<lparr>send_waiters := send_waiters c - 1\<rparr>)"
| recv_error: "receiver_step R_Closed c R_Idle (c\<lparr>mutex := None\<rparr>)"
| recv_unlock: "receiver_step R_Took c R_Notify (c\<lparr>mutex := None\<rparr>)"
| try_call: "receiver_step R_Idle c T_Lock c"
| try_lock: "mutex c = None \<Longrightarrow> receiver_step T_Lock c T_Holding (c\<lparr>mutex := Some 0\<rparr>)"
| try_took: "try_recv (state c) = (Some v, st) \<Longrightarrow>
    receiver_step T_Holding c R_Took (c\<lparr>state := st, log_received := log_received c @ [v]\<rparr>)"
| try_none: "try_recv (state c) = (None, st) \<Longrightarrow> receiver_step T_Holding c T_None c"
| try_unlock: "receiver_step T_None c R_Idle (c\<lparr>mutex := None\<rparr>)"
| close_call: "receiver_step R_Idle c X_Lock c"
| close_lock: "mutex c = None \<Longrightarrow> receiver_step X_Lock c X_Holding (c\<lparr>mutex := Some 0\<rparr>)"
| close_mark: "receiver_step X_Holding c X_Done (c\<lparr>state := drop_receiver (state c)\<rparr>)"
| close_unlock: "receiver_step X_Done c X_Notify (c\<lparr>mutex := None\<rparr>)"

section \<open>The system\<close>

text \<open>The senders a thread is using, and those it has to itself: one it is dropping, or making.\<close>

fun involves :: "nat \<Rightarrow> 'a act \<Rightarrow> bool" where
  "involves h A_Idle = False"
| "involves h (A_Lock g v) = (g = h)" | "involves h (A_Loop g v) = (g = h)" | "involves h (A_Wait g v) = (g = h)"
| "involves h (A_Counted g v) = (g = h)" | "involves h (A_Asleep g v) = (g = h)"
| "involves h (A_Woken g v) = (g = h)" | "involves h (A_Returned g v) = (g = h)"
| "involves h (A_Refused g v) = (g = h)" | "involves h (A_Queued g) = (g = h)" | "involves h (A_Notify g) = (g = h)"
| "involves h (C_Lock g) = (g = h)" | "involves h (C_Holding g) = (g = h)"
| "involves h (C_Done g g') = (g = h \<or> g' = h)"
| "involves h (D_Lock g) = (g = h)" | "involves h (D_Holding g) = (g = h)"
| "involves h (D_Done gone) = False" | "involves h D_Notify = False"

fun has_alone :: "nat \<Rightarrow> 'a act \<Rightarrow> bool" where
  "has_alone h (D_Lock g) = (g = h)" | "has_alone h (D_Holding g) = (g = h)"
| "has_alone h (C_Done g g') = (g' = h)" | "has_alone h _ = False"

definition usable :: "'a threads \<Rightarrow> nat \<Rightarrow> bool" where
  "usable s h \<longleftrightarrow> h \<in> live (room s) \<and> (\<forall>t. \<not> has_alone h (acts s t))"

definition unused :: "'a threads \<Rightarrow> nat \<Rightarrow> bool" where
  "unused s h \<longleftrightarrow> h \<in> live (room s) \<and> (\<forall>t. \<not> involves h (acts s t))"

text \<open>The notifications: \<open>on_send\<close> has one possible sleeper, the receiver; of those on \<open>on_recv\<close> the system
  picks one, or all are woken.\<close>

fun roused :: "'a act \<Rightarrow> 'a act" where
  "roused (A_Asleep h v) = A_Woken h v" | "roused a = a"

fun asleep :: "'a act \<Rightarrow> bool" where
  "asleep (A_Asleep h v) = True" | "asleep _ = False"

definition rouse_receiver :: "ract \<Rightarrow> ract" where
  "rouse_receiver r = (if r = R_Asleep then R_Woken else r)"

definition rouse_one :: "(nat \<Rightarrow> 'a act) \<Rightarrow> nat option \<Rightarrow> nat \<Rightarrow> 'a act" where
  "rouse_one as w = (case w of None \<Rightarrow> as | Some t \<Rightarrow> as(t := roused (as t)))"

definition picked :: "(nat \<Rightarrow> 'a act) \<Rightarrow> nat option \<Rightarrow> bool" where
  "picked as w = (case w of None \<Rightarrow> \<forall>t. \<not> asleep (as t) | Some t \<Rightarrow> asleep (as t))"

inductive thread_step :: "nat \<Rightarrow> 'a threads \<Rightarrow> 'a threads \<Rightarrow> bool" for cap :: nat where
  sender: "sender_step cap (usable s) (unused s) (Suc t) (acts s t) (room s) a c \<Longrightarrow>
    thread_step cap s (s\<lparr>acts := (acts s)(t := a), room := c\<rparr>)"
| receiver: "receiver_step (ract s) (room s) r c \<Longrightarrow> thread_step cap s (s\<lparr>ract := r, room := c\<rparr>)"
| send_notify: "acts s t = A_Notify h \<Longrightarrow>
    thread_step cap s (s\<lparr>acts := (acts s)(t := A_Idle), ract := rouse_receiver (ract s)\<rparr>)"
| drop_notify: "acts s t = D_Notify \<Longrightarrow>
    thread_step cap s (s\<lparr>acts := (acts s)(t := A_Idle), ract := rouse_receiver (ract s)\<rparr>)"
| recv_notify: "ract s = R_Notify \<Longrightarrow> picked (acts s) w \<Longrightarrow>
    thread_step cap s (s\<lparr>acts := rouse_one (acts s) w, ract := R_Idle\<rparr>)"
| close_notify: "ract s = X_Notify \<Longrightarrow>
    thread_step cap s (s\<lparr>acts := (\<lambda>t. roused (acts s t)), ract := R_Gone\<rparr>)"

section \<open>Seen from a condition variable\<close>

fun sender_place :: "'a act \<Rightarrow> place" where
  "sender_place (A_Counted h v) = Counted" | "sender_place (A_Asleep h v) = Asleep"
| "sender_place (A_Woken h v) = Woken" | "sender_place (A_Returned h v) = Returned"
| "sender_place (A_Loop h v) = Holding" | "sender_place (A_Wait h v) = Holding"
| "sender_place (A_Refused h v) = Holding" | "sender_place (A_Queued h) = Holding"
| "sender_place (C_Holding h) = Holding" | "sender_place (C_Done h h') = Holding"
| "sender_place (D_Holding h) = Holding" | "sender_place (D_Done gone) = Holding"
| "sender_place _ = Outside"

fun receiver_place :: "ract \<Rightarrow> place" where
  "receiver_place R_Counted = Counted" | "receiver_place R_Asleep = Asleep"
| "receiver_place R_Woken = Woken" | "receiver_place R_Returned = Returned"
| "receiver_place R_Loop = Holding" | "receiver_place R_Wait = Holding"
| "receiver_place R_Closed = Holding" | "receiver_place R_Took = Holding"
| "receiver_place T_Holding = Holding" | "receiver_place T_None = Holding"
| "receiver_place X_Holding = Holding" | "receiver_place X_Done = Holding"
| "receiver_place _ = Outside"

text \<open>A thread that waits on one condition variable has or has not the mutex as far as the other goes.\<close>

fun elsewhere :: "place \<Rightarrow> place" where
  "elsewhere Counted = Holding" | "elsewhere Returned = Holding"
| "elsewhere Asleep = Outside" | "elsewhere Woken = Outside"
| "elsewhere p = p"

definition on_send :: "'a threads \<Rightarrow> condvar" where
  "on_send s = \<lparr>owner = mutex (room s), waiters = send_waiters (room s),
     place_of = (\<lambda>i. case i of 0 \<Rightarrow> receiver_place (ract s) | Suc t \<Rightarrow> elsewhere (sender_place (acts s t)))\<rparr>"

definition on_recv :: "'a threads \<Rightarrow> condvar" where
  "on_recv s = \<lparr>owner = mutex (room s), waiters = recv_waiters (room s),
     place_of = (\<lambda>i. case i of 0 \<Rightarrow> elsewhere (receiver_place (ract s)) | Suc t \<Rightarrow> sender_place (acts s t))\<rparr>"

text \<open>The moves of one thread that are steps of the theory Locks, with what they do to owner and counter.\<close>

fun lock_move :: "tid \<Rightarrow> place \<Rightarrow> tid option \<times> nat \<Rightarrow> place \<Rightarrow> tid option \<times> nat \<Rightarrow> bool" where
  "lock_move i Outside (m, n) Holding c' = (m = None \<and> c' = (Some i, n))"
| "lock_move i Holding (m, n) Outside c' = (c' = (None, n))"
| "lock_move i Holding (m, n) Counted c' = (c' = (m, n + 1))"
| "lock_move i Counted (m, n) Asleep c' = (c' = (None, n))"
| "lock_move i Asleep (m, n) Woken c' = (c' = (m, n))"
| "lock_move i Woken (m, n) Returned c' = (m = None \<and> c' = (Some i, n))"
| "lock_move i Returned (m, n) Holding c' = (c' = (m, n - 1))"
| "lock_move i p c p' c' = (p' = p \<and> c' = c)"

lemma condvar_eqI: "owner s = owner s' \<Longrightarrow> waiters s = waiters s' \<Longrightarrow> place_of s = place_of s' \<Longrightarrow> s = (s' :: condvar)"
  by simp

lemma lock_move_step:
  assumes "place_of s' = (place_of s)(i := p)"
    and "lock_move i (place_of s i) (owner s, waiters s) p (owner s', waiters s')"
  shows "s' = s \<or> condvar_step s s'"
proof (cases "p = place_of s i")
  case True
  then have "owner s' = owner s \<and> waiters s' = waiters s" using assms(2) by (cases p) simp_all
  then show ?thesis using True assms(1) by (intro disjI1 condvar_eqI) simp_all
next
  case False
  have s': "s' = s\<lparr>owner := owner s', waiters := waiters s', place_of := (place_of s)(i := p)\<rparr>"
    using assms(1) by (intro condvar_eqI) simp_all
  consider "place_of s i = Outside" "p = Holding" "owner s = None" "owner s' = Some i" "waiters s' = waiters s"
    | "place_of s i = Holding" "p = Outside" "owner s' = None" "waiters s' = waiters s"
    | "place_of s i = Holding" "p = Counted" "owner s' = owner s" "waiters s' = waiters s + 1"
    | "place_of s i = Counted" "p = Asleep" "owner s' = None" "waiters s' = waiters s"
    | "place_of s i = Asleep" "p = Woken" "owner s' = owner s" "waiters s' = waiters s"
    | "place_of s i = Woken" "p = Returned" "owner s = None" "owner s' = Some i" "waiters s' = waiters s"
    | "place_of s i = Returned" "p = Holding" "owner s' = owner s" "waiters s' = waiters s - 1"
    using assms(2) False by (cases "place_of s i"; cases p) auto
  then show ?thesis
  proof cases
    case 1
    then have "Locks.try_lock s i = (True, s')" by (subst s') (simp add: try_lock_def move_def)
    with 1 show ?thesis by (blast intro: condvar_step.lock)
  next
    case 2
    then have "s' = unlock s i" by (subst s') (simp add: unlock_def move_def)
    with 2 show ?thesis by (blast intro: condvar_step.unlock)
  next
    case 3
    then have "s' = wait_count s i" by (subst s') (simp add: wait_count_def move_def)
    with 3 show ?thesis by (blast intro: condvar_step.count)
  next
    case 4
    then have "s' = wait_sleep s i" by (subst s') (simp add: wait_sleep_def move_def)
    with 4 show ?thesis by (blast intro: condvar_step.sleep)
  next
    case 5
    then have "s' = move s i Woken" by (subst s') (simp add: move_def)
    with 5 show ?thesis by (blast intro: condvar_step.spurious)
  next
    case 6
    then have "s' = wait_reacquire s i" by (subst s') (simp add: wait_reacquire_def move_def)
    with 6 show ?thesis by (blast intro: condvar_step.reacquire)
  next
    case 7
    then have "s' = wait_return s i" by (subst s') (simp add: wait_return_def move_def)
    with 7 show ?thesis by (blast intro: condvar_step.ret)
  qed
qed

lemma sender_lock_moves:
  assumes "sender_step cap us fr i a c a' c'"
  shows "lock_move i (sender_place a) (mutex c, recv_waiters c) (sender_place a') (mutex c', recv_waiters c')"
    and "lock_move i (elsewhere (sender_place a)) (mutex c, send_waiters c)
      (elsewhere (sender_place a')) (mutex c', send_waiters c')"
  using assms by (cases; simp)+

lemma receiver_lock_moves:
  assumes "receiver_step r c r' c'"
  shows "lock_move 0 (receiver_place r) (mutex c, send_waiters c) (receiver_place r') (mutex c', send_waiters c')"
    and "lock_move 0 (elsewhere (receiver_place r)) (mutex c, recv_waiters c)
      (elsewhere (receiver_place r')) (mutex c', recv_waiters c')"
  using assms by (cases; simp)+

lemma place_cases [simp]:
  "holds_mutex (elsewhere p) = holds_mutex p"
  "sender_place (roused a) = (if sender_place a = Asleep then Woken else sender_place a)"
  "asleep a \<longleftrightarrow> sender_place a = Asleep"
  "elsewhere (sender_place (roused a)) = elsewhere (sender_place a)"
  "elsewhere (receiver_place (rouse_receiver r)) = elsewhere (receiver_place r)"
proof -
  show "holds_mutex (elsewhere p) = holds_mutex p" by (cases p) simp_all
  show "sender_place (roused a) = (if sender_place a = Asleep then Woken else sender_place a)"
    "asleep a \<longleftrightarrow> sender_place a = Asleep" "elsewhere (sender_place (roused a)) = elsewhere (sender_place a)"
    by (cases a; simp)+
  show "elsewhere (receiver_place (rouse_receiver r)) = elsewhere (receiver_place r)"
    by (simp add: rouse_receiver_def)
qed

lemma elsewhere_awake [simp]: "elsewhere p \<noteq> Asleep"
  by (cases p) simp_all

lemma on_send_update:
  "place_of (on_send (s\<lparr>acts := (acts s)(t := a), room := c\<rparr>)) = (place_of (on_send s))(Suc t := elsewhere (sender_place a))"
  "place_of (on_send (s\<lparr>ract := r, room := c\<rparr>)) = (place_of (on_send s))(0 := receiver_place r)"
  "place_of (on_recv (s\<lparr>acts := (acts s)(t := a), room := c\<rparr>)) = (place_of (on_recv s))(Suc t := sender_place a)"
  "place_of (on_recv (s\<lparr>ract := r, room := c\<rparr>)) = (place_of (on_recv s))(0 := elsewhere (receiver_place r))"
  by (auto simp: on_send_def on_recv_def fun_eq_iff split: nat.split)

lemma on_send_fields [simp]:
  "owner (on_send s) = mutex (room s)" "waiters (on_send s) = send_waiters (room s)"
  "place_of (on_send s) 0 = receiver_place (ract s)"
  "place_of (on_send s) (Suc t) = elsewhere (sender_place (acts s t))"
  by (simp_all add: on_send_def)

lemma on_recv_fields [simp]:
  "owner (on_recv s) = mutex (room s)" "waiters (on_recv s) = recv_waiters (room s)"
  "place_of (on_recv s) 0 = elsewhere (receiver_place (ract s))"
  "place_of (on_recv s) (Suc t) = sender_place (acts s t)"
  by (simp_all add: on_recv_def)

lemma on_send_rouse:
  assumes "sender_place (acts s t) = Outside"
  shows "on_send (s\<lparr>acts := (acts s)(t := A_Idle), ract := rouse_receiver (ract s)\<rparr>) =
    snd (notify_one (on_send s) (if ract s = R_Asleep then Some 0 else None))"
  using assms
  by (intro condvar_eqI) (auto simp: on_send_def notify_one_def move_def rouse_receiver_def fun_eq_iff split: nat.split)

lemma on_recv_rouse:
  assumes "sender_place (acts s t) = Outside"
  shows "on_recv (s\<lparr>acts := (acts s)(t := A_Idle), ract := rouse_receiver (ract s)\<rparr>) = on_recv s"
  using assms by (intro condvar_eqI) (auto simp: on_recv_def fun_eq_iff split: nat.split)

lemma asleep_on_send: "place_of (on_send s) i = Asleep \<longleftrightarrow> i = 0 \<and> ract s = R_Asleep"
  by (cases i; cases "ract s") (auto simp: on_send_def)

lemma notify_send_step:
  "condvar_step (on_send s) (snd (notify_one (on_send s) (if ract s = R_Asleep then Some 0 else None)))"
  by (rule condvar_step.signal) (simp add: signal_choice_def asleep_on_send)

lemma on_send_step:
  assumes "thread_step cap s s'"
  shows "on_send s' = on_send s \<or> condvar_step (on_send s) (on_send s')"
  using assms
proof cases
  case (sender t a c)
  then show ?thesis
    using sender_lock_moves(2) [OF sender(2)]
    by (intro lock_move_step [OF on_send_update(1) [where s = s and t = t and a = a and c = c, folded sender(1)]]) simp
next
  case (receiver r c)
  then show ?thesis
    using receiver_lock_moves(1) [OF receiver(2)]
    by (intro lock_move_step [OF on_send_update(2) [where s = s and r = r and c = c, folded receiver(1)]]) simp
next
  case (send_notify t h)
  then show ?thesis using notify_send_step [of s] by (simp add: on_send_rouse)
next
  case (drop_notify t)
  then show ?thesis using notify_send_step [of s] by (simp add: on_send_rouse)
next
  case (recv_notify w)
  then have "on_send s' = on_send s"
    by (intro condvar_eqI) (auto simp: on_send_def rouse_one_def fun_eq_iff split: nat.split option.split)
  then show ?thesis by simp
next
  case close_notify
  then have "on_send s' = on_send s"
    by (intro condvar_eqI) (auto simp: on_send_def fun_eq_iff split: nat.split)
  then show ?thesis by simp
qed

lemma on_recv_step:
  assumes "thread_step cap s s'"
  shows "on_recv s' = on_recv s \<or> condvar_step (on_recv s) (on_recv s')"
  using assms
proof cases
  case (sender t a c)
  then show ?thesis
    using sender_lock_moves(1) [OF sender(2)]
    by (intro lock_move_step [OF on_send_update(3) [where s = s and t = t and a = a and c = c, folded sender(1)]]) simp
next
  case (receiver r c)
  then show ?thesis
    using receiver_lock_moves(2) [OF receiver(2)]
    by (intro lock_move_step [OF on_send_update(4) [where s = s and r = r and c = c, folded receiver(1)]]) simp
next
  case (send_notify t h)
  then show ?thesis by (simp add: on_recv_rouse)
next
  case (drop_notify t)
  then show ?thesis by (simp add: on_recv_rouse)
next
  case (recv_notify w)
  have "on_recv s' = snd (notify_one (on_recv s) (map_option Suc w))"
    using recv_notify
    by (intro condvar_eqI)
      (auto simp: on_recv_def rouse_one_def picked_def notify_one_def move_def fun_eq_iff split: nat.split option.splits)
  moreover have "signal_choice (on_recv s) (map_option Suc w)"
    using recv_notify(3)
    by (cases w) (auto simp: signal_choice_def picked_def on_recv_def split: nat.split)
  ultimately show ?thesis using condvar_step.signal [of "on_recv s" "map_option Suc w"] by simp
next
  case close_notify
  then have "on_recv s' = snd (notify_all (on_recv s))"
    by (intro condvar_eqI) (auto simp: on_recv_def notify_all_def wake_all_def fun_eq_iff split: nat.split)
  then show ?thesis using condvar_step.broadcast [of "on_recv s"] by simp
qed

interpretation send_locks: step_refinement "\<lambda>s. s = threads_start" "thread_step cap"
  "\<lambda>s. s = condvar_new" condvar_step on_send "\<lambda>_. True" for cap
proof unfold_locales
  fix s :: "'a threads"
  assume "s = threads_start"
  then show "on_send s = condvar_new \<and> True"
    by (simp add: on_send_def condvar_new_def threads_start_def fun_eq_iff split: nat.split)
qed (simp add: on_send_step)

interpretation recv_locks: step_refinement "\<lambda>s. s = threads_start" "thread_step cap"
  "\<lambda>s. s = condvar_new" condvar_step on_recv "\<lambda>_. True" for cap
proof unfold_locales
  fix s :: "'a threads"
  assume "s = threads_start"
  then show "on_recv s = condvar_new \<and> True"
    by (simp add: on_recv_def condvar_new_def threads_start_def fun_eq_iff split: nat.split)
qed (simp add: on_recv_step)

abbreviation threads_reach :: "nat \<Rightarrow> 'a threads \<Rightarrow> bool" where
  "threads_reach cap \<equiv> reach (\<lambda>s. s = threads_start) (thread_step cap)"

text \<open>Mutual exclusion, from Locks: the thread with the guard is the one the mutex belongs to.\<close>

lemma one_holder:
  assumes "threads_reach cap s"
  shows "holds_mutex (sender_place (acts s t)) \<longleftrightarrow> mutex (room s) = Some (Suc t)"
    and "holds_mutex (receiver_place (ract s)) \<longleftrightarrow> mutex (room s) = Some 0"
proof -
  have "condvar_inv (on_recv s)" "condvar_inv (on_send s)"
    using condvar_system.reachable_inv recv_locks.refined [OF assms] send_locks.refined [OF assms] by blast+
  then have "holds_mutex (place_of (on_recv s) (Suc t)) \<longleftrightarrow> owner (on_recv s) = Some (Suc t)"
    "holds_mutex (place_of (on_send s) 0) \<longleftrightarrow> owner (on_send s) = Some 0"
    unfolding condvar_inv_def by blast+
  then show "holds_mutex (sender_place (acts s t)) \<longleftrightarrow> mutex (room s) = Some (Suc t)"
    "holds_mutex (receiver_place (ract s)) \<longleftrightarrow> mutex (room s) = Some 0" by simp_all
qed

end
