(* ===== verification/Channel_Refinement.thy ===== *)
theory Channel_Refinement
  imports Channel_Threads
begin

text \<open>
  The threads of the theory Channel_Threads refine the system of the theory Channels: each critical section
  is one step there, taken where the state changes or the thread falls asleep, and a thread that waits for
  the mutex has not moved. So what Channels proves of order, capacity and wake-ups holds of the threads.
\<close>

section \<open>The abstraction\<close>

fun abs_call :: "'a act \<Rightarrow> 'a call" where
  "abs_call (A_Lock h v) = Trying h v" | "abs_call (A_Loop h v) = Trying h v"
| "abs_call (A_Wait h v) = Trying h v" | "abs_call (A_Counted h v) = Trying h v"
| "abs_call (A_Asleep h v) = Sleeping h v"
| "abs_call (A_Woken h v) = Trying h v" | "abs_call (A_Returned h v) = Trying h v"
| "abs_call (A_Queued h) = Notifying h" | "abs_call (A_Notify h) = Notifying h"
| "abs_call _ = Idle"

fun abs_recv :: "ract \<Rightarrow> receiving" where
  "abs_recv R_Lock = RTrying" | "abs_recv R_Loop = RTrying" | "abs_recv R_Wait = RTrying"
| "abs_recv R_Counted = RTrying" | "abs_recv R_Asleep = RSleeping"
| "abs_recv R_Woken = RTrying" | "abs_recv R_Returned = RTrying"
| "abs_recv R_Took = RNotifying" | "abs_recv R_Notify = RNotifying"
| "abs_recv X_Done = RDropping" | "abs_recv X_Notify = RDropping" | "abs_recv R_Gone = RGone"
| "abs_recv _ = RIdle"

text \<open>The thread that has taken the last sender away and has not yet said so.\<close>

fun takes_last :: "'a act \<Rightarrow> bool" where
  "takes_last (D_Done gone) = gone" | "takes_last D_Notify = True" | "takes_last _ = False"

definition abs_channel :: "'a threads \<Rightarrow> 'a system" where
  "abs_channel s =
     \<lparr>shared = state (room s), calls = (\<lambda>t. abs_call (acts s t)), handles = live (room s),
      last_gone = (\<exists>t. takes_last (acts s t)), receiving = abs_recv (ract s),
      sent = log_sent (room s), received = log_received (room s)\<rparr>"

lemma abs_channel_simps [simp]:
  "shared (abs_channel s) = state (room s)" "calls (abs_channel s) t = abs_call (acts s t)"
  "handles (abs_channel s) = live (room s)" "last_gone (abs_channel s) = (\<exists>t. takes_last (acts s t))"
  "receiving (abs_channel s) = abs_recv (ract s)" "sent (abs_channel s) = log_sent (room s)"
  "received (abs_channel s) = log_received (room s)"
  by (simp_all add: abs_channel_def)

section \<open>What the threads keep\<close>

text \<open>A thread about to wait still has the reason to: it has had the mutex since it looked.\<close>

fun about_to_wait :: "'a act \<Rightarrow> bool" where
  "about_to_wait (A_Wait h v) = True" | "about_to_wait (A_Counted h v) = True" | "about_to_wait _ = False"

definition no_room :: "nat \<Rightarrow> 'a room \<Rightarrow> bool" where
  "no_room cap c \<longleftrightarrow> ch_receiver (state c) \<and> cap \<le> length (ch_queue (state c))"

definition nothing_queued :: "'a room \<Rightarrow> bool" where
  "nothing_queued c \<longleftrightarrow> ch_queue (state c) = [] \<and> ch_senders (state c) \<noteq> 0"

definition decided :: "nat \<Rightarrow> 'a threads \<Rightarrow> bool" where
  "decided cap s \<longleftrightarrow> (\<forall>t. about_to_wait (acts s t) \<longrightarrow> no_room cap (room s))
     \<and> (ract s = R_Wait \<or> ract s = R_Counted \<longrightarrow> nothing_queued (room s))"

text \<open>The discipline of ownership: a sender in use is there, one being dropped or made is in no other use, and
  one thread takes the last away.\<close>

definition in_use_live :: "'a threads \<Rightarrow> bool" where
  "in_use_live s \<longleftrightarrow> (\<forall>t h. involves h (acts s t) \<longrightarrow> h \<in> live (room s))"

definition owned_alone :: "'a threads \<Rightarrow> bool" where
  "owned_alone s \<longleftrightarrow> (\<forall>t u h. has_alone h (acts s t) \<longrightarrow> involves h (acts s u) \<longrightarrow> t = u)"

definition one_last :: "'a threads \<Rightarrow> bool" where
  "one_last s \<longleftrightarrow> (\<forall>t u. takes_last (acts s t) \<longrightarrow> takes_last (acts s u) \<longrightarrow> t = u)"

definition thread_inv :: "nat \<Rightarrow> 'a threads \<Rightarrow> bool" where
  "thread_inv cap s \<longleftrightarrow> decided cap s \<and> in_use_live s \<and> owned_alone s \<and> one_last s"

lemma roused_simps [simp]:
  "involves h (roused a) = involves h a" "has_alone h (roused a) = has_alone h a" "takes_last (roused a) = takes_last a"
  "about_to_wait (roused a) = about_to_wait a" "abs_call (roused a) = woken (abs_call a)"
  by (cases a; simp)+

lemma rouse_one_simps [simp]:
  "involves h (rouse_one as w t) = involves h (as t)" "has_alone h (rouse_one as w t) = has_alone h (as t)"
  "takes_last (rouse_one as w t) = takes_last (as t)" "about_to_wait (rouse_one as w t) = about_to_wait (as t)"
  by (auto simp: rouse_one_def split: option.split)

lemma rouse_receiver_simps [simp]:
  "rouse_receiver r = R_Wait \<longleftrightarrow> r = R_Wait" "rouse_receiver r = R_Counted \<longleftrightarrow> r = R_Counted"
  by (auto simp: rouse_receiver_def)

lemma alone_involves: "has_alone h a \<Longrightarrow> involves h a"
  by (cases a) auto

lemma wait_holds: "about_to_wait a \<Longrightarrow> holds_mutex (sender_place a)"
  by (cases a) simp_all

text \<open>What one step of a sender can do to the facts above.\<close>

lemma sender_step_state:
  assumes "sender_step cap us fr i a c a' c'"
  shows "state c' = state c \<or> holds_mutex (sender_place a)"
    and "about_to_wait a' \<Longrightarrow> state c' = state c \<and> (about_to_wait a \<or> no_room cap c)"
    and "takes_last a' \<Longrightarrow> takes_last a \<or> (\<exists>h. a = D_Holding h)"
  using assms by (cases; auto simp: no_room_def send_turn_def split: if_splits)+

lemma sender_step_use:
  assumes "sender_step cap us fr i a c a' c'"
  shows "involves h a' \<Longrightarrow> involves h a \<or> us h \<or> fr h \<or> h \<notin> live c \<and> h \<in> live c'"
    and "has_alone h a' \<Longrightarrow> has_alone h a \<or> fr h \<or> h \<notin> live c"
    and "h \<in> live c \<Longrightarrow> h \<in> live c' \<or> has_alone h a \<and> \<not> involves h a'"
  using assms by (cases; auto split: if_splits)+

lemma receiver_step_state:
  assumes "receiver_step r c r' c'"
  shows "state c' = state c \<or> holds_mutex (receiver_place r)"
    and "r' = R_Wait \<or> r' = R_Counted \<Longrightarrow> state c' = state c \<and> (r = R_Wait \<or> r = R_Counted \<or> nothing_queued c)"
    and "live c' = live c"
  using assms by (cases; auto simp: nothing_queued_def recv_turn_def split: if_splits list.splits)+

lemma state_facts: "state c' = state c \<Longrightarrow> no_room cap c' = no_room cap c \<and> nothing_queued c' = nothing_queued c"
  by (simp add: no_room_def nothing_queued_def)

lemma decided_sender:
  assumes "threads_reach cap s" "decided cap s"
    and "sender_step cap (usable s) (unused s) (Suc t) (acts s t) (room s) a c"
  shows "decided cap (s\<lparr>acts := (acts s)(t := a), room := c\<rparr>)"
proof -
  note S = sender_step_state [OF assms(3)]
  have same: "state c = state (room s)" if "mutex (room s) \<noteq> Some (Suc t)"
    using S(1) one_holder(1) [OF assms(1), of t] that by blast
  have "no_room cap c" if w: "about_to_wait (((acts s)(t := a)) u)" for u
  proof (cases "u = t")
    case True
    then show ?thesis using w S(2) assms(2) state_facts [of c "room s" cap] by (auto simp: decided_def)
  next
    case False
    then have u: "about_to_wait (acts s u)" using w by simp
    then have "mutex (room s) = Some (Suc u)" using one_holder(1) [OF assms(1)] wait_holds by blast
    then show ?thesis using False u same assms(2) state_facts [of c "room s" cap] by (auto simp: decided_def)
  qed
  moreover have "nothing_queued c" if "ract s = R_Wait \<or> ract s = R_Counted"
  proof -
    have "mutex (room s) = Some 0" using one_holder(2) [OF assms(1)] that by auto
    then show ?thesis using that same assms(2) state_facts [of c "room s" cap] by (auto simp: decided_def)
  qed
  ultimately show ?thesis by (auto simp: decided_def)
qed

lemma decided_receiver:
  assumes "threads_reach cap s" "decided cap s" "receiver_step (ract s) (room s) r c"
  shows "decided cap (s\<lparr>ract := r, room := c\<rparr>)"
proof -
  note R = receiver_step_state [OF assms(3)]
  have "no_room cap c" if "about_to_wait (acts s u)" for u
  proof -
    have "mutex (room s) = Some (Suc u)" using that one_holder(1) [OF assms(1)] wait_holds by blast
    then have "state c = state (room s)" using R(1) one_holder(2) [OF assms(1)] by auto
    then show ?thesis using that assms(2) state_facts [of c "room s" cap] by (auto simp: decided_def)
  qed
  moreover have "nothing_queued c" if "r = R_Wait \<or> r = R_Counted"
    using R(2) [OF that] assms(2) state_facts [of c "room s" cap] by (auto simp: decided_def)
  ultimately show ?thesis by (auto simp: decided_def)
qed

lemma in_use_sender:
  assumes "in_use_live s" "owned_alone s"
    and "sender_step cap (usable s) (unused s) i (acts s t) (room s) a c"
  shows "in_use_live (s\<lparr>acts := (acts s)(t := a), room := c\<rparr>)"
proof -
  note U = sender_step_use [OF assms(3)]
  have "h \<in> live c" if i: "involves h (((acts s)(t := a)) u)" for h u
  proof (cases "u = t")
    case True
    then have a: "involves h a" using i by simp
    then have "h \<in> live (room s) \<or> h \<in> live c"
      using U(1) [OF a] assms(1) by (auto simp: in_use_live_def usable_def unused_def)
    then show ?thesis using U(3) [of h] a by blast
  next
    case False
    then have u: "involves h (acts s u)" using i by simp
    then have "h \<in> live (room s)" using assms(1) by (auto simp: in_use_live_def)
    moreover have "\<not> has_alone h (acts s t)" using u False assms(2) by (auto simp: owned_alone_def)
    ultimately show ?thesis using U(3) [of h] by blast
  qed
  then show ?thesis by (simp add: in_use_live_def)
qed

lemma owned_sender:
  assumes "in_use_live s" "owned_alone s"
    and "sender_step cap (usable s) (unused s) i (acts s t) (room s) a c"
  shows "owned_alone (s\<lparr>acts := (acts s)(t := a), room := c\<rparr>)" (is "owned_alone ?s")
proof -
  note U = sender_step_use [OF assms(3)]
  have live: "involves h (acts s u) \<Longrightarrow> h \<in> live (room s)" for h u
    using assms(1) by (auto simp: in_use_live_def)
  have alone: "has_alone h (acts s u) \<Longrightarrow> involves h (acts s w) \<Longrightarrow> u = w" for h u w
    using assms(2) by (auto simp: owned_alone_def)
  have new_owner: "\<not> involves h (acts s u)" if "has_alone h a" "u \<noteq> t" for h u
    using U(2) [OF that(1)] alone [of h t u] live [of h u] that(2) by (auto simp: unused_def)
  have new_user: "\<not> has_alone h (acts s u)" if "involves h a" "u \<noteq> t" for h u
    using U(1) [OF that(1)] alone [of h u t] live [of h u] alone_involves [of h "acts s u"] that(2)
    by (auto simp: unused_def usable_def)
  have "u = w" if "has_alone h (acts ?s u)" "involves h (acts ?s w)" for h u w
  proof (rule ccontr)
    assume ne: "u \<noteq> w"
    consider "u = t" | "w = t" | "u \<noteq> t" "w \<noteq> t" by blast
    then show False
    proof cases
      case 1
      then show ?thesis using that ne new_owner [of h w] by simp
    next
      case 2
      then show ?thesis using that ne new_user [of h u] by simp
    next
      case 3
      then have "has_alone h (acts s u)" "involves h (acts s w)" using that by simp_all
      from alone [OF this] ne show ?thesis by contradiction
    qed
  qed
  then show ?thesis unfolding owned_alone_def by blast
qed

text \<open>Whoever takes a sender away finds it there, so nobody has taken the last one before.\<close>

lemma nobody_last:
  assumes "handle_inv (abs_channel s)" "in_use_live s" "acts s t = D_Holding h"
  shows "\<not> takes_last (acts s u)"
proof -
  have "involves h (acts s t)" using assms(3) by simp
  then have "live (room s) \<noteq> {}" using assms(2) by (auto simp: in_use_live_def)
  then show ?thesis using assms(1) by (auto simp: handle_inv_def)
qed

lemma one_last_sender:
  assumes "handle_inv (abs_channel s)" "in_use_live s" "one_last s"
    and "sender_step cap us fr i (acts s t) (room s) a c"
  shows "one_last (s\<lparr>acts := (acts s)(t := a), room := c\<rparr>)" (is "one_last ?s")
proof -
  have one: "takes_last (acts s u) \<Longrightarrow> takes_last (acts s w) \<Longrightarrow> u = w" for u w
    using assms(3) by (auto simp: one_last_def)
  have new: "\<not> takes_last (acts s u)" if "takes_last a" "u \<noteq> t" for u
    using sender_step_state(3) [OF assms(4) that(1)] one [of t u] nobody_last [OF assms(1,2)] that(2) by blast
  have "u = w" if "takes_last (acts ?s u)" "takes_last (acts ?s w)" for u w
  proof (rule ccontr)
    assume ne: "u \<noteq> w"
    consider "u = t" | "w = t" | "u \<noteq> t" "w \<noteq> t" by blast
    then show False
    proof cases
      case 1
      then show ?thesis using that ne new [of w] by simp
    next
      case 2
      then show ?thesis using that ne new [of u] by simp
    next
      case 3
      then have "takes_last (acts s u)" "takes_last (acts s w)" using that by simp_all
      from one [OF this] ne show ?thesis by contradiction
    qed
  qed
  then show ?thesis unfolding one_last_def by blast
qed

text \<open>A step that gives every thread a place with the same uses, and may end a call.\<close>

lemma thread_inv_less:
  assumes "thread_inv cap s"
    and "\<And>u h. involves h (acts s' u) \<Longrightarrow> involves h (acts s u)" "\<And>u h. has_alone h (acts s' u) \<Longrightarrow> has_alone h (acts s u)"
    and "\<And>u. takes_last (acts s' u) \<Longrightarrow> takes_last (acts s u)"
    and "\<And>u. about_to_wait (acts s' u) \<Longrightarrow> about_to_wait (acts s u)"
    and "ract s' = R_Wait \<or> ract s' = R_Counted \<Longrightarrow> ract s = R_Wait \<or> ract s = R_Counted" "room s' = room s"
  shows "thread_inv cap s'"
proof -
  have "decided cap s'" using assms(1,5,6,7) unfolding thread_inv_def decided_def by metis
  moreover have "in_use_live s'" using assms(1,2,7) unfolding thread_inv_def in_use_live_def by metis
  moreover have "owned_alone s'" using assms(1,2,3) unfolding thread_inv_def owned_alone_def by metis
  moreover have "one_last s'" using assms(1,4) unfolding thread_inv_def one_last_def by metis
  ultimately show ?thesis by (simp add: thread_inv_def)
qed

lemma thread_inv_step:
  assumes "threads_reach cap s" "chan_inv cap (abs_channel s)" "thread_inv cap s" "thread_step cap s s'"
  shows "thread_inv cap s'"
  using assms(4)
proof cases
  case (sender t a c)
  then show ?thesis
    using assms(2,3) decided_sender [OF assms(1)] in_use_sender [of s] owned_sender [of s] one_last_sender [of s]
    by (simp add: thread_inv_def chan_inv_def)
next
  case (receiver r c)
  have "live c = live (room s)" by (rule receiver_step_state(3) [OF receiver(2)])
  then show ?thesis using assms(3) decided_receiver [OF assms(1) _ receiver(2)] receiver(1)
    by (simp add: thread_inv_def in_use_live_def owned_alone_def one_last_def)
next
  case (send_notify t h)
  then show ?thesis by (intro thread_inv_less [OF assms(3)]) (auto split: if_splits)
next
  case (drop_notify t)
  then show ?thesis by (intro thread_inv_less [OF assms(3)]) (auto split: if_splits)
next
  case (recv_notify w)
  then show ?thesis by (intro thread_inv_less [OF assms(3)]) auto
next
  case close_notify
  then show ?thesis by (intro thread_inv_less [OF assms(3)]) auto
qed

section \<open>The refinement\<close>

lemma abs_sender:
  assumes "takes_last a = takes_last (acts s t)"
  shows "abs_channel (s\<lparr>acts := (acts s)(t := a), room := c\<rparr>) = (set_call (abs_channel s) t (abs_call a))
    \<lparr>shared := state c, handles := live c, sent := log_sent c, received := log_received c\<rparr>"
proof -
  have "(\<exists>u. takes_last (((acts s)(t := a)) u)) = (\<exists>u. takes_last (acts s u))"
    using assms by (metis fun_upd_apply)
  then show ?thesis by (auto simp: abs_channel_def set_call_def fun_eq_iff)
qed

lemma abs_sender_same:
  assumes "takes_last a = takes_last (acts s t)" "abs_call a = abs_call (acts s t)"
    and "state c = state (room s)" "live c = live (room s)" "log_sent c = log_sent (room s)"
      "log_received c = log_received (room s)"
  shows "abs_channel (s\<lparr>acts := (acts s)(t := a), room := c\<rparr>) = abs_channel s"
  unfolding abs_sender [OF assms(1)] using assms(2-6)
  by (auto simp: abs_channel_def set_call_def fun_eq_iff)

lemma sender_refines:
  assumes "thread_inv cap s" "chan_inv cap (abs_channel s)"
    and "sender_step cap (usable s) (unused s) i (acts s t) (room s) a c"
  shows "abs_channel (s\<lparr>acts := (acts s)(t := a), room := c\<rparr>) = abs_channel s
    \<or> chan_step cap (abs_channel s) (abs_channel (s\<lparr>acts := (acts s)(t := a), room := c\<rparr>))"
  (is "abs_channel ?s = _ \<or> _")
  using assms(3)
proof cases
  case (send_call h v)
  have "abs_channel ?s = set_call (abs_channel s) t (Trying h v)"
    using send_call by (subst abs_sender) (simp_all add: abs_channel_def set_call_def)
  then show ?thesis using chan_step.call_send [of "abs_channel s" t h cap v] send_call by (simp add: usable_def)
next
  case (send_refused v v' st h)
  have "abs_channel ?s = set_call (abs_channel s) t Idle"
    using send_refused by (subst abs_sender) (simp_all add: abs_channel_def set_call_def)
  then show ?thesis using chan_step.refused [of "abs_channel s" t h v cap v' st] send_refused by (simp)
next
  case (send_queued v st h)
  have "abs_channel ?s = (set_call (abs_channel s) t (Notifying h))\<lparr>shared := st, sent := sent (abs_channel s) @ [v]\<rparr>"
    using send_queued by (subst abs_sender) (simp_all add: abs_channel_def set_call_def)
  then show ?thesis using chan_step.queued [of "abs_channel s" t h v cap st] send_queued by (simp)
next
  case (send_sleep h v)
  have "no_room cap (room s)"
    using assms(1) send_sleep(1) unfolding thread_inv_def decided_def by (metis about_to_wait.simps(2))
  then have full: "send_turn cap (state (room s)) v = (Full, state (room s))"
    by (simp add: send_turn_def no_room_def)
  have "abs_channel ?s = set_call (abs_channel s) t (Sleeping h v)"
    using send_sleep by (subst abs_sender) (simp_all add: abs_channel_def set_call_def)
  then show ?thesis using chan_step.full [of "abs_channel s" t h v cap "state (room s)"] full send_sleep by (simp)
next
  case (send_spurious h v)
  have "abs_channel ?s = set_call (abs_channel s) t (Trying h v)"
    using send_spurious by (subst abs_sender) (simp_all add: abs_channel_def set_call_def)
  then show ?thesis using chan_step.spurious_send [of "abs_channel s" t cap] send_spurious by (simp)
next
  case (clone_count h' h)
  then have "h \<in> live (room s)"
    using assms(1) unfolding thread_inv_def in_use_live_def by (metis involves.simps(13))
  moreover have "abs_channel ?s = (abs_channel s)\<lparr>shared := clone_sender (state (room s)), handles := insert h' (live (room s))\<rparr>"
    using clone_count by (subst abs_sender) (auto simp: abs_channel_def set_call_def fun_eq_iff)
  ultimately show ?thesis using clone_count chan_step.clone_handle [of h "abs_channel s" h' cap] by simp
next
  case (drop_count gone st h)
  have h: "h \<in> live (room s)"
    using assms(1) drop_count unfolding thread_inv_def in_use_live_def by (metis involves.simps(16))
  have none: "\<not> takes_last (acts s u)" for u
    using nobody_last [of s t h u] assms(1,2) drop_count by (simp add: thread_inv_def chan_inv_def)
  have free: "\<not> on_handle h (abs_call (acts s u))" for u
  proof
    assume o: "on_handle h (abs_call (acts s u))"
    then have "involves h (acts s u)" by (cases "acts s u") auto
    then have "u = t" using assms(1) drop_count unfolding thread_inv_def owned_alone_def by (metis has_alone.simps(2))
    with o drop_count show False by simp
  qed
  have "abs_channel (s\<lparr>acts := (acts s)(t := a), room := c\<rparr>) =
      (abs_channel s)\<lparr>shared := st, handles := live (room s) - {h}, last_gone := gone\<rparr>"
    using drop_count none by (auto simp: abs_channel_def fun_eq_iff)
  then show ?thesis using h free drop_count(4) chan_step.drop_handle [of h "abs_channel s" gone st cap] by simp
next
  case (drop_unlock gone)
  then show ?thesis by (intro disjI1 abs_sender_same) auto
qed (intro disjI1 abs_sender_same; simp)+

lemma abs_receiver_same:
  assumes "abs_recv r = abs_recv (ract s)" "state c = state (room s)" "live c = live (room s)"
    "log_sent c = log_sent (room s)" "log_received c = log_received (room s)"
  shows "abs_channel (s\<lparr>ract := r, room := c\<rparr>) = abs_channel s"
  using assms by (simp add: abs_channel_def)

lemma receiver_refines:
  assumes "thread_inv cap s" "receiver_step (ract s) (room s) r c"
  shows "abs_channel (s\<lparr>ract := r, room := c\<rparr>) = abs_channel s
    \<or> chan_step cap (abs_channel s) (abs_channel (s\<lparr>ract := r, room := c\<rparr>))"
  (is "abs_channel ?s = _ \<or> _")
  using assms(2)
proof cases
  case recv_call
  have "abs_channel ?s = (abs_channel s)\<lparr>receiving := RTrying\<rparr>"
    using recv_call by (simp add: abs_channel_def)
  then show ?thesis using chan_step.call_recv [of "abs_channel s" cap] recv_call by simp
next
  case (recv_took v st)
  have "abs_channel ?s = (abs_channel s)\<lparr>shared := st, receiving := RNotifying, received := received (abs_channel s) @ [v]\<rparr>"
    using recv_took by (simp add: abs_channel_def)
  then show ?thesis using chan_step.took [of "abs_channel s" v st cap] recv_took by simp
next
  case (recv_closed st)
  have "abs_channel ?s = (abs_channel s)\<lparr>receiving := RIdle\<rparr>"
    using recv_closed by (simp add: abs_channel_def)
  then show ?thesis using chan_step.disconnected [of "abs_channel s" st cap] recv_closed by simp
next
  case recv_sleep
  have "nothing_queued (room s)" using assms(1) recv_sleep by (simp add: thread_inv_def decided_def)
  then have empty: "recv_turn (state (room s)) = (NothingYet, state (room s))"
    by (simp add: recv_turn_def nothing_queued_def)
  have "abs_channel ?s = (abs_channel s)\<lparr>receiving := RSleeping\<rparr>"
    using recv_sleep by (simp add: abs_channel_def)
  then show ?thesis using chan_step.nothing_yet [of "abs_channel s" "state (room s)" cap] empty recv_sleep by simp
next
  case recv_spurious
  have "abs_channel ?s = (abs_channel s)\<lparr>receiving := RTrying\<rparr>"
    using recv_spurious by (simp add: abs_channel_def)
  then show ?thesis using chan_step.spurious_recv [of "abs_channel s" cap] recv_spurious by simp
next
  case (try_took v st)
  have "abs_channel ?s = (abs_channel s)\<lparr>shared := st, receiving := RNotifying, received := received (abs_channel s) @ [v]\<rparr>"
    using try_took by (simp add: abs_channel_def)
  then show ?thesis using chan_step.try_took [of "abs_channel s" v st cap] try_took by simp
next
  case close_mark
  have "abs_channel ?s = (abs_channel s)\<lparr>shared := drop_receiver (state (room s)), receiving := RDropping\<rparr>"
    using close_mark by (simp add: abs_channel_def)
  then show ?thesis using chan_step.drop_recv [of "abs_channel s" cap] close_mark by simp
qed (intro disjI1 abs_receiver_same; simp)+

lemma sleeping_asleep: "is_sleeping (abs_call b) \<longleftrightarrow> sender_place b = Asleep"
  by (cases b) simp_all

lemma thread_refines:
  assumes "thread_inv cap s" "chan_inv cap (abs_channel s)" "thread_step cap s s'"
  shows "abs_channel s' = abs_channel s \<or> chan_step cap (abs_channel s) (abs_channel s')"
  using assms(3)
proof cases
  case (sender t a c)
  then show ?thesis using sender_refines [OF assms(1,2)] by simp
next
  case (receiver r c)
  then show ?thesis using receiver_refines [OF assms(1)] by simp
next
  case (send_notify t h)
  have "(\<exists>u. takes_last (((acts s)(t := A_Idle)) u)) = (\<exists>u. takes_last (acts s u))"
    using send_notify(2) by (metis fun_upd_apply takes_last.simps)
  then have "abs_channel s' = wake_receiver (set_call (abs_channel s) t Idle)"
    using send_notify(1)
    by (cases "ract s") (auto simp: abs_channel_def wake_receiver_def set_call_def rouse_receiver_def fun_eq_iff)
  then show ?thesis using chan_step.notify_send [of "abs_channel s" t h cap] send_notify(2) by simp
next
  case (drop_notify t)
  have last: "takes_last (acts s t)" using drop_notify(2) by simp
  have "\<not> takes_last (((acts s)(t := A_Idle)) u)" for u
    using assms(1) last by (auto simp: thread_inv_def one_last_def)
  then have "abs_channel s' = wake_receiver ((abs_channel s)\<lparr>last_gone := False\<rparr>)"
    using drop_notify
    by (cases "ract s") (auto simp: abs_channel_def wake_receiver_def rouse_receiver_def fun_eq_iff)
  then show ?thesis using chan_step.notify_gone [of "abs_channel s" cap] last by auto
next
  case (recv_notify w)
  have "(\<exists>u. takes_last (rouse_one (acts s) w u)) = (\<exists>u. takes_last (acts s u))" by simp
  then have "abs_channel s' = wake_sender ((abs_channel s)\<lparr>receiving := RIdle\<rparr>) w"
    using recv_notify(1)
    by (auto simp: abs_channel_def wake_sender_def rouse_one_def set_call_def fun_eq_iff split: option.split)
  moreover have "chosen (abs_channel s) w"
    using recv_notify(3) by (simp add: chosen_def picked_def sleeping_asleep split: option.splits)
  ultimately show ?thesis using chan_step.notify_recv [of "abs_channel s" w cap] recv_notify(2) by simp
next
  case close_notify
  then have "abs_channel s' = wake_senders ((abs_channel s)\<lparr>receiving := RGone\<rparr>)"
    by (simp add: abs_channel_def wake_senders_def)
  then show ?thesis using chan_step.notify_dropped [of "abs_channel s" cap] close_notify(2) by simp
qed

interpretation channel_threads: step_refinement "\<lambda>s. s = threads_start" "thread_step cap"
  "\<lambda>s. s = start" "chan_step cap" abs_channel "thread_inv cap" for cap
proof unfold_locales
  fix s :: "'a threads"
  assume "s = threads_start"
  then show "abs_channel s = start \<and> thread_inv cap s"
    by (auto simp: abs_channel_def start_def threads_start_def thread_inv_def decided_def in_use_live_def
      owned_alone_def one_last_def)
next
  fix s s' :: "'a threads"
  assume a: "threads_reach cap s" "reach (\<lambda>s. s = start) (chan_step cap) (abs_channel s)" "thread_inv cap s"
    "thread_step cap s s'"
  have "chan_inv cap (abs_channel s)" by (rule channel.reachable_inv [OF a(2)])
  with a show "thread_inv cap s' \<and> (abs_channel s' = abs_channel s \<or> chan_step cap (abs_channel s) (abs_channel s'))"
    using thread_inv_step thread_refines by blast
qed

section \<open>Progress\<close>

text \<open>A thread at rest is in no call or asleep on a condition variable; of any other some step is possible as
  soon as it has the mutex or nobody has.\<close>

definition resting :: "'a act \<Rightarrow> bool" where
  "resting a \<longleftrightarrow> a = A_Idle \<or> asleep a"

definition receiver_resting :: "ract \<Rightarrow> bool" where
  "receiver_resting r \<longleftrightarrow> r \<in> {R_Idle, R_Asleep, R_Gone}"

definition at_rest :: "'a threads \<Rightarrow> bool" where
  "at_rest s \<longleftrightarrow> (\<forall>t. resting (acts s t)) \<and> receiver_resting (ract s)"

text \<open>A step in which a thread gets further with a call it has made.\<close>

definition gets_on :: "'a threads \<Rightarrow> 'a threads \<Rightarrow> bool" where
  "gets_on s s' \<longleftrightarrow> (\<exists>t. \<not> resting (acts s t) \<and> acts s' t \<noteq> acts s t)
     \<or> \<not> receiver_resting (ract s) \<and> ract s' \<noteq> ract s"

lemma loop_goes_on: "\<exists>a' c'. sender_step cap us fr i (A_Loop h v) c a' c' \<and> a' \<noteq> A_Loop h v"
proof (cases "send_turn cap (state c) v")
  case (Pair res st)
  then show ?thesis
    by (cases res) (auto dest: send_refused send_queued send_full)
qed

lemma sender_goes_on:
  assumes "\<not> resting a" "mutex c = None \<or> holds_mutex (sender_place a)" "finite (live c)"
    and "\<And>h. a \<noteq> A_Notify h" "a \<noteq> D_Notify"
  shows "\<exists>a' c'. sender_step cap us fr i a c a' c' \<and> a' \<noteq> a"
proof (cases a)
  case (A_Loop h v)
  then show ?thesis using loop_goes_on by simp
next
  case (C_Holding h)
  obtain h' where "h' \<notin> live c" using ex_new_if_finite [OF infinite_UNIV_nat assms(3)] by blast
  with C_Holding show ?thesis by (blast intro: clone_count)
next
  case (D_Holding h)
  obtain gone st where "drop_sender (state c) = (gone, st)" by fastforce
  with D_Holding show ?thesis by (blast intro: drop_count)
next
  case (D_Done gone)
  then show ?thesis using drop_unlock [of cap us fr i gone c] by (cases gone) auto
qed (use assms in \<open>auto simp: resting_def intro: sender_step.intros\<close>)

lemma receiver_goes_on:
  assumes "\<not> receiver_resting r" "mutex c = None \<or> holds_mutex (receiver_place r)" "r \<noteq> R_Notify" "r \<noteq> X_Notify"
  shows "\<exists>r' c'. receiver_step r c r' c' \<and> r' \<noteq> r"
proof (cases r)
  case R_Loop
  obtain res st where "recv_turn (state c) = (res, st)" by fastforce
  with R_Loop show ?thesis by (cases res) (auto dest: recv_took recv_closed recv_empty)
next
  case T_Holding
  obtain res st where "try_recv (state c) = (res, st)" by fastforce
  with T_Holding show ?thesis by (cases res) (auto dest: try_took try_none)
qed (use assms in \<open>auto simp: receiver_resting_def intro: receiver_step.intros\<close>)

lemma sender_advances:
  assumes "\<not> resting (acts s t)" "mutex (room s) = None \<or> holds_mutex (sender_place (acts s t))"
    and "finite (live (room s))"
  shows "\<exists>s'. thread_step cap s s' \<and> gets_on s s'"
proof -
  have adv: "gets_on s s'" if "acts s' t \<noteq> acts s t" for s'
    using that assms(1) by (auto simp: gets_on_def)
  consider h where "acts s t = A_Notify h" | "acts s t = D_Notify"
    | "\<And>h. acts s t \<noteq> A_Notify h" "acts s t \<noteq> D_Notify" by blast
  then show ?thesis
  proof cases
    case 1
    with send_notify [OF 1, of cap] adv show ?thesis by fastforce
  next
    case 2
    with drop_notify [OF 2, of cap] adv show ?thesis by fastforce
  next
    case 3
    from sender_goes_on [OF assms 3] obtain a c where
      "sender_step cap (usable s) (unused s) (Suc t) (acts s t) (room s) a c" "a \<noteq> acts s t" by blast
    with sender [of cap s t a c] adv show ?thesis by fastforce
  qed
qed

lemma receiver_advances:
  assumes "\<not> receiver_resting (ract s)" "mutex (room s) = None \<or> holds_mutex (receiver_place (ract s))"
  shows "\<exists>s'. thread_step cap s s' \<and> gets_on s s'"
proof -
  have adv: "gets_on s s'" if "ract s' \<noteq> ract s" for s'
    using that assms(1) by (auto simp: gets_on_def)
  consider "ract s = R_Notify" | "ract s = X_Notify" | "ract s \<noteq> R_Notify" "ract s \<noteq> X_Notify" by blast
  then show ?thesis
  proof cases
    case 1
    have "\<exists>w. picked (acts s) w"
      by (cases "\<exists>t. asleep (acts s t)") (auto simp: picked_def split: option.split)
    then obtain w where "picked (acts s) w" by blast
    with recv_notify [OF 1, of w cap] adv 1 show ?thesis by fastforce
  next
    case 2
    with close_notify [OF 2, of cap] adv show ?thesis by fastforce
  next
    case 3
    from receiver_goes_on [OF assms 3] obtain r c where
      "receiver_step (ract s) (room s) r c" "r \<noteq> ract s" by blast
    with receiver [of s r c cap] adv show ?thesis by fastforce
  qed
qed

lemma threads_go_on:
  assumes "threads_reach cap s" "finite (live (room s))" "\<not> at_rest s"
  shows "\<exists>s'. thread_step cap s s' \<and> gets_on s s'"
proof (cases "mutex (room s)")
  case None
  with assms(2,3) show ?thesis using sender_advances [of s] receiver_advances [of s] by (auto simp: at_rest_def)
next
  case (Some i)
  show ?thesis
  proof (cases i)
    case 0
    then have "holds_mutex (receiver_place (ract s))" using one_holder(2) [OF assms(1)] Some by simp
    moreover from this have "\<not> receiver_resting (ract s)" by (auto simp: receiver_resting_def)
    ultimately show ?thesis using receiver_advances by blast
  next
    case (Suc t)
    then have "holds_mutex (sender_place (acts s t))" using one_holder(1) [OF assms(1)] Some by simp
    moreover from this have "\<not> resting (acts s t)" by (auto simp: resting_def)
    ultimately show ?thesis using sender_advances assms(2) by blast
  qed
qed

section \<open>A full channel\<close>

text \<open>A run with two threads on a channel of capacity 1: the first queues a value, the second finds no room and
  goes to sleep.\<close>

definition two :: "nat act \<Rightarrow> nat act \<Rightarrow> nat room \<Rightarrow> nat threads" where
  "two a b c = \<lparr>acts = (\<lambda>_. A_Idle)(0 := a, 1 := b), ract = R_Idle, room = c\<rparr>"

definition at_first :: "nat room" where
  "at_first = \<lparr>mutex = None, send_waiters = 0, recv_waiters = 0, state = sync_channel, live = {0},
     log_sent = [], log_received = []\<rparr>"

definition full_room :: "nat room" where
  "full_room = at_first\<lparr>state := sync_channel\<lparr>ch_queue := [7]\<rparr>, log_sent := [7]\<rparr>"

lemma room_eqI:
  "mutex c = mutex d \<Longrightarrow> send_waiters c = send_waiters d \<Longrightarrow> recv_waiters c = recv_waiters d \<Longrightarrow> state c = state d \<Longrightarrow>
   live c = live d \<Longrightarrow> log_sent c = log_sent d \<Longrightarrow> log_received c = log_received d \<Longrightarrow> c = (d :: 'a room)"
  by simp

lemma two_steps:
  "threads_reach 1 (two a b c) \<Longrightarrow> sender_step 1 (usable (two a b c)) (unused (two a b c)) 1 a c a' c' \<Longrightarrow>
     threads_reach 1 (two a' b c')"
  "threads_reach 1 (two a b c) \<Longrightarrow> sender_step 1 (usable (two a b c)) (unused (two a b c)) 2 b c b' c' \<Longrightarrow>
     threads_reach 1 (two a b' c')"
proof -
  let ?s = "two a b c"
  assume r: "threads_reach 1 ?s"
  {
    assume "sender_step 1 (usable ?s) (unused ?s) 1 a c a' c'"
    then have "thread_step 1 ?s (?s\<lparr>acts := (acts ?s)(0 := a'), room := c'\<rparr>)"
      by (intro sender) (simp add: two_def)
    also have "?s\<lparr>acts := (acts ?s)(0 := a'), room := c'\<rparr> = two a' b c'" by (auto simp: two_def fun_eq_iff)
    finally show "threads_reach 1 (two a' b c')" by (rule reach.reach_step [OF r])
  }
  {
    assume "sender_step 1 (usable ?s) (unused ?s) 2 b c b' c'"
    then have "thread_step 1 ?s (?s\<lparr>acts := (acts ?s)(1 := b'), room := c'\<rparr>)"
      by (intro sender) (simp add: two_def eval_nat_numeral)
    also have "?s\<lparr>acts := (acts ?s)(1 := b'), room := c'\<rparr> = two a b' c'" by (auto simp: two_def fun_eq_iff)
    finally show "threads_reach 1 (two a b' c')" by (rule reach.reach_step [OF r])
  }
qed

lemma usable_two: "\<not> has_alone 0 a \<Longrightarrow> \<not> has_alone 0 b \<Longrightarrow> 0 \<in> live c \<Longrightarrow> usable (two a b c) 0"
  by (auto simp: usable_def two_def)

lemma value_queued: "threads_reach 1 (two A_Idle A_Idle full_room)"
proof -
  have r0: "threads_reach 1 (two A_Idle A_Idle at_first)"
    by (rule reach.reach_init) (auto simp: two_def at_first_def threads_start_def fun_eq_iff)
  have r1: "threads_reach 1 (two (A_Lock 0 7) A_Idle at_first)"
    by (rule two_steps(1) [OF r0], rule send_call, rule usable_two) (simp_all add: at_first_def)
  have r2: "threads_reach 1 (two (A_Loop 0 7) A_Idle (at_first\<lparr>mutex := Some 1\<rparr>))"
    by (rule two_steps(1) [OF r1], rule send_lock) (simp add: at_first_def)
  have "send_turn 1 (state (at_first\<lparr>mutex := Some 1\<rparr>)) 7 = (Queued, sync_channel\<lparr>ch_queue := [7]\<rparr>)"
    by (simp add: send_turn_def at_first_def sync_channel_def)
  from two_steps(1) [OF r2 send_queued [OF this]]
  have r3: "threads_reach 1 (two (A_Queued 0) A_Idle (full_room\<lparr>mutex := Some 1\<rparr>))"
    by (simp add: full_room_def at_first_def)
  have r4: "threads_reach 1 (two (A_Notify 0) A_Idle full_room)"
    using two_steps(1) [OF r3 send_unlock] by (simp add: full_room_def at_first_def)
  have "thread_step 1 (two (A_Notify 0) A_Idle full_room) (two A_Idle A_Idle full_room)"
    using send_notify [of "two (A_Notify 0) A_Idle full_room" 0 0 1]
    by (simp add: two_def rouse_receiver_def fun_upd_twist)
  with r4 show ?thesis by (rule reach.reach_step)
qed

definition second_asleep :: "nat threads" where
  "second_asleep = two A_Idle (A_Asleep 0 8) (full_room\<lparr>recv_waiters := 1\<rparr>)"

lemma second_asleep_reached: "threads_reach 1 second_asleep"
proof -
  have r1: "threads_reach 1 (two A_Idle (A_Lock 0 8) full_room)"
    by (rule two_steps(2) [OF value_queued], rule send_call, rule usable_two) (simp_all add: full_room_def at_first_def)
  have r2: "threads_reach 1 (two A_Idle (A_Loop 0 8) (full_room\<lparr>mutex := Some 2\<rparr>))"
    by (rule two_steps(2) [OF r1], rule send_lock) (simp add: full_room_def at_first_def)
  have "fst (send_turn 1 (state (full_room\<lparr>mutex := Some 2\<rparr>)) 8) = Full"
    by (simp add: send_turn_def full_room_def sync_channel_def)
  then obtain st where "send_turn 1 (state (full_room\<lparr>mutex := Some 2\<rparr>)) 8 = (Full, st)" by (metis prod.collapse)
  from two_steps(2) [OF two_steps(2) [OF r2 send_full [OF this]] send_count]
  have "threads_reach 1 (two A_Idle (A_Counted 0 8) (full_room\<lparr>mutex := Some 2, recv_waiters := 1\<rparr>))"
    by (simp add: full_room_def at_first_def)
  from two_steps(2) [OF this send_sleep] show ?thesis
    by (simp add: second_asleep_def full_room_def at_first_def)
qed

section \<open>Properties\<close>

text \<open>C5 (refinement). The code's channel is the abstract one. Every state its threads reach, taking the mutex,
  waiting, waking and notifying one call at a time, is with critical sections collapsed a state of the
  theory Channels, whose values arrive in order and whose wake-ups are not lost; and it is, seen from
  either of its two condition variables, a state of the theory Locks, so that one thread at most is
  inside the mutex, \<open>on_send\<close> only ever has the receiver waiting, and both counters are what Locks says.\<close>

theorem threads_refine_channel:
  assumes "reach (\<lambda>s. s = threads_start) (thread_step cap) s"
  shows "reach (\<lambda>s. s = start) (chan_step cap) (abs_channel s)
    \<and> reach (\<lambda>s. s = condvar_new) condvar_step (on_send s)
    \<and> reach (\<lambda>s. s = condvar_new) condvar_step (on_recv s)
    \<and> (place_of (on_send s) i = Asleep \<longrightarrow> i = 0)"
  using channel_threads.refined [OF assms] send_locks.refined [OF assms] recv_locks.refined [OF assms] asleep_on_send
  by blast

theorem threads_refine_channel_witness:
  "reach (\<lambda>s. s = start) (chan_step 1) (abs_channel second_asleep)
   \<and> calls (abs_channel second_asleep) 1 = Sleeping 0 8 \<and> received (abs_channel second_asleep) = []
   \<and> reach (\<lambda>s. s = condvar_new) condvar_step (on_recv second_asleep) \<and> place_of (on_recv second_asleep) 2 = Asleep"
  using threads_refine_channel [OF second_asleep_reached, of 0]
  by (simp add: second_asleep_def two_def full_room_def at_first_def on_recv_def eval_nat_numeral)

text \<open>C6 (liveness). As long as one thread of a channel is in a call and not asleep
  on a condition variable, some thread can get further with its call: whoever holds the mutex can always
  go on, and when nobody holds it anyone may take it. When none can, a sender sleeps only because the
  queue is full and the receiver there, the receiver only because the queue is empty and a sender there;
  and, if the channel has room for at least one value (\<open>0 < cap\<close>), not both. With capacity 0 both may sleep.\<close>

theorem channel_threads_go_on:
  assumes "reach (\<lambda>s. s = threads_start) (thread_step cap) s"
  shows "(\<not> at_rest s \<longrightarrow> (\<exists>s'. thread_step cap s s' \<and> gets_on s s'))
    \<and> (at_rest s \<longrightarrow>
        (asleep (acts s t) \<longrightarrow> length (ch_queue (state (room s))) = cap \<and> ch_receiver (state (room s)))
        \<and> (ract s = R_Asleep \<longrightarrow> ch_queue (state (room s)) = [] \<and> live (room s) \<noteq> {})
        \<and> (0 < cap \<longrightarrow> \<not> (asleep (acts s t) \<and> ract s = R_Asleep)))"
proof -
  have inv: "chan_inv cap (abs_channel s)"
    using channel_threads.refined [OF assms] channel.reachable_inv by blast
  have fin: "finite (live (room s))" using inv by (simp add: chan_inv_def handle_inv_def)
  have rest: "\<not> is_trying (abs_call a) \<and> \<not> is_notifying (abs_call a) \<and> \<not> takes_last a" if "resting a" for a
    using that by (cases a) (auto simp: resting_def)
  have r: "abs_recv r = RSleeping \<longleftrightarrow> r = R_Asleep" for r by (cases r) simp_all
  have "?thesis" if "at_rest s"
  proof -
    have "\<forall>u. resting (acts s u)" "receiver_resting (ract s)" using that by (simp_all add: at_rest_def)
    then have "\<not> last_gone (abs_channel s)"
      "\<forall>u. \<not> is_trying (calls (abs_channel s) u) \<and> \<not> is_notifying (calls (abs_channel s) u)"
      "receiving (abs_channel s) \<in> {RIdle, RSleeping, RGone}"
      using rest by (auto simp: receiver_resting_def)
    from sleepers_wait [OF inv this(1,3,2), of t] that show ?thesis by (simp add: sleeping_asleep r)
  qed
  then show ?thesis using threads_go_on [OF assms fin] by blast
qed

theorem channel_threads_go_on_witness:
  "at_rest second_asleep \<and> asleep (acts second_asleep 1) \<and> length (ch_queue (state (room second_asleep))) = 1"
proof -
  have "at_rest second_asleep" "asleep (acts second_asleep 1)"
    by (auto simp: at_rest_def resting_def receiver_resting_def second_asleep_def two_def)
  with channel_threads_go_on [OF second_asleep_reached, of 1] show ?thesis by blast
qed

end
