(* ===== verification/Once_Cells.thy ===== *)
theory Once_Cells
  imports Prelude
begin

text \<open>
  The cells of \<open>src/thread.rs\<close> that are filled once: \<open>OnceLock\<close> and \<open>LazyLock\<close> on it. First
  the operations on its own state and then a step relation in which any number of threads use it, one
  atomic access at a time. The stores are \<open>Release\<close> and the loads \<open>Acquire\<close>, so what a thread sees after a
  load of the state is what was written before the store it read: interleaving loses nothing.
\<close>

section \<open>\<open>OnceLock\<close>: the cell\<close>

record 'a once_lock =
  ol_state :: u8
  ol_value :: "'a option"

definition ONCE_EMPTY :: u8 where "ONCE_EMPTY = 0"

definition ONCE_BUSY :: u8 where "ONCE_BUSY = 1"

definition ONCE_READY :: u8 where "ONCE_READY = 2"

lemmas once_states = ONCE_EMPTY_def ONCE_BUSY_def ONCE_READY_def

definition once_new :: "'a once_lock" where
  "once_new = \<lparr>ol_state = ONCE_EMPTY, ol_value = None\<rparr>"

definition once_get :: "'a once_lock \<Rightarrow> 'a option" where
  "once_get c = (if ol_state c \<noteq> ONCE_READY then None else ol_value c)"

text \<open>The compare-exchange both \<open>get_or_init\<close> and \<open>set\<close> start with: the cell as \<open>BUSY\<close> when it was
  empty, the state found otherwise.\<close>

definition once_claim :: "'a once_lock \<Rightarrow> u8 + 'a once_lock" where
  "once_claim c =
     (if ol_state c = ONCE_EMPTY then Ok (c\<lparr>ol_state := ONCE_BUSY\<rparr>) else Err (ol_state c))"

text \<open>What a thread does with the cell it claimed: write the value, then publish it.\<close>

definition once_write :: "'a once_lock \<Rightarrow> 'a \<Rightarrow> 'a once_lock" where
  "once_write c v = c\<lparr>ol_value := Some v\<rparr>"

definition once_publish :: "'a once_lock \<Rightarrow> 'a once_lock" where
  "once_publish c = c\<lparr>ol_state := ONCE_READY\<rparr>"

text \<open>\<open>set\<close> and \<open>Clone\<close> as one thread alone runs them.\<close>

definition once_set :: "'a once_lock \<Rightarrow> 'a \<Rightarrow> ('a + unit) \<times> 'a once_lock" where
  "once_set c v =
     (case once_claim c of
        Inr c' \<Rightarrow> (Ok (), once_publish (once_write c' v))
      | Inl _ \<Rightarrow> (Err v, c))"

definition once_clone :: "('a \<Rightarrow> 'a) \<Rightarrow> 'a once_lock \<Rightarrow> 'a once_lock" where
  "once_clone cl c =
     (case once_get c of Some v \<Rightarrow> snd (once_set once_new (cl v)) | None \<Rightarrow> once_new)"

section \<open>\<open>OnceLock\<close>: the threads\<close>

text \<open>
  Where a thread is: outside; about to try the compare-exchange of \<open>get_or_init\<close> (with the value its
  closure would give); running the closure; having written the cell; past the loop, before the final
  \<open>get\<close>; returned with what \<open>get\<close> gave. The second group is \<open>set\<close>.
\<close>

datatype 'a user =
    Out | Init_Try 'a | Init_Run 'a | Init_Written 'a | Init_Ready | Init_Got "'a option"
  | Set_Try 'a | Set_Run 'a | Set_Written 'a | Set_Got "'a + unit"

record 'a once_system =
  cell :: "'a once_lock"
  users :: "nat \<Rightarrow> 'a user"
  claims :: nat

definition once_start :: "'a once_system" where
  "once_start = \<lparr>cell = once_new, users = (\<lambda>_. Out), claims = 0\<rparr>"

definition goes :: "'a once_system \<Rightarrow> nat \<Rightarrow> 'a user \<Rightarrow> 'a once_lock \<Rightarrow> 'a once_system" where
  "goes s t u c = s\<lparr>users := (users s)(t := u), cell := c\<rparr>"

inductive once_step :: "'a once_system \<Rightarrow> 'a once_system \<Rightarrow> bool" where
  call_init: "users s t = Out \<Longrightarrow> once_step s (goes s t (Init_Try v) (cell s))"
| claim_init: "users s t = Init_Try v \<Longrightarrow> once_claim (cell s) = Inr c \<Longrightarrow>
    once_step s ((goes s t (Init_Run v) c)\<lparr>claims := claims s + 1\<rparr>)"
| seen_ready: "users s t = Init_Try v \<Longrightarrow> once_claim (cell s) = Inl ONCE_READY \<Longrightarrow>
    once_step s (goes s t Init_Ready (cell s))"
| yields: "users s t = Init_Try v \<Longrightarrow> once_claim (cell s) = Inl e \<Longrightarrow> e \<noteq> ONCE_READY \<Longrightarrow> once_step s s"
| unwinds: "users s t = Init_Run v \<Longrightarrow> once_step s (goes s t Out (cell s))"
| writes: "users s t = Init_Run v \<Longrightarrow>
    once_step s (goes s t (Init_Written v) (once_write (cell s) v))"
| publishes: "users s t = Init_Written v \<Longrightarrow>
    once_step s (goes s t Init_Ready (once_publish (cell s)))"
| gets: "users s t = Init_Ready \<Longrightarrow> once_step s (goes s t (Init_Got (once_get (cell s))) (cell s))"
| returns: "users s t = Init_Got r \<Longrightarrow> once_step s (goes s t Out (cell s))"
| call_set: "users s t = Out \<Longrightarrow> once_step s (goes s t (Set_Try v) (cell s))"
| claim_set: "users s t = Set_Try v \<Longrightarrow> once_claim (cell s) = Inr c \<Longrightarrow>
    once_step s ((goes s t (Set_Run v) c)\<lparr>claims := claims s + 1\<rparr>)"
| taken: "users s t = Set_Try v \<Longrightarrow> once_claim (cell s) = Inl e \<Longrightarrow>
    once_step s (goes s t (Set_Got (Err v)) (cell s))"
| set_writes: "users s t = Set_Run v \<Longrightarrow>
    once_step s (goes s t (Set_Written v) (once_write (cell s) v))"
| set_publishes: "users s t = Set_Written v \<Longrightarrow>
    once_step s (goes s t (Set_Got (Ok ())) (once_publish (cell s)))"
| set_returns: "users s t = Set_Got r \<Longrightarrow> once_step s (goes s t Out (cell s))"

text \<open>Who owns a claimed cell, who has written it, who relies on it being ready.\<close>

fun owns :: "'a user \<Rightarrow> bool" where
  "owns (Init_Run v) = True"
| "owns (Init_Written v) = True"
| "owns (Set_Run v) = True"
| "owns (Set_Written v) = True"
| "owns _ = False"

fun wrote :: "'a user \<Rightarrow> 'a option" where
  "wrote (Init_Written v) = Some v"
| "wrote (Set_Written v) = Some v"
| "wrote _ = None"

fun relies :: "'a option \<Rightarrow> 'a user \<Rightarrow> bool" where
  "relies x (Init_Got r) = (r = x)"
| "relies x _ = True"

fun past_ready :: "'a user \<Rightarrow> bool" where
  "past_ready Init_Ready = True"
| "past_ready (Init_Got r) = True"
| "past_ready _ = False"

definition unclaimed :: "'a once_system \<Rightarrow> bool" where
  "unclaimed s \<longleftrightarrow> ol_state (cell s) = ONCE_EMPTY \<and> ol_value (cell s) = None \<and> claims s = 0
     \<and> (\<forall>t. \<not> owns (users s t) \<and> \<not> past_ready (users s t))"

definition being_filled :: "'a once_system \<Rightarrow> bool" where
  "being_filled s \<longleftrightarrow> ol_state (cell s) = ONCE_BUSY \<and> claims s = 1
     \<and> (\<forall>t. \<not> past_ready (users s t))
     \<and> (\<forall>t u. owns (users s t) \<longrightarrow> owns (users s u) \<longrightarrow> t = u)
     \<and> (\<forall>t v. wrote (users s t) = Some v \<longrightarrow> ol_value (cell s) = Some v)"

definition filled :: "'a once_system \<Rightarrow> bool" where
  "filled s \<longleftrightarrow> ol_state (cell s) = ONCE_READY \<and> claims s = 1 \<and> ol_value (cell s) \<noteq> None
     \<and> (\<forall>t. \<not> owns (users s t) \<and> relies (ol_value (cell s)) (users s t))"

definition once_inv :: "'a once_system \<Rightarrow> bool" where
  "once_inv s \<longleftrightarrow> unclaimed s \<or> being_filled s \<or> filled s"

lemmas once_cell_defs = once_claim_def once_write_def once_publish_def once_get_def once_states

lemma goes_simps [simp]:
  "cell (goes s t u c) = c" "users (goes s t u c) = (users s)(t := u)"
  "claims (goes s t u c) = claims s"
  by (simp_all add: goes_def)

lemma unclaimed_step:
  assumes "unclaimed s" "once_step s s'"
  shows "unclaimed s' \<or> being_filled s'"
proof -
  have o: "\<not> owns (users s t)" "\<not> past_ready (users s t)" for t
    using assms(1) by (auto simp: unclaimed_def)
  from assms(2) show ?thesis
  proof (cases rule: once_step.cases)
    case (claim_init t v c)
    have "wrote (users s u) = None" for u using o(1) [of u] by (cases "users s u") auto
    then have "being_filled s'" using claim_init o assms(1)
      by (auto simp: being_filled_def unclaimed_def once_claim_def split: if_splits)
    then show ?thesis by simp
  next
    case (claim_set t v c)
    have "wrote (users s u) = None" for u using o(1) [of u] by (cases "users s u") auto
    then have "being_filled s'" using claim_set o assms(1)
      by (auto simp: being_filled_def unclaimed_def once_claim_def split: if_splits)
    then show ?thesis by simp
  next
    case (unwinds t v)
    with o(1) [of t] show ?thesis by simp
  next
    case (writes t v)
    with o(1) [of t] show ?thesis by simp
  next
    case (publishes t v)
    with o(1) [of t] show ?thesis by simp
  next
    case (gets t)
    with o(2) [of t] show ?thesis by simp
  next
    case (set_writes t v)
    with o(1) [of t] show ?thesis by simp
  next
    case (set_publishes t v)
    with o(1) [of t] show ?thesis by simp
  qed (use assms(1) in \<open>auto simp: unclaimed_def once_claim_def split: if_splits\<close>)
qed

lemma filled_step:
  assumes "filled s" "once_step s s'"
  shows "filled s' \<and> ol_value (cell s') = ol_value (cell s)"
proof -
  have o: "\<not> owns (users s t)" for t using assms(1) by (auto simp: filled_def)
  from assms(2) show ?thesis
  proof (cases rule: once_step.cases)
    case (unwinds t v)
    with o [of t] show ?thesis by simp
  next
    case (writes t v)
    with o [of t] show ?thesis by simp
  next
    case (publishes t v)
    with o [of t] show ?thesis by simp
  next
    case (set_writes t v)
    with o [of t] show ?thesis by simp
  next
    case (set_publishes t v)
    with o [of t] show ?thesis by simp
  qed (use assms(1) in \<open>auto simp: filled_def once_cell_defs split: if_splits\<close>)
qed

lemma wrote_owns: "wrote u = Some v \<Longrightarrow> owns u"
  by (cases u) auto

lemma filling_step:
  assumes "being_filled s" "once_step s s'"
  shows "being_filled s' \<or> filled s'"
proof -
  have p: "\<not> past_ready (users s t)" for t using assms(1) by (auto simp: being_filled_def)
  have one: "owns (users s t) \<Longrightarrow> owns (users s u) \<Longrightarrow> t = u" for t u
    using assms(1) unfolding being_filled_def by blast
  have val: "wrote (users s t) = Some v \<Longrightarrow> ol_value (cell s) = Some v" for t v
    using assms(1) by (auto simp: being_filled_def)
  have fill: "filled s'"
    if "owns (users s t)" "users s' = (users s)(t := x)" "x = Init_Ready \<or> x = Set_Got (Ok ())"
      "cell s' = once_publish (cell s)" "claims s' = claims s" "ol_value (cell s) \<noteq> None" for t x
  proof -
    have "\<not> owns (users s' u) \<and> relies y (users s' u)" for u y
      using that(1-3) one [of t u] p [of u] by (cases "users s u") auto
    with that(4-6) assms(1) show ?thesis
      by (auto simp: filled_def being_filled_def once_publish_def)
  qed
  from assms(2) show ?thesis
  proof (cases rule: once_step.cases)
    case (writes t v)
    have "wrote (users s u) = None" if "u \<noteq> t" for u
      using one [of t u] that writes(2) wrote_owns [of "users s u"] by (cases "wrote (users s u)") auto
    with writes have "being_filled s'" using assms(1) one [of t]
      by (auto simp: being_filled_def once_write_def)
    then show ?thesis by simp
  next
    case (set_writes t v)
    have "wrote (users s u) = None" if "u \<noteq> t" for u
      using one [of t u] that set_writes(2) wrote_owns [of "users s u"] by (cases "wrote (users s u)") auto
    with set_writes have "being_filled s'" using assms(1) one [of t]
      by (auto simp: being_filled_def once_write_def)
    then show ?thesis by simp
  next
    case (publishes t v)
    with val [of t v] fill [of t Init_Ready] show ?thesis by simp
  next
    case (set_publishes t v)
    with val [of t v] fill [of t "Set_Got (Ok ())"] show ?thesis by simp
  next
    case (gets t)
    with p [of t] show ?thesis by simp
  qed (use assms(1) in \<open>auto simp: being_filled_def once_claim_def once_states split: if_splits\<close>)
qed

lemma once_inv_step: "once_inv s \<Longrightarrow> once_step s s' \<Longrightarrow> once_inv s'"
  using unclaimed_step filling_step filled_step unfolding once_inv_def by blast

lemma once_inv_start: "once_inv once_start"
  by (simp add: once_inv_def unclaimed_def once_start_def once_new_def)

interpretation once: transition_system "\<lambda>s. s = once_start" once_step once_inv
  by unfold_locales (auto simp: once_inv_start intro: once_inv_step)

lemma filled_stays:
  assumes "once_step\<^sup>*\<^sup>* s s'" "filled s"
  shows "filled s' \<and> ol_value (cell s') = ol_value (cell s)"
  using assms by (induction rule: rtranclp_induct) (auto dest: filled_step)

section \<open>\<open>LazyLock\<close>\<close>

text \<open>The closure is stored beside the cell and taken by the one call that claims it; \<open>Panic\<close> is the
  \<open>expect\<close> on a closure already taken.\<close>

datatype 'r forced = Forced 'r | Panicked | Spins

record 'a lazy_lock =
  lz_once :: "'a once_lock"
  lz_init :: "'a option"

definition lazy_new :: "'a \<Rightarrow> 'a lazy_lock" where
  "lazy_new f = \<lparr>lz_once = once_new, lz_init = Some f\<rparr>"

definition lazy_force :: "'a lazy_lock \<Rightarrow> 'a forced \<times> 'a lazy_lock" where
  "lazy_force l =
     (case once_claim (lz_once l) of
        Inr c \<Rightarrow>
          (case lz_init l of
             None \<Rightarrow> (Panicked, l\<lparr>lz_once := c\<rparr>)
           | Some f \<Rightarrow>
               let c = once_publish (once_write c f)
               in (case once_get c of None \<Rightarrow> Panicked | Some v \<Rightarrow> Forced v,
                   l\<lparr>lz_once := c, lz_init := None\<rparr>))
      | Inl e \<Rightarrow>
          if e = ONCE_READY
          then (case once_get (lz_once l) of None \<Rightarrow> Panicked | Some v \<Rightarrow> Forced v, l)
          else (Spins, l))"

fun forces :: "nat \<Rightarrow> 'a lazy_lock \<Rightarrow> 'a forced list \<times> 'a lazy_lock" where
  "forces 0 l = ([], l)"
| "forces (Suc n) l =
     (let (r, l') = lazy_force l; (rs, l'') = forces n l' in (r # rs, l''))"

lemma forces_ready:
  "ol_state (lz_once l) = ONCE_READY \<Longrightarrow> ol_value (lz_once l) = Some v \<Longrightarrow>
     forces n l = (replicate n (Forced v), l)"
  by (induction n) (simp_all add: lazy_force_def once_cell_defs)

section \<open>Properties of the cells\<close>

text \<open>C11 (safety). However threads race on a \<open>OnceLock\<close> with \<open>get_or_init\<close> and \<open>set\<close>, at most one of
  them ever claims the cell, so at most one closure runs; every \<open>get_or_init\<close> that returns has the
  same value, the one in the cell, and never fails its \<open>expect\<close>; and while a thread may write the
  cell no other thread may read or write it.\<close>

theorem once_initialised_once:
  assumes "reach (\<lambda>s. s = once_start) once_step s"
  shows "claims s \<le> 1
    \<and> (users s t = Init_Got r \<longrightarrow> r \<noteq> None \<and> r = ol_value (cell s))
    \<and> (owns (users s t) \<longrightarrow> ol_state (cell s) = ONCE_BUSY
         \<and> (\<forall>u. u \<noteq> t \<longrightarrow> \<not> owns (users s u) \<and> \<not> past_ready (users s u)))"
proof -
  have "once_inv s" by (rule once.reachable_inv [OF assms])
  then consider "unclaimed s" | "being_filled s" | "filled s" by (auto simp: once_inv_def)
  then show ?thesis
  proof cases
    case 1
    then show ?thesis by (auto simp: unclaimed_def dest!: spec [of _ t])
  next
    case 2
    then have "\<not> past_ready (users s u)" for u by (simp add: being_filled_def)
    moreover have "users s t \<noteq> Init_Got r" using calculation [of t] by auto
    ultimately show ?thesis using 2 unfolding being_filled_def by auto
  next
    case 3
    then have "relies (ol_value (cell s)) (users s t)" "\<not> owns (users s t)" "claims s \<le> 1"
      "ol_value (cell s) \<noteq> None" by (auto simp: filled_def)
    then show ?thesis by (cases "users s t") auto
  qed
qed

lemma claimed_reached: "reach (\<lambda>s. s = once_start) once_step
    ((goes (goes once_start 1 (Init_Try (7::nat)) once_new) 1 (Init_Run 7)
        (once_new\<lparr>ol_state := ONCE_BUSY\<rparr>))\<lparr>claims := 1\<rparr>)"
proof -
  have "once_step once_start (goes once_start 1 (Init_Try (7::nat)) once_new)"
    using once_step.call_init [of once_start 1 7] by (simp add: once_start_def)
  moreover have "once_step (goes once_start 1 (Init_Try (7::nat)) once_new)
      ((goes (goes once_start 1 (Init_Try 7) once_new) 1 (Init_Run 7)
        (once_new\<lparr>ol_state := ONCE_BUSY\<rparr>))\<lparr>claims := 1\<rparr>)"
    using once_step.claim_init [of "goes once_start 1 (Init_Try (7::nat)) once_new" 1 7
        "once_new\<lparr>ol_state := ONCE_BUSY\<rparr>"]
    by (simp add: once_claim_def once_new_def once_start_def goes_def)
  ultimately show ?thesis by (blast intro: reach.intros)
qed

theorem once_initialised_once_witness:
  "claims ((goes (goes once_start 1 (Init_Try (7::nat)) once_new) 1 (Init_Run 7)
        (once_new\<lparr>ol_state := ONCE_BUSY\<rparr>))\<lparr>claims := 1\<rparr>) \<le> 1"
  using once_initialised_once [OF claimed_reached, of 0 None] by (rule conjunct1)

text \<open>A ready \<open>OnceLock\<close> stays ready with the value it has: whatever the threads do,
  every later \<open>get\<close> gives that value, and no later \<open>set\<close> succeeds.\<close>

theorem once_ready_is_final:
  assumes "reach (\<lambda>s. s = once_start) once_step s" and "once_get (cell s) = Some v"
    and "once_step\<^sup>*\<^sup>* s s'"
  shows "once_get (cell s') = Some v \<and> once_set (cell s') w = (Err w, cell s')"
proof -
  have "once_inv s" by (rule once.reachable_inv [OF assms(1)])
  moreover have "ol_state (cell s) = ONCE_READY" "ol_value (cell s) = Some v"
    using assms(2) by (auto simp: once_get_def split: if_splits)
  ultimately have "filled s"
    by (auto simp: once_inv_def unclaimed_def being_filled_def once_states)
  with filled_stays [OF assms(3)] assms(2) show ?thesis
    by (auto simp: filled_def once_cell_defs once_set_def split: if_splits)
qed

lemma filled_reached:
  "\<exists>s. reach (\<lambda>s. s = once_start) once_step s \<and> once_get (cell s) = Some (7::nat)"
proof -
  let ?s1 = "goes once_start 1 (Set_Try (7::nat)) once_new"
  let ?s2 = "(goes ?s1 1 (Set_Run 7) (once_new\<lparr>ol_state := ONCE_BUSY\<rparr>))\<lparr>claims := 1\<rparr>"
  let ?s3 = "goes ?s2 1 (Set_Written 7) (once_write (cell ?s2) 7)"
  let ?s4 = "goes ?s3 1 (Set_Got (Ok ())) (once_publish (cell ?s3))"
  have "once_step once_start ?s1"
    using once_step.call_set [of once_start 1 7] by (simp add: once_start_def)
  moreover have "once_step ?s1 ?s2"
    using once_step.claim_set [of ?s1 1 7 "once_new\<lparr>ol_state := ONCE_BUSY\<rparr>"]
    by (simp add: once_claim_def once_new_def once_start_def goes_def)
  moreover have "once_step ?s2 ?s3" by (rule once_step.set_writes) (simp add: goes_def)
  moreover have "once_step ?s3 ?s4" by (rule once_step.set_publishes) (simp add: goes_def)
  ultimately have "once_step\<^sup>*\<^sup>* once_start ?s4" by (meson rtranclp.intros)
  then have "reach (\<lambda>s. s = once_start) once_step ?s4" by (rule once.reachable_steps [OF reach.reach_init, OF refl])
  moreover have "once_get (cell ?s4) = Some 7" by (simp add: once_cell_defs goes_def)
  ultimately show ?thesis by blast
qed

theorem once_ready_is_final_witness:
  "\<exists>s :: nat once_system. once_get (cell s) = Some 7 \<and> once_set (cell s) 8 = (Err 8, cell s)"
proof -
  obtain s where s: "reach (\<lambda>s. s = once_start) once_step s" "once_get (cell s) = Some (7::nat)"
    using filled_reached by blast
  from once_ready_is_final [OF s rtranclp.rtrancl_refl, of 8] show ?thesis by blast
qed

text \<open>A \<open>LazyLock\<close> gives the value of its closure at every use, taking the closure at
  the first and never panicking on a closure already taken.\<close>

theorem lazy_forces_once:
  "fst (forces n (lazy_new f)) = replicate n (Forced f)
   \<and> lz_init (snd (forces (Suc n) (lazy_new f))) = None"
  by (cases n)
     (simp_all add: lazy_new_def lazy_force_def once_cell_defs once_new_def Let_def
       forces_ready [unfolded once_states] case_prod_beta)

text \<open>A closure that unwinds leaves the cell \<open>BUSY\<close> with no thread to fill it: from there every further
  \<open>get_or_init\<close> yields for ever.\<close>

lemma unwound_once_spins:
  "\<exists>s. reach (\<lambda>s. s = once_start) once_step (s :: nat once_system) \<and> ol_state (cell s) = ONCE_BUSY
     \<and> (\<forall>t. \<not> owns (users s t))"
proof -
  let ?s = "(goes (goes once_start 1 (Init_Try (7::nat)) once_new) 1 (Init_Run 7)
      (once_new\<lparr>ol_state := ONCE_BUSY\<rparr>))\<lparr>claims := 1\<rparr>"
  have "once_step ?s (goes ?s 1 Out (cell ?s))" by (rule once_step.unwinds) (simp add: goes_def)
  with claimed_reached have "reach (\<lambda>s. s = once_start) once_step (goes ?s 1 Out (cell ?s))"
    by (rule reach.reach_step)
  then show ?thesis
    by (intro exI [of _ "goes ?s 1 Out (cell ?s)"]) (auto simp: goes_def once_start_def)
qed

lemma spinning_stays:
  assumes "ol_state (cell s) = ONCE_BUSY" "\<forall>t. \<not> owns (users s t)" "once_step s s'"
  shows "ol_state (cell s') = ONCE_BUSY \<and> (\<forall>t. \<not> owns (users s' t))"
  using assms(3)
proof (cases rule: once_step.cases)
  case (writes t v)
  with assms(2) [THEN spec, of t] show ?thesis by simp
next
  case (publishes t v)
  with assms(2) [THEN spec, of t] show ?thesis by simp
next
  case (set_writes t v)
  with assms(2) [THEN spec, of t] show ?thesis by simp
next
  case (set_publishes t v)
  with assms(2) [THEN spec, of t] show ?thesis by simp
qed (use assms(1,2) in \<open>auto simp: once_claim_def once_states split: if_splits\<close>)

end
