(* ===== verification/Rw_Locks.thy ===== *)
theory Rw_Locks
  imports Prelude
begin

text \<open>
  \<open>RwLock\<close>, \<open>ReadGuard\<close> and \<open>WriteGuard\<close> of \<open>src/thread.rs\<close>. The lock belongs to pthreads: it has a
  writer, or a number of read locks of which there may be at most \<open>cap\<close>, and it answers as POSIX
  documents. The crate hands out a guard whatever the answer was, so guards and locks are counted
  apart here; the value behind the lock is part of the state.
\<close>

section \<open>State\<close>

record 'v rw_lock =
  raw_writer :: "nat option"
  raw_readers :: nat
  read_guards :: "nat \<Rightarrow> nat"
  write_guards :: "nat \<Rightarrow> nat"
  guarded :: 'v

definition rw_new :: "'v \<Rightarrow> 'v rw_lock" where
  "rw_new v = \<lparr>raw_writer = None, raw_readers = 0, read_guards = (\<lambda>_. 0), write_guards = (\<lambda>_. 0),
     guarded = v\<rparr>"

section \<open>The lock of pthreads\<close>

text \<open>
  \<open>pthread_rwlock_rdlock\<close> and \<open>pthread_rwlock_wrlock\<close>: no answer while the thread has to wait, and
  otherwise an answer and the lock afterwards. The thread that has the write lock is told
  \<open>EDEADLK\<close>; a reader is told \<open>EAGAIN\<close> when there are as many read locks as there may be.
\<close>

datatype rw_answer = RW_Ok | RW_Deadlock | RW_Again

definition raw_rdlock :: "nat \<Rightarrow> nat \<Rightarrow> 'v rw_lock \<Rightarrow> (rw_answer \<times> 'v rw_lock) option" where
  "raw_rdlock cap t s =
     (if raw_writer s = Some t then Some (RW_Deadlock, s)
      else if raw_writer s \<noteq> None then None
      else if raw_readers s < cap then Some (RW_Ok, s\<lparr>raw_readers := raw_readers s + 1\<rparr>)
      else Some (RW_Again, s))"

definition raw_wrlock :: "nat \<Rightarrow> 'v rw_lock \<Rightarrow> (rw_answer \<times> 'v rw_lock) option" where
  "raw_wrlock t s =
     (if raw_writer s = Some t then Some (RW_Deadlock, s)
      else if raw_writer s \<noteq> None \<or> 0 < raw_readers s then None
      else Some (RW_Ok, s\<lparr>raw_writer := Some t\<rparr>))"

definition raw_unlock :: "nat \<Rightarrow> 'v rw_lock \<Rightarrow> 'v rw_lock" where
  "raw_unlock t s =
     (if raw_writer s = Some t then s\<lparr>raw_writer := None\<rparr> else s\<lparr>raw_readers := raw_readers s - 1\<rparr>)"

section \<open>Operations\<close>

text \<open>\<open>read\<close> and \<open>write\<close>: the answer of pthreads is not looked at.\<close>

definition rw_read :: "nat \<Rightarrow> nat \<Rightarrow> 'v rw_lock \<Rightarrow> 'v rw_lock option" where
  "rw_read cap t s =
     (case raw_rdlock cap t s of
        None \<Rightarrow> None
      | Some (_, s') \<Rightarrow> Some (s'\<lparr>read_guards := (read_guards s')(t := read_guards s' t + 1)\<rparr>))"

definition rw_write :: "nat \<Rightarrow> 'v rw_lock \<Rightarrow> 'v rw_lock option" where
  "rw_write t s =
     (case raw_wrlock t s of
        None \<Rightarrow> None
      | Some (_, s') \<Rightarrow> Some (s'\<lparr>write_guards := (write_guards s')(t := write_guards s' t + 1)\<rparr>))"

text \<open>The drops of the guards, and assigning through a write guard (\<open>deref_mut\<close>).\<close>

definition drop_read :: "nat \<Rightarrow> 'v rw_lock \<Rightarrow> 'v rw_lock" where
  "drop_read t s = (raw_unlock t s)\<lparr>read_guards := (read_guards s)(t := read_guards s t - 1)\<rparr>"

definition drop_write :: "nat \<Rightarrow> 'v rw_lock \<Rightarrow> 'v rw_lock" where
  "drop_write t s = (raw_unlock t s)\<lparr>write_guards := (write_guards s)(t := write_guards s t - 1)\<rparr>"

definition rw_deref :: "'v rw_lock \<Rightarrow> 'v" where
  "rw_deref s = guarded s"

definition rw_assign :: "'v \<Rightarrow> 'v rw_lock \<Rightarrow> 'v rw_lock" where
  "rw_assign v s = s\<lparr>guarded := v\<rparr>"

inductive rw_step :: "nat \<Rightarrow> 'v rw_lock \<Rightarrow> 'v rw_lock \<Rightarrow> bool" for cap :: nat where
  take_read: "rw_read cap t s = Some s' \<Longrightarrow> rw_step cap s s'"
| take_write: "rw_write t s = Some s' \<Longrightarrow> rw_step cap s s'"
| drop_read: "0 < read_guards s t \<Longrightarrow> rw_step cap s (drop_read t s)"
| drop_write: "0 < write_guards s t \<Longrightarrow> rw_step cap s (drop_write t s)"
| assign: "0 < write_guards s t \<Longrightarrow> rw_step cap s (rw_assign v s)"

text \<open>
  The discipline the crate leaves to its callers: a thread that has a guard does not take another, and
  there are never \<open>cap\<close> threads with one.
\<close>

definition holders :: "'v rw_lock \<Rightarrow> nat set" where
  "holders s = {t. 0 < read_guards s t \<or> 0 < write_guards s t}"

inductive rw_careful :: "nat \<Rightarrow> 'v rw_lock \<Rightarrow> 'v rw_lock \<Rightarrow> bool" for cap :: nat where
  take_read: "rw_read cap t s = Some s' \<Longrightarrow> t \<notin> holders s \<Longrightarrow> card (holders s) < cap \<Longrightarrow> rw_careful cap s s'"
| take_write: "rw_write t s = Some s' \<Longrightarrow> t \<notin> holders s \<Longrightarrow> rw_careful cap s s'"
| drop_read: "0 < read_guards s t \<Longrightarrow> rw_careful cap s (drop_read t s)"
| drop_write: "0 < write_guards s t \<Longrightarrow> rw_careful cap s (drop_write t s)"
| assign: "0 < write_guards s t \<Longrightarrow> rw_careful cap s (rw_assign v s)"

inductive_cases rw_carefulE: "rw_careful cap s s'"

section \<open>The invariant\<close>

definition readers_of :: "'v rw_lock \<Rightarrow> nat set" where
  "readers_of s = {t. read_guards s t = 1}"

text \<open>Guards and locks agree: the writer has the one write guard, the readers have one read guard each.\<close>

definition rw_inv :: "'v rw_lock \<Rightarrow> bool" where
  "rw_inv s \<longleftrightarrow>
     (\<forall>t. write_guards s t = (if raw_writer s = Some t then 1 else 0))
     \<and> (\<forall>t. read_guards s t \<le> 1)
     \<and> finite (readers_of s) \<and> raw_readers s = card (readers_of s)
     \<and> (raw_writer s \<noteq> None \<longrightarrow> readers_of s = {})"

lemma rw_invD:
  assumes "rw_inv s"
  shows "write_guards s t = (if raw_writer s = Some t then 1 else 0)" "read_guards s t \<le> 1"
    "finite (readers_of s)" "raw_readers s = card (readers_of s)"
    "raw_writer s = Some u \<Longrightarrow> readers_of s = {}"
  using assms unfolding rw_inv_def by blast+

lemma rw_invD_writer:
  assumes "rw_inv s" "raw_writer s = Some u"
  shows "raw_readers s = 0" "read_guards s t = 0"
proof -
  have none: "readers_of s = {}" by (rule rw_invD(5) [OF assms])
  then show "raw_readers s = 0" by (simp add: rw_invD(4) [OF assms(1)])
  from none have "read_guards s t \<noteq> 1" by (auto simp: readers_of_def)
  with rw_invD(2) [OF assms(1), of t] show "read_guards s t = 0" by simp
qed

lemma rw_invI:
  assumes "\<And>t. write_guards s t = (if raw_writer s = Some t then 1 else 0)" "\<And>t. read_guards s t \<le> 1"
    "finite (readers_of s)" "raw_readers s = card (readers_of s)"
    "\<And>u. raw_writer s = Some u \<Longrightarrow> readers_of s = {}"
  shows "rw_inv s"
  using assms unfolding rw_inv_def by blast

lemma holders_inv: "rw_inv s \<Longrightarrow> holders s = readers_of s \<union> set_option (raw_writer s)"
  using rw_invD(1,2) [of s]
  by (auto simp: holders_def readers_of_def Suc_le_eq le_Suc_eq split: if_splits)
     (metis One_nat_def le_SucE le_zero_eq less_numeral_extra(3))

lemma rw_inv_read:
  assumes inv: "rw_inv s" and read: "rw_read cap t s = Some s'" and t: "t \<notin> holders s"
    and room: "card (holders s) < cap"
  shows "rw_inv s'"
proof -
  have w: "raw_writer s \<noteq> Some t" using t by (simp add: holders_inv [OF inv])
  with read have free: "raw_writer s = None"
    by (auto simp: rw_read_def raw_rdlock_def split: if_splits)
  then have "raw_readers s < cap" using room by (simp add: holders_inv [OF inv] rw_invD(4) [OF inv])
  with read free have s': "s' = s\<lparr>raw_readers := raw_readers s + 1,
      read_guards := (read_guards s)(t := read_guards s t + 1)\<rparr>"
    by (simp add: rw_read_def raw_rdlock_def)
  have "read_guards s t = 0" using t by (simp add: holders_def)
  then have "readers_of s' = insert t (readers_of s)" and "t \<notin> readers_of s"
    by (auto simp: s' readers_of_def)
  then show ?thesis
    using rw_invD(1-4) [OF inv] free \<open>read_guards s t = 0\<close> by (intro rw_invI) (auto simp: s')
qed

lemma rw_inv_write:
  assumes inv: "rw_inv s" and wr: "rw_write t s = Some s'" and t: "t \<notin> holders s"
  shows "rw_inv s'"
proof -
  have "raw_writer s \<noteq> Some t" using t by (simp add: holders_inv [OF inv])
  with wr have free: "raw_writer s = None" "raw_readers s = 0"
    and s': "s' = s\<lparr>raw_writer := Some t, write_guards := (write_guards s)(t := write_guards s t + 1)\<rparr>"
    by (auto simp: rw_write_def raw_wrlock_def split: if_splits)
  then show ?thesis
    using rw_invD(1-4) [OF inv] by (intro rw_invI) (auto simp: readers_of_def)
qed

lemma rw_inv_drop_read:
  assumes inv: "rw_inv s" and t: "0 < read_guards s t"
  shows "rw_inv (drop_read t s)"
proof -
  have free: "raw_writer s = None" using rw_invD_writer(2) [OF inv] t by (cases "raw_writer s") auto
  have one: "read_guards s t = 1" using t rw_invD(2) [OF inv, of t] by simp
  then have "readers_of (drop_read t s) = readers_of s - {t}" and "t \<in> readers_of s"
    by (auto simp: drop_read_def readers_of_def split: if_splits)
  then show ?thesis
    using rw_invD(1-4) [OF inv] free one
    by (intro rw_invI) (auto simp: drop_read_def raw_unlock_def)
qed

lemma rw_inv_drop_write:
  assumes inv: "rw_inv s" and t: "0 < write_guards s t"
  shows "rw_inv (drop_write t s)"
proof -
  have "raw_writer s = Some t" using t rw_invD(1) [OF inv, of t] by (simp split: if_splits)
  moreover have "readers_of (drop_write t s) = readers_of s"
    by (simp add: readers_of_def drop_write_def raw_unlock_def)
  ultimately show ?thesis
    using rw_invD(1-5) [OF inv] by (intro rw_invI) (auto simp: drop_write_def raw_unlock_def)
qed

lemma rw_inv_assign:
  assumes inv: "rw_inv s"
  shows "rw_inv (rw_assign v s)"
proof -
  have "readers_of (rw_assign v s) = readers_of s" by (simp add: readers_of_def rw_assign_def)
  then show ?thesis
    using rw_invD [OF inv] by (intro rw_invI) (auto simp: rw_assign_def)
qed

interpretation rw_system: transition_system "\<lambda>s. s = rw_new v" "rw_careful cap" rw_inv for v cap
proof unfold_locales
  show "rw_inv s" if "s = rw_new v" for s
    using that by (simp add: rw_inv_def rw_new_def readers_of_def)
  show "rw_inv s'" if "rw_inv s" "rw_careful cap s s'" for s s'
    using that
    by (auto elim!: rw_carefulE
        intro: rw_inv_read rw_inv_write rw_inv_drop_read rw_inv_drop_write rw_inv_assign)
qed

section \<open>Properties\<close>

lemma holders_alone:
  assumes "rw_inv s" "0 < write_guards s t"
  shows "holders s = {t}" "write_guards s t = 1" "read_guards s t = 0"
proof -
  have w: "raw_writer s = Some t" using assms rw_invD(1) [of s t] by (simp split: if_splits)
  then show "write_guards s t = 1" using rw_invD(1) [of s t] assms(1) by simp
  show "read_guards s t = 0" by (rule rw_invD_writer(2) [OF assms(1) w])
  have "readers_of s = {}" using rw_invD_writer(2) [OF assms(1) w] by (simp add: readers_of_def)
  then show "holders s = {t}" using holders_inv [OF assms(1)] w by simp
qed

lemma read_value_is_kept:
  assumes "rw_inv s" "rw_careful cap s s'" "0 < read_guards s t"
  shows "rw_deref s' = rw_deref s"
  using assms(2)
proof (cases rule: rw_careful.cases)
  case (take_read u)
  then show ?thesis by (auto simp: rw_deref_def rw_read_def raw_rdlock_def split: if_splits)
next
  case (take_write u)
  then show ?thesis by (auto simp: rw_deref_def rw_write_def raw_wrlock_def split: if_splits)
next
  case (assign u)
  then have "holders s = {u}" "read_guards s u = 0" using holders_alone [OF assms(1), of u] by simp_all
  moreover have "t \<in> holders s" using assms(3) by (simp add: holders_def)
  ultimately show ?thesis using assms(3) by simp
qed (simp_all add: rw_deref_def drop_read_def drop_write_def raw_unlock_def)

lemma lock_is_free:
  assumes "rw_inv s" "holders s = {}"
  shows "rw_write t s \<noteq> None"
  using assms rw_invD(4) [OF assms(1)] holders_inv [OF assms(1)]
  by (auto simp: rw_write_def raw_wrlock_def)

text \<open>C25 (safety). As long as no thread takes a guard while it has one, and there are fewer than
  \<open>cap\<close> of them, a write guard of a \<open>RwLock\<close> is the only guard there is, the value cannot change while
  anybody has a read guard, and once every guard is dropped the lock is free.\<close>

theorem rw_guards_exclude:
  assumes "reach (\<lambda>s. s = rw_new v) (rw_careful cap) s"
  shows "(0 < write_guards s t \<longrightarrow> holders s = {t} \<and> write_guards s t = 1 \<and> read_guards s t = 0)
   \<and> (0 < read_guards s t \<longrightarrow> rw_careful cap s s' \<longrightarrow> rw_deref s' = rw_deref s)
   \<and> (holders s = {} \<longrightarrow> rw_write t s \<noteq> None)"
proof -
  have "rw_inv s" by (rule rw_system.reachable_inv [OF assms])
  then show ?thesis using holders_alone [of s t] read_value_is_kept [of s cap s' t] lock_is_free [of s t]
    by auto
qed

definition both_read :: "nat rw_lock" where
  "both_read = the (Option.bind (rw_read 8 1 (rw_new 7)) (rw_read 8 2))"

lemma both_read_reachable: "reach (\<lambda>s. s = rw_new 7) (rw_careful 8) both_read"
proof -
  let ?a = "the (rw_read 8 1 (rw_new (7 :: nat)))"
  have defs: "rw_read 8 1 (rw_new (7 :: nat)) = Some ?a" "rw_read 8 2 ?a = Some both_read"
    by (simp_all add: both_read_def rw_new_def rw_read_def raw_rdlock_def)
  have "1 \<notin> holders (rw_new (7 :: nat))" "card (holders (rw_new (7 :: nat))) < 8"
    by (simp_all add: holders_def rw_new_def)
  then have 1: "reach (\<lambda>s. s = rw_new 7) (rw_careful 8) ?a"
    using rw_careful.take_read [OF defs(1)] by (blast intro: reach_step reach_init)
  have "holders ?a = {1}"
    by (auto simp: holders_def rw_new_def rw_read_def raw_rdlock_def split: if_splits)
  then show ?thesis
    by (intro reach_step [OF 1] rw_careful.take_read [OF defs(2)]) simp_all
qed

theorem rw_guards_exclude_witness:
  "0 < read_guards both_read 1 \<and> rw_careful 8 both_read (drop_read 2 both_read)
     \<and> rw_deref (drop_read 2 both_read) = rw_deref both_read"
proof -
  have "0 < read_guards both_read 1" "0 < read_guards both_read 2"
    by (simp_all add: both_read_def rw_new_def rw_read_def raw_rdlock_def)
  moreover from this(2) have "rw_careful 8 both_read (drop_read 2 both_read)"
    by (rule rw_careful.drop_read)
  ultimately show ?thesis using rw_guards_exclude [OF both_read_reachable, of 1 "drop_read 2 both_read"] by blast
qed

text \<open>Without that discipline: the thread with the write guard asks for a read guard, is told
  \<open>EDEADLK\<close> and has both; dropping the read guard gives the write lock back, and another thread is
  handed a second write guard.\<close>

theorem relocking_breaks_exclusion:
  "\<exists>s. reach (\<lambda>s. s = rw_new v) (rw_step 8) s \<and> write_guards s 1 = 1 \<and> write_guards s 2 = 1"
proof -
  let ?a = "the (rw_write 1 (rw_new v))"
  let ?b = "the (rw_read 8 1 ?a)"
  let ?c = "drop_read 1 ?b"
  let ?d = "the (rw_write 2 ?c)"
  note defs = rw_new_def rw_read_def rw_write_def raw_rdlock_def raw_wrlock_def drop_read_def raw_unlock_def
  have "reach (\<lambda>s. s = rw_new v) (rw_step 8) ?a"
    by (rule reach_step [OF reach_init], rule refl, rule rw_step.take_write [of 1]) (simp add: defs)
  then have "reach (\<lambda>s. s = rw_new v) (rw_step 8) ?b"
    by (rule reach_step) (rule rw_step.take_read [of 8 1], simp add: defs)
  then have "reach (\<lambda>s. s = rw_new v) (rw_step 8) ?c"
    by (rule reach_step) (rule rw_step.drop_read, simp add: defs)
  then have "reach (\<lambda>s. s = rw_new v) (rw_step 8) ?d"
    by (rule reach_step) (rule rw_step.take_write [of 2], simp add: defs)
  moreover have "write_guards ?d 1 = 1" "write_guards ?d 2 = 1" by (simp_all add: defs)
  ultimately show ?thesis by blast
qed

end
