(* ===== verification/Thread_Values.thy ===== *)
theory Thread_Values
  imports Prelude
begin

text \<open>
  Per-thread values of \<open>src/thread.rs\<close>: the key of a \<open>ThreadLocal\<close>, created by whichever thread gets
  there first; \<open>ThreadLocal::with\<close> and \<open>LocalKey\<close> on it; \<open>ScopedKey\<close>, a value installed for the
  duration of a call; and \<open>Once\<close>, whose closure passes through the global \<open>PENDING\<close>. The keys, the
  values by thread and the once-controls belong to pthreads and behave as POSIX says.
\<close>

section \<open>The key of a \<open>ThreadLocal\<close>\<close>

text \<open>
  \<open>tk_key\<close> is the atomic, the key plus one or zero; \<open>tk_live\<close> the keys that exist in the process for
  this static. A thread in \<open>key()\<close> has found zero and is about to create a key, has created one and
  is about to publish it, or has its answer.
\<close>

datatype keying = K_Out | K_Found_None | K_Created nat | K_Has "nat option"

record key_system =
  tk_key :: nat
  tk_live :: "nat set"
  tk_users :: "nat \<Rightarrow> keying"

definition key_start :: key_system where
  "key_start = \<lparr>tk_key = 0, tk_live = {}, tk_users = (\<lambda>_. K_Out)\<rparr>"

definition key_to :: "key_system \<Rightarrow> nat \<Rightarrow> keying \<Rightarrow> key_system" where
  "key_to s t u = s\<lparr>tk_users := (tk_users s)(t := u)\<rparr>"

text \<open>The load at the top of \<open>key()\<close>, and the compare-exchange at its end with the key the thread made:
  the winner's key is published, a loser deletes its own and answers with the winner's.\<close>

definition key_load :: "key_system \<Rightarrow> nat \<Rightarrow> key_system" where
  "key_load s t =
     (if tk_key s \<noteq> 0 then key_to s t (K_Has (Some (tk_key s - 1))) else key_to s t K_Found_None)"

definition key_publish :: "key_system \<Rightarrow> nat \<Rightarrow> nat \<Rightarrow> key_system" where
  "key_publish s t created =
     (if tk_key s = 0
      then (key_to s t (K_Has (Some created)))\<lparr>tk_key := created + 1\<rparr>
      else (key_to s t (K_Has (Some (tk_key s - 1))))\<lparr>tk_live := tk_live s - {created}\<rparr>)"

inductive key_step :: "key_system \<Rightarrow> key_system \<Rightarrow> bool" where
  load: "tk_users s t = K_Out \<Longrightarrow> key_step s (key_load s t)"
| create: "tk_users s t = K_Found_None \<Longrightarrow> k \<notin> tk_live s \<Longrightarrow>
    key_step s ((key_to s t (K_Created k))\<lparr>tk_live := insert k (tk_live s)\<rparr>)"
| out_of_keys: "tk_users s t = K_Found_None \<Longrightarrow> key_step s (key_to s t (K_Has None))"
| publish: "tk_users s t = K_Created k \<Longrightarrow> key_step s (key_publish s t k)"
| answered: "tk_users s t = K_Has r \<Longrightarrow> key_step s (key_to s t K_Out)"

text \<open>The live keys are the published one and those of the threads about to publish, all different.\<close>

definition being_made :: "(nat \<Rightarrow> keying) \<Rightarrow> nat set" where
  "being_made f = {k. \<exists>t. f t = K_Created k}"

definition key_inv :: "key_system \<Rightarrow> bool" where
  "key_inv s \<longleftrightarrow>
     tk_live s = {k. k + 1 = tk_key s} \<union> being_made (tk_users s)
     \<and> (\<forall>t k. tk_users s t = K_Created k \<longrightarrow> k + 1 \<noteq> tk_key s)
     \<and> (\<forall>t u k. tk_users s t = K_Created k \<longrightarrow> tk_users s u = K_Created k \<longrightarrow> t = u)
     \<and> (\<forall>t k. tk_users s t = K_Has (Some k) \<longrightarrow> k + 1 = tk_key s)"

lemma being_made_same:
  "(\<And>k. f t \<noteq> K_Created k) \<Longrightarrow> (\<And>k. u \<noteq> K_Created k) \<Longrightarrow> being_made (f(t := u)) = being_made f"
  unfolding being_made_def by (metis fun_upd_apply)

lemma being_made_more:
  "(\<And>k. f t \<noteq> K_Created k) \<Longrightarrow> being_made (f(t := K_Created j)) = insert j (being_made f)"
  unfolding being_made_def by (auto split: if_splits) (metis fun_upd_apply)

lemma being_made_less:
  assumes "f t = K_Created j" "\<And>u. f u = K_Created j \<Longrightarrow> u = t" "\<And>k. x \<noteq> K_Created k"
  shows "being_made (f(t := x)) = being_made f - {j}"
proof -
  have "(\<exists>u. (f(t := x)) u = K_Created k) \<longleftrightarrow> (\<exists>u. f u = K_Created k) \<and> k \<noteq> j" for k
    using assms by (metis fun_upd_apply keying.inject(1))
  then show ?thesis by (auto simp: being_made_def)
qed

lemma key_to_simps [simp]:
  "tk_key (key_to s t u) = tk_key s" "tk_live (key_to s t u) = tk_live s"
  "tk_users (key_to s t u) = (tk_users s)(t := u)"
  by (simp_all add: key_to_def)

lemma key_inv_publish:
  assumes "key_inv s" "tk_users s t = K_Created k"
  shows "key_inv (key_publish s t k)"
proof -
  have one: "tk_users s u = K_Created k \<Longrightarrow> u = t" for u
    using assms unfolding key_inv_def by blast
  have k: "k + 1 \<noteq> tk_key s" and live: "tk_live s = {k. k + 1 = tk_key s} \<union> being_made (tk_users s)"
    using assms unfolding key_inv_def by blast+
  have less: "being_made ((tk_users s)(t := K_Has r)) = being_made (tk_users s) - {k}" for r
    using being_made_less [of "tk_users s" t k "K_Has r", OF assms(2)] one by simp
  let ?s = "key_publish s t k"
  have made: "tk_users ?s u = K_Created j \<Longrightarrow> u \<noteq> t \<and> tk_users s u = K_Created j \<and> j \<noteq> k" for u j
    using one [of u] by (auto simp: key_publish_def split: if_splits)
  have mem: "k \<in> being_made (tk_users s)" using assms(2) by (auto simp: being_made_def)
  have "tk_live ?s = {k. k + 1 = tk_key ?s} \<union> being_made (tk_users ?s)"
    using k mem by (auto simp: key_publish_def less live)
  moreover have "j + 1 \<noteq> tk_key ?s" if "tk_users ?s u = K_Created j" for u j
  proof -
    have "j + 1 \<noteq> tk_key s" using assms(1) made [OF that] unfolding key_inv_def by blast
    then show ?thesis using made [OF that] by (simp add: key_publish_def)
  qed
  moreover have "u = v" if "tk_users ?s u = K_Created j" "tk_users ?s v = K_Created j" for u v j
    using assms(1) made [OF that(1)] made [OF that(2)] unfolding key_inv_def by blast
  moreover have "j + 1 = tk_key ?s" if "tk_users ?s u = K_Has (Some j)" for u j
  proof (cases "u = t")
    case True
    then show ?thesis using that by (auto simp: key_publish_def split: if_splits)
  next
    case False
    then have "tk_users s u = K_Has (Some j)"
      using that by (auto simp: key_publish_def split: if_splits)
    then have "j + 1 = tk_key s" using assms(1) unfolding key_inv_def by blast
    then show ?thesis by (simp add: key_publish_def)
  qed
  ultimately show ?thesis unfolding key_inv_def by blast
qed

lemma key_inv_step:
  assumes "key_inv s" "key_step s s'"
  shows "key_inv s'"
  using assms(2)
proof (cases rule: key_step.cases)
  case (load t)
  then show ?thesis using assms(1)
    by (auto simp: key_inv_def key_load_def being_made_same)
next
  case (create t k)
  then have "k + 1 \<noteq> tk_key s" "\<And>u. tk_users s u \<noteq> K_Created k"
    using assms(1) by (auto simp: key_inv_def being_made_def)
  with create show ?thesis using assms(1) by (auto simp: key_inv_def being_made_more)
next
  case (out_of_keys t)
  then show ?thesis using assms(1) by (auto simp: key_inv_def being_made_same)
next
  case (publish t k)
  then show ?thesis using key_inv_publish [OF assms(1)] by simp
next
  case (answered t r)
  then show ?thesis using assms(1) by (auto simp: key_inv_def being_made_same)
qed

interpretation keys: transition_system "\<lambda>s. s = key_start" key_step key_inv
proof unfold_locales
  fix s :: key_system
  assume "s = key_start"
  then show "key_inv s" by (simp add: key_inv_def key_start_def being_made_def)
qed (rule key_inv_step)

section \<open>\<open>ThreadLocal::with\<close> and \<open>LocalKey\<close>\<close>

text \<open>The values by thread, as \<open>pthread_getspecific\<close> has them; no value is a null pointer.\<close>

type_synonym 'a per_thread = "nat \<Rightarrow> 'a option"

definition tl_with :: "nat option \<Rightarrow> 'a \<Rightarrow> ('a \<Rightarrow> 'r \<times> 'a) \<Rightarrow> 'a per_thread \<Rightarrow> nat \<Rightarrow> 'r option \<times> 'a per_thread" where
  "tl_with key init f vals t =
     (case key of
        None \<Rightarrow> (None, vals)
      | Some _ \<Rightarrow>
          let (r, v) = f (case vals t of None \<Rightarrow> init | Some v \<Rightarrow> v)
          in (Some r, vals(t \<mapsto> v)))"

text \<open>The destructor, which pthreads calls as the thread exits.\<close>

definition drop_box :: "'a per_thread \<Rightarrow> nat \<Rightarrow> 'a per_thread" where
  "drop_box vals t = vals(t := None)"

text \<open>The accessors of a \<open>LocalKey\<close> holding a \<open>Cell\<close>; those of a \<open>RefCell\<close> are in the
  theory Local_Keys. \<open>with\<close> panics, here \<open>None\<close>, when there is no key.\<close>

definition lk_get :: "nat option \<Rightarrow> 'a \<Rightarrow> 'a per_thread \<Rightarrow> nat \<Rightarrow> 'a option \<times> 'a per_thread" where
  "lk_get key init = tl_with key init (\<lambda>c. (c, c))"

definition lk_set :: "nat option \<Rightarrow> 'a \<Rightarrow> 'a \<Rightarrow> 'a per_thread \<Rightarrow> nat \<Rightarrow> unit option \<times> 'a per_thread" where
  "lk_set key init v = tl_with key init (\<lambda>_. ((), v))"

definition lk_replace :: "nat option \<Rightarrow> 'a \<Rightarrow> 'a \<Rightarrow> 'a per_thread \<Rightarrow> nat \<Rightarrow> 'a option \<times> 'a per_thread" where
  "lk_replace key init v = tl_with key init (\<lambda>c. (c, v))"

datatype 'a access = Get | Set 'a | Replace 'a | Exit

fun do_access :: "nat option \<Rightarrow> 'a \<Rightarrow> 'a access \<Rightarrow> 'a per_thread \<Rightarrow> nat \<Rightarrow> 'a option \<times> 'a per_thread" where
  "do_access key init Get vals t = lk_get key init vals t"
| "do_access key init (Set v) vals t = (None, snd (lk_set key init v vals t))"
| "do_access key init (Replace v) vals t = lk_replace key init v vals t"
| "do_access key init Exit vals t = (None, drop_box vals t)"

text \<open>The accesses of all threads in the order they happen, and what each saw.\<close>

fun accesses :: "nat option \<Rightarrow> 'a \<Rightarrow> (nat \<times> 'a access) list \<Rightarrow> 'a per_thread \<Rightarrow> (nat \<times> 'a option) list" where
  "accesses key init [] vals = []"
| "accesses key init ((t, a) # as) vals =
     (let (r, vals') = do_access key init a vals t in (t, r) # accesses key init as vals')"

text \<open>A cell of one thread's own: what the accesses mean.\<close>

fun own_cell :: "'a \<Rightarrow> 'a access list \<Rightarrow> 'a \<Rightarrow> 'a option list" where
  "own_cell init [] c = []"
| "own_cell init (Get # as) c = Some c # own_cell init as c"
| "own_cell init (Set v # as) c = None # own_cell init as v"
| "own_cell init (Replace v # as) c = Some c # own_cell init as v"
| "own_cell init (Exit # as) c = None # own_cell init as init"

definition current :: "'a \<Rightarrow> 'a per_thread \<Rightarrow> nat \<Rightarrow> 'a" where
  "current init vals t = (case vals t of None \<Rightarrow> init | Some v \<Rightarrow> v)"

lemma access_other: "t \<noteq> u \<Longrightarrow> current init (snd (do_access (Some k) init a vals u)) t = current init vals t"
  by (cases a) (simp_all add: lk_get_def lk_set_def lk_replace_def tl_with_def drop_box_def current_def)

lemma accesses_own:
  "map snd (filter (\<lambda>(u, _). u = t) (accesses (Some k) init as vals))
     = own_cell init (map snd (filter (\<lambda>(u, _). u = t) as)) (current init vals t)"
proof (induction as arbitrary: vals)
  case (Cons ua as)
  obtain u a where ua: "ua = (u, a)" by (cases ua)
  show ?case
  proof (cases "u = t")
    case True
    with ua Cons.IH show ?thesis
      by (cases a) (simp_all add: lk_get_def lk_set_def lk_replace_def tl_with_def drop_box_def
          current_def split: option.split)
  next
    case False
    with ua Cons.IH show ?thesis
      using access_other [of t u init k a vals] by (simp add: case_prod_beta Let_def)
  qed
qed simp

section \<open>\<open>ScopedKey\<close>\<close>

text \<open>
  The slot of one thread: the installed pointer, \<open>None\<close> for null. The body of a \<open>set\<close> is code that
  may use the key itself, and may unwind: it takes the slot and gives its outcome and the slot.
\<close>

datatype 'r outcome = Returned 'r | Unwound

definition sk_with :: "('v \<Rightarrow> 'v option \<Rightarrow> 'r outcome \<times> 'v option) \<Rightarrow> 'v option \<Rightarrow> 'r outcome \<times> 'v option" where
  "sk_with f slot = (case slot of None \<Rightarrow> (Unwound, slot) | Some v \<Rightarrow> f v slot)"

definition sk_is_set :: "'v option \<Rightarrow> bool" where
  "sk_is_set slot = (slot \<noteq> None)"

text \<open>\<open>set\<close>: the guard's drop runs whether the body returns or unwinds; \<open>'r\<close> is either way of ending.\<close>

definition sk_set :: "'v \<Rightarrow> ('v option \<Rightarrow> 'r \<times> 'v option) \<Rightarrow> 'v option \<Rightarrow> 'r \<times> 'v option" where
  "sk_set v f slot =
     (let previous = slot;
          (r, slot') = f (Some v)
      in (r, previous))"

text \<open>Code over one key: reading it, asking for it, unwinding, one thing after the other, catching an
  unwind (as the frame that contains a refused program does), and installing a value around code.\<close>

datatype 'v code = Read | Ask | Raise | Then "'v code" "'v code" | Contain "'v code" | Install 'v "'v code"

text \<open>What it does with the slot, and what it observes: values read and answers of \<open>is_set\<close>.\<close>

fun exec :: "'v code \<Rightarrow> 'v option \<Rightarrow> (('v + bool) list \<times> bool) \<times> 'v option" where
  "exec Read slot =
     (case sk_with (\<lambda>v s. (Returned v, s)) slot of
        (Returned v, s) \<Rightarrow> (([Inl v], True), s) | (Unwound, s) \<Rightarrow> (([], False), s))"
| "exec Ask slot = (([Inr (sk_is_set slot)], True), slot)"
| "exec Raise slot = (([], False), slot)"
| "exec (Then a b) slot =
     (let ((seen, ok), slot') = exec a slot in
      if ok then (let ((seen', ok'), slot'') = exec b slot' in ((seen @ seen', ok'), slot''))
      else ((seen, False), slot'))"
| "exec (Contain a) slot = (let ((seen, ok), slot') = exec a slot in ((seen, True), slot'))"
| "exec (Install v a) slot = sk_set v (exec a) slot"

text \<open>The reading with no slot at all: the value in scope is the innermost one installed around.\<close>

fun lexical :: "'v code \<Rightarrow> 'v option \<Rightarrow> ('v + bool) list \<times> bool" where
  "lexical Read env = (case env of None \<Rightarrow> ([], False) | Some v \<Rightarrow> ([Inl v], True))"
| "lexical Ask env = ([Inr (env \<noteq> None)], True)"
| "lexical Raise env = ([], False)"
| "lexical (Then a b) env =
     (if snd (lexical a env) then (fst (lexical a env) @ fst (lexical b env), snd (lexical b env))
      else (fst (lexical a env), False))"
| "lexical (Contain a) env = (fst (lexical a env), True)"
| "lexical (Install v a) env = lexical a (Some v)"

lemma exec_lexical: "exec c slot = (lexical c slot, slot)"
  by (induction c arbitrary: slot)
     (auto simp: sk_with_def sk_is_set_def sk_set_def Let_def case_prod_beta split: option.split)

section \<open>\<open>Once\<close> and \<open>PENDING\<close>\<close>

text \<open>
  Functions and controls are numbered. A call of \<open>call_once\<close> stores its function in the one global
  \<open>PENDING\<close>, then enters \<open>pthread_once\<close>, which runs \<open>run_pending\<close> for the first caller on a control,
  returns at once for a caller on a completed one and makes the others wait; \<open>run_pending\<close> reads
  \<open>PENDING\<close> and runs what it finds. \<open>oc_ran\<close> and \<open>oc_stored\<close> record what ran on which control and what
  was ever asked for.
\<close>

datatype control = Fresh | Running nat | Complete

datatype caller = C_Out | C_Stored nat nat | C_Entered nat | C_Inside nat

record once_calls =
  oc_pending :: "nat option"
  oc_control :: "nat \<Rightarrow> control"
  oc_callers :: "nat \<Rightarrow> caller"
  oc_ran :: "(nat \<times> nat) list"
  oc_stored :: "nat set"

definition oc_start :: once_calls where
  "oc_start = \<lparr>oc_pending = None, oc_control = (\<lambda>_. Fresh), oc_callers = (\<lambda>_. C_Out), oc_ran = [],
     oc_stored = {}\<rparr>"

definition call_once :: "once_calls \<Rightarrow> nat \<Rightarrow> nat \<Rightarrow> nat \<Rightarrow> once_calls" where
  "call_once s t c f = s\<lparr>oc_pending := Some f, oc_callers := (oc_callers s)(t := C_Stored c f),
     oc_stored := insert f (oc_stored s)\<rparr>"

definition run_pending :: "once_calls \<Rightarrow> nat \<Rightarrow> nat \<Rightarrow> once_calls" where
  "run_pending s t c = s\<lparr>oc_callers := (oc_callers s)(t := C_Inside c),
     oc_ran := oc_ran s @ (case oc_pending s of Some f \<Rightarrow> [(c, f)] | None \<Rightarrow> [])\<rparr>"

inductive oc_step :: "once_calls \<Rightarrow> once_calls \<Rightarrow> bool" where
  store: "oc_callers s t = C_Out \<Longrightarrow> oc_step s (call_once s t c f)"
| enter: "oc_callers s t = C_Stored c f \<Longrightarrow> oc_control s c = Fresh \<Longrightarrow>
    oc_step s (s\<lparr>oc_callers := (oc_callers s)(t := C_Entered c), oc_control := (oc_control s)(c := Running t)\<rparr>)"
| run: "oc_callers s t = C_Entered c \<Longrightarrow> oc_step s (run_pending s t c)"
| finish: "oc_callers s t = C_Inside c \<Longrightarrow>
    oc_step s (s\<lparr>oc_callers := (oc_callers s)(t := C_Out), oc_control := (oc_control s)(c := Complete)\<rparr>)"
| already: "oc_callers s t = C_Stored c f \<Longrightarrow> oc_control s c = Complete \<Longrightarrow>
    oc_step s (s\<lparr>oc_callers := (oc_callers s)(t := C_Out)\<rparr>)"

fun caller_ok :: "once_calls \<Rightarrow> nat \<Rightarrow> caller \<Rightarrow> bool" where
  "caller_ok s t C_Out = True"
| "caller_ok s t (C_Stored c f) = (oc_pending s \<noteq> None)"
| "caller_ok s t (C_Entered c) =
     (oc_pending s \<noteq> None \<and> oc_control s c = Running t \<and> c \<notin> fst ` set (oc_ran s))"
| "caller_ok s t (C_Inside c) = (oc_control s c = Running t \<and> c \<in> fst ` set (oc_ran s))"

definition oc_inv :: "once_calls \<Rightarrow> bool" where
  "oc_inv s \<longleftrightarrow>
     (\<forall>t. caller_ok s t (oc_callers s t))
     \<and> (\<forall>f. oc_pending s = Some f \<longrightarrow> f \<in> oc_stored s)
     \<and> (\<forall>c. oc_control s c = Fresh \<longrightarrow> c \<notin> fst ` set (oc_ran s))
     \<and> (\<forall>c. oc_control s c = Complete \<longrightarrow> c \<in> fst ` set (oc_ran s))
     \<and> distinct (map fst (oc_ran s)) \<and> snd ` set (oc_ran s) \<subseteq> oc_stored s"

lemma caller_ok_kept:
  assumes "caller_ok s u x"
    and "oc_pending s \<noteq> None \<Longrightarrow> oc_pending s' \<noteq> None"
    and "\<And>c. oc_control s c = Running u \<Longrightarrow> oc_control s' c = Running u
      \<and> (c \<in> fst ` set (oc_ran s') \<longleftrightarrow> c \<in> fst ` set (oc_ran s))"
  shows "caller_ok s' u x"
  using assms by (cases x) auto

lemma oc_inv_step:
  assumes "oc_inv s" "oc_step s s'"
  shows "oc_inv s'"
proof -
  have ok: "caller_ok s u (oc_callers s u)" for u using assms(1) by (simp add: oc_inv_def)
  note kept = caller_ok_kept [OF ok]
  from assms(2) show ?thesis
  proof (cases rule: oc_step.cases)
    case (store t c f)
    then have "caller_ok s' u (oc_callers s' u)" for u
      using kept [of s' u] by (cases "u = t") (auto simp: call_once_def)
    with store show ?thesis using assms(1) by (auto simp: oc_inv_def call_once_def)
  next
    case (enter t c f)
    have "caller_ok s' u (oc_callers s u)" for u
      by (rule kept) (use enter in auto)
    moreover have "caller_ok s' t (C_Entered c)"
      using enter ok [of t] assms(1) by (auto simp: oc_inv_def)
    ultimately have "caller_ok s' u (oc_callers s' u)" for u
      using enter by (cases "u = t") auto
    with enter show ?thesis using assms(1) by (auto simp: oc_inv_def)
  next
    case (run t c)
    have r: "oc_pending s \<noteq> None" "oc_control s c = Running t" "c \<notin> fst ` set (oc_ran s)"
      using ok [of t] run by auto
    from r(1) obtain f where f: "oc_pending s = Some f" by auto
    have "caller_ok s' u (oc_callers s u)" if "u \<noteq> t" for u
      by (rule kept) (use run r f that in \<open>auto simp: run_pending_def\<close>)
    then have "caller_ok s' u (oc_callers s' u)" for u
      using run r f by (cases "u = t") (auto simp: run_pending_def)
    with run f r show ?thesis using assms(1) by (auto simp: oc_inv_def run_pending_def)
  next
    case (finish t c)
    have "caller_ok s' u (oc_callers s u)" if "u \<noteq> t" for u
      by (rule kept) (use finish ok [of t] that in auto)
    then have "caller_ok s' u (oc_callers s' u)" for u
      using finish by (cases "u = t") auto
    with finish ok [of t] show ?thesis using assms(1) by (auto simp: oc_inv_def)
  next
    case (already t c f)
    then have "caller_ok s' u (oc_callers s' u)" for u
      using kept [of s' u] by (cases "u = t") auto
    with already show ?thesis using assms(1) by (auto simp: oc_inv_def)
  qed
qed

interpretation once_calls: transition_system "\<lambda>s. s = oc_start" oc_step oc_inv
proof unfold_locales
  fix s :: once_calls
  assume "s = oc_start"
  then show "oc_inv s" by (simp add: oc_inv_def oc_start_def)
qed (rule oc_inv_step)

section \<open>Properties\<close>

text \<open>C19 (safety). However many threads race to a \<open>ThreadLocal\<close>'s first use, all of them get the same key,
  every key a loser created is deleted, and no key anybody uses is ever deleted: once nobody is
  between creating and publishing, the keys alive are exactly the published one.\<close>

theorem one_key_for_all:
  assumes "reach (\<lambda>s. s = key_start) key_step s"
  shows "(tk_users s t = K_Has (Some j) \<longrightarrow> tk_users s u = K_Has (Some k) \<longrightarrow> j = k)
    \<and> (tk_users s t = K_Has (Some j) \<longrightarrow> j \<in> tk_live s)
    \<and> ((\<forall>t k. tk_users s t \<noteq> K_Created k) \<longrightarrow> tk_live s = {k. k + 1 = tk_key s})"
proof -
  have inv: "key_inv s" by (rule keys.reachable_inv [OF assms])
  then have has: "tk_users s t = K_Has (Some j) \<Longrightarrow> j + 1 = tk_key s" for t j
    unfolding key_inv_def by blast
  have live: "tk_live s = {k. k + 1 = tk_key s} \<union> being_made (tk_users s)"
    using inv by (simp add: key_inv_def)
  have "j = k" if "tk_users s t = K_Has (Some j)" "tk_users s u = K_Has (Some k)"
    using has [OF that(1)] has [OF that(2)] by simp
  moreover have "j \<in> tk_live s" if "tk_users s t = K_Has (Some j)"
    using has [OF that] live by simp
  moreover have "tk_live s = {k. k + 1 = tk_key s}" if "\<forall>t k. tk_users s t \<noteq> K_Created k"
    using live that by (simp add: being_made_def)
  ultimately show ?thesis by blast
qed

text \<open>Two threads create a key each; the second loses.\<close>

definition race :: key_system where
  "race = key_publish (key_publish ((key_to ((key_to (key_load (key_load key_start 1) 2) 1 (K_Created 0))
     \<lparr>tk_live := {0}\<rparr>) 2 (K_Created 1))\<lparr>tk_live := {1, 0}\<rparr>) 1 0) 2 1"

lemma race_reached: "reach (\<lambda>s. s = key_start) key_step race"
proof -
  let ?a = "key_load key_start 1"
  let ?b = "key_load ?a 2"
  let ?c = "(key_to ?b 1 (K_Created 0))\<lparr>tk_live := {0}\<rparr>"
  let ?d = "(key_to ?c 2 (K_Created 1))\<lparr>tk_live := {1, 0}\<rparr>"
  have "key_step key_start ?a" by (rule key_step.load) (simp add: key_start_def)
  moreover have "key_step ?a ?b" by (rule key_step.load) (simp add: key_start_def key_load_def)
  moreover have "key_step ?b ?c"
    using key_step.create [of ?b 1 0] by (simp add: key_start_def key_load_def)
  moreover have "key_step ?c ?d"
    using key_step.create [of ?c 2 1] by (simp add: key_start_def key_load_def)
  moreover have "key_step ?d (key_publish ?d 1 0)" by (rule key_step.publish) simp
  moreover have "key_step (key_publish ?d 1 0) race"
    unfolding race_def by (rule key_step.publish) (simp add: key_publish_def)
  ultimately have "key_step\<^sup>*\<^sup>* key_start race" by (meson rtranclp.intros)
  then show ?thesis by (rule keys.reachable_steps [OF reach.reach_init, OF refl])
qed

theorem one_key_for_all_witness:
  "tk_users race 1 = K_Has (Some 0) \<and> tk_users race 2 = K_Has (Some 0) \<and> 0 \<in> tk_live race"
proof -
  have "tk_users race 1 = K_Has (Some 0)" "tk_users race 2 = K_Has (Some 0)"
    by (simp_all add: race_def key_publish_def key_load_def key_start_def)
  with one_key_for_all [OF race_reached, of 1 0 2 0] show ?thesis by simp
qed

text \<open>Every thread has a value of its own under a \<open>LocalKey\<close>: in any interleaving of
  \<open>get\<close>, \<open>set\<close>, \<open>replace\<close> and thread exits, what one thread's accesses see is what they would see on
  a cell that only this thread uses, initialised at its first touch and anew after its exit.\<close>

theorem local_key_is_per_thread:
  "map snd (filter (\<lambda>(u, _). u = t) (accesses (Some k) init as (\<lambda>_. None)))
     = own_cell init (map snd (filter (\<lambda>(u, _). u = t) as)) init"
  using accesses_own [of t k init as "\<lambda>_. None"] by (simp add: current_def)

text \<open>C20 (equivalence). A value installed with \<open>ScopedKey::set\<close> is in scope for exactly the body: for any
  code nesting \<open>set\<close>, \<open>with\<close> and \<open>is_set\<close>, reading sees the innermost value installed around it
  (and panics where there is none), and the slot is afterwards what it was, also when the code
  unwinds out of any number of bodies and is contained further up.\<close>

theorem scoped_key_is_lexical:
  "fst (exec c slot) = lexical c slot \<and> snd (exec c slot) = slot"
  by (simp add: exec_lexical)

text \<open>Each \<open>Once\<close> runs at most one function, of those passed to some \<open>call_once\<close>, and
  has run one whenever it is complete; so where all calls in the process pass one and the same
  function, that function has run exactly once for each complete \<open>Once\<close>.\<close>

theorem once_runs_once:
  assumes "reach (\<lambda>s. s = oc_start) oc_step s"
  shows "distinct (map fst (oc_ran s)) \<and> snd ` set (oc_ran s) \<subseteq> oc_stored s
    \<and> (oc_control s c = Complete \<longrightarrow> c \<in> fst ` set (oc_ran s))
    \<and> (oc_stored s = {f} \<longrightarrow> oc_control s c = Complete \<longrightarrow> filter (\<lambda>(d, _). d = c) (oc_ran s) = [(c, f)])"
proof -
  have inv: "oc_inv s" by (rule once_calls.reachable_inv [OF assms])
  have only: "filter (\<lambda>(d, _). d = c) xs = [(c, f)]"
    if "distinct (map fst xs)" "snd ` set xs \<subseteq> {f}" "c \<in> fst ` set xs" for xs :: "(nat \<times> nat) list"
    using that
  proof (induction xs)
    case (Cons x xs)
    show ?case
    proof (cases "fst x = c")
      case True
      with Cons.prems(1) have "filter (\<lambda>(d, _). d = c) xs = []"
        by (auto simp: filter_empty_conv) (metis fst_conv image_eqI)
      with True Cons.prems(2) show ?thesis by (cases x) auto
    next
      case False
      with Cons show ?thesis by (cases x) auto
    qed
  qed simp
  show ?thesis using inv only [of "oc_ran s"] by (auto simp: oc_inv_def)
qed

theorem once_runs_once_witness:
  "distinct (map fst (oc_ran (call_once oc_start 1 4 9)))"
proof -
  have "oc_step oc_start (call_once oc_start 1 4 9)" by (rule oc_step.store) (simp add: oc_start_def)
  then have "reach (\<lambda>s. s = oc_start) oc_step (call_once oc_start 1 4 9)" by (blast intro: reach.intros)
  from once_runs_once [OF this, of 4 9] show ?thesis by (rule conjunct1)
qed

text \<open>
  With two functions the global \<open>PENDING\<close> is a race: thread 1 asks for function 10 on \<open>Once\<close> 1,
  thread 2 for 20 on \<open>Once\<close> 2, and thread 2's store falls between thread 1's store and its callback.
  Both are then complete, 20 has run twice and 10 never.
\<close>

lemma pending_race:
  "\<exists>s. reach (\<lambda>s. s = oc_start) oc_step s \<and> oc_control s 1 = Complete \<and> oc_control s 2 = Complete
     \<and> oc_ran s = [(1, 20), (2, 20)]"
proof -
  let ?a = "call_once oc_start 1 1 10"
  let ?b = "call_once ?a 2 2 20"
  let ?enter = "\<lambda>s t c. s\<lparr>oc_callers := (oc_callers s)(t := C_Entered c), oc_control := (oc_control s)(c := Running t)\<rparr>"
  let ?finish = "\<lambda>s t c. s\<lparr>oc_callers := (oc_callers s)(t := C_Out), oc_control := (oc_control s)(c := Complete)\<rparr>"
  let ?c = "?enter ?b 1 1"
  let ?d = "?finish (run_pending ?c 1 1) 1 1"
  let ?e = "?enter ?d 2 2"
  let ?f = "?finish (run_pending ?e 2 2) 2 2"
  note defs = oc_start_def call_once_def run_pending_def
  have "oc_step oc_start ?a" by (rule oc_step.store) (simp add: defs)
  moreover have "oc_step ?a ?b" by (rule oc_step.store) (simp add: defs)
  moreover have "oc_step ?b ?c" by (rule oc_step.enter) (simp_all add: defs)
  moreover have "oc_step ?c (run_pending ?c 1 1)" by (rule oc_step.run) (simp add: defs)
  moreover have "oc_step (run_pending ?c 1 1) ?d" by (rule oc_step.finish) (simp add: defs)
  moreover have "oc_step ?d ?e" by (rule oc_step.enter) (simp_all add: defs)
  moreover have "oc_step ?e (run_pending ?e 2 2)" by (rule oc_step.run) (simp add: defs)
  moreover have "oc_step (run_pending ?e 2 2) ?f" by (rule oc_step.finish) (simp add: defs)
  ultimately have "oc_step\<^sup>*\<^sup>* oc_start ?f" by (meson rtranclp.intros)
  then have "reach (\<lambda>s. s = oc_start) oc_step ?f"
    by (rule once_calls.reachable_steps [OF reach.reach_init, OF refl])
  then show ?thesis by (intro exI [of _ ?f]) (simp add: defs)
qed

end
