(* ===== verification/Local_Keys.thy ===== *)
theory Local_Keys
  imports Thread_Values
begin

text \<open>
  The accessors of a \<open>LocalKey\<close> of \<open>src/thread.rs\<close> whose value is a \<open>RefCell\<close>: \<open>with_borrow\<close>,
  \<open>with_borrow_mut\<close>, \<open>replace\<close>, \<open>take\<close>, \<open>set\<close>. The closures they run may use the same key again, so the
  borrow flag of the cell is part of the state and a borrow that is refused unwinds.
\<close>

section \<open>The cell\<close>

text \<open>
  \<open>RefCell\<close> of the standard library: the number of shared borrows when the flag is positive, an
  exclusive one when it is negative. A borrow is given back when its guard is dropped, on return and
  on unwinding alike. The flag of the library has the width of a pointer; it is unbounded here, which
  leaves out the refusal of the last of \<open>2 ^ 63\<close> nested borrows.
\<close>

record 'v ref_cell =
  borrow_flag :: int
  contents :: 'v

definition ref_cell_new :: "'v \<Rightarrow> 'v ref_cell" where
  "ref_cell_new v = \<lparr>borrow_flag = 0, contents = v\<rparr>"

definition borrow :: "('v ref_cell \<Rightarrow> 'r outcome \<times> 'v ref_cell) \<Rightarrow> 'v ref_cell \<Rightarrow> 'r outcome \<times> 'v ref_cell" where
  "borrow f c =
     (if borrow_flag c < 0 then (Unwound, c)
      else let (r, c') = f (c\<lparr>borrow_flag := borrow_flag c + 1\<rparr>)
           in (r, c'\<lparr>borrow_flag := borrow_flag c' - 1\<rparr>))"

definition borrow_mut :: "('v ref_cell \<Rightarrow> 'r outcome \<times> 'v ref_cell) \<Rightarrow> 'v ref_cell \<Rightarrow> 'r outcome \<times> 'v ref_cell" where
  "borrow_mut f c =
     (if borrow_flag c \<noteq> 0 then (Unwound, c)
      else let (r, c') = f (c\<lparr>borrow_flag := -1\<rparr>)
           in (r, c'\<lparr>borrow_flag := borrow_flag c' + 1\<rparr>))"

definition ref_cell_replace :: "'v \<Rightarrow> 'v ref_cell \<Rightarrow> 'v outcome \<times> 'v ref_cell" where
  "ref_cell_replace v = borrow_mut (\<lambda>c. (Returned (contents c), c\<lparr>contents := v\<rparr>))"

section \<open>The accessors\<close>

text \<open>
  Each is \<open>with\<close> of the key around an operation of the cell; \<open>None\<close> is the panic of \<open>with\<close> where the
  process has no key left. What a closure does to the contents, and any further use of the key, is in
  its argument: the thread's cell.
\<close>

definition lk_with :: "nat option \<Rightarrow> 'a \<Rightarrow> ('a \<Rightarrow> 'r \<times> 'a)
    \<Rightarrow> 'a per_thread \<Rightarrow> nat \<Rightarrow> 'r option \<times> 'a per_thread" where
  "lk_with key init f = tl_with key init f"

definition lk_with_borrow :: "nat option \<Rightarrow> 'v \<Rightarrow> ('v ref_cell \<Rightarrow> 'r outcome \<times> 'v ref_cell)
    \<Rightarrow> 'v ref_cell per_thread \<Rightarrow> nat \<Rightarrow> 'r outcome option \<times> 'v ref_cell per_thread" where
  "lk_with_borrow key init f = lk_with key (ref_cell_new init) (borrow f)"

definition lk_with_borrow_mut :: "nat option \<Rightarrow> 'v \<Rightarrow> ('v ref_cell \<Rightarrow> 'r outcome \<times> 'v ref_cell)
    \<Rightarrow> 'v ref_cell per_thread \<Rightarrow> nat \<Rightarrow> 'r outcome option \<times> 'v ref_cell per_thread" where
  "lk_with_borrow_mut key init f = lk_with key (ref_cell_new init) (borrow_mut f)"

definition lk_cell_replace :: "nat option \<Rightarrow> 'v \<Rightarrow> 'v
    \<Rightarrow> 'v ref_cell per_thread \<Rightarrow> nat \<Rightarrow> 'v outcome option \<times> 'v ref_cell per_thread" where
  "lk_cell_replace key init v = lk_with key (ref_cell_new init) (ref_cell_replace v)"

definition lk_cell_take :: "nat option \<Rightarrow> 'v \<Rightarrow> 'v
    \<Rightarrow> 'v ref_cell per_thread \<Rightarrow> nat \<Rightarrow> 'v outcome option \<times> 'v ref_cell per_thread" where
  "lk_cell_take key init dflt = lk_with key (ref_cell_new init) (ref_cell_replace dflt)"

definition lk_cell_set :: "nat option \<Rightarrow> 'v \<Rightarrow> 'v
    \<Rightarrow> 'v ref_cell per_thread \<Rightarrow> nat \<Rightarrow> unit outcome option \<times> 'v ref_cell per_thread" where
  "lk_cell_set key init v =
     lk_with key (ref_cell_new init) (borrow_mut (\<lambda>c. (Returned (), c\<lparr>contents := v\<rparr>)))"

section \<open>Code over one key\<close>

text \<open>
  Closures nested to any depth: reading the value, exchanging it, taking it, overwriting it, reading it under a
  shared borrow while running further code, changing it under an exclusive borrow while running
  further code, one thing after the other, unwinding and containing an unwind.
\<close>

datatype 'v accessing =
    A_Read | A_Replace 'v | A_Take 'v | A_Set 'v | A_Raise
  | A_Then "'v accessing" "'v accessing" | A_Contain "'v accessing"
  | A_Borrow "'v accessing" | A_Borrow_Mut "'v \<Rightarrow> 'v" "'v accessing"

text \<open>An accessor run by a closure of the thread that already has the key: the operation of the cell
  that is already there.\<close>

definition run_nested :: "('v ref_cell per_thread \<Rightarrow> nat \<Rightarrow> 'r outcome option \<times> 'v ref_cell per_thread)
    \<Rightarrow> 'v ref_cell \<Rightarrow> 'r outcome \<times> 'v ref_cell" where
  "run_nested op c =
     (let (r, vals) = op (\<lambda>_. Some c) 0
      in (case r of None \<Rightarrow> Unwound | Some x \<Rightarrow> x, case vals 0 of None \<Rightarrow> c | Some c' \<Rightarrow> c'))"

text \<open>What the code observes, whether it returned, and the cell afterwards. A refused borrow observes
  nothing and unwinds.\<close>

definition observed :: "('v list \<times> bool) outcome \<times> 'v ref_cell \<Rightarrow> ('v list \<times> bool) \<times> 'v ref_cell" where
  "observed rc = (case rc of (Returned r, c) \<Rightarrow> (r, c) | (Unwound, c) \<Rightarrow> (([], False), c))"

definition old_value :: "'v outcome \<times> 'v ref_cell \<Rightarrow> ('v list \<times> bool) outcome \<times> 'v ref_cell" where
  "old_value rc =
     (case rc of (Returned v, c) \<Rightarrow> (Returned ([v], True), c) | (Unwound, c) \<Rightarrow> (Unwound, c))"

definition no_value :: "unit outcome \<times> 'v ref_cell \<Rightarrow> ('v list \<times> bool) outcome \<times> 'v ref_cell" where
  "no_value rc =
     (case rc of (Returned _, c) \<Rightarrow> (Returned ([], True), c) | (Unwound, c) \<Rightarrow> (Unwound, c))"

fun run :: "nat \<Rightarrow> 'v \<Rightarrow> 'v accessing \<Rightarrow> 'v ref_cell \<Rightarrow> ('v list \<times> bool) \<times> 'v ref_cell" where
  "run k init A_Read c =
     observed (run_nested (lk_with_borrow (Some k) init (\<lambda>c. (Returned ([contents c], True), c))) c)"
| "run k init (A_Replace v) c = observed (old_value (run_nested (lk_cell_replace (Some k) init v) c))"
| "run k init (A_Take v) c = observed (old_value (run_nested (lk_cell_take (Some k) init v) c))"
| "run k init (A_Set v) c = observed (no_value (run_nested (lk_cell_set (Some k) init v) c))"
| "run k init A_Raise c = (([], False), c)"
| "run k init (A_Then a b) c =
     (let ((seen, ok), c') = run k init a c in
      if ok then (let ((seen', ok'), c'') = run k init b c' in ((seen @ seen', ok'), c''))
      else ((seen, False), c'))"
| "run k init (A_Contain a) c = (let ((seen, ok), c') = run k init a c in ((seen, True), c'))"
| "run k init (A_Borrow a) c =
     observed (run_nested (lk_with_borrow (Some k) init
       (\<lambda>c. let (r, c') = run k init a c in (Returned r, c'))) c)"
| "run k init (A_Borrow_Mut g a) c =
     observed (run_nested (lk_with_borrow_mut (Some k) init
       (\<lambda>c. let (r, c') = run k init a (c\<lparr>contents := g (contents c)\<rparr>) in (Returned r, c'))) c)"

section \<open>The meaning without a flag\<close>

text \<open>What is borrowed around a piece of code decides what it may do, and nothing else does.\<close>

datatype borrowed = B_Free | B_Shared | B_Exclusive

fun meaning :: "'v accessing \<Rightarrow> borrowed \<Rightarrow> 'v \<Rightarrow> ('v list \<times> bool) \<times> 'v" where
  "meaning A_Read b v = (if b = B_Exclusive then (([], False), v) else (([v], True), v))"
| "meaning (A_Replace w) b v = (if b = B_Free then (([v], True), w) else (([], False), v))"
| "meaning (A_Take w) b v = (if b = B_Free then (([v], True), w) else (([], False), v))"
| "meaning (A_Set w) b v = (if b = B_Free then (([], True), w) else (([], False), v))"
| "meaning A_Raise b v = (([], False), v)"
| "meaning (A_Then x y) b v =
     (let ((seen, ok), v') = meaning x b v in
      if ok then (let ((seen', ok'), v'') = meaning y b v' in ((seen @ seen', ok'), v''))
      else ((seen, False), v'))"
| "meaning (A_Contain x) b v = (let ((seen, ok), v') = meaning x b v in ((seen, True), v'))"
| "meaning (A_Borrow x) b v =
     (if b = B_Exclusive then (([], False), v) else meaning x B_Shared v)"
| "meaning (A_Borrow_Mut g x) b v =
     (if b = B_Free then meaning x B_Exclusive (g v) else (([], False), v))"

definition borrowed_by :: "'v ref_cell \<Rightarrow> borrowed" where
  "borrowed_by c =
     (if borrow_flag c = 0 then B_Free else if 0 < borrow_flag c then B_Shared else B_Exclusive)"

lemma run_nested_with [simp]: "run_nested (\<lambda>vals t. tl_with (Some k) init f vals t) c = f c"
  by (simp add: run_nested_def tl_with_def case_prod_beta Let_def)

lemma run_nested_with' [simp]: "run_nested (tl_with (Some k) init f) c = f c"
  using run_nested_with [of k init f c] by simp

lemmas cell_ops = lk_with_def lk_with_borrow_def lk_with_borrow_mut_def lk_cell_replace_def lk_cell_take_def
  lk_cell_set_def borrow_def borrow_mut_def ref_cell_replace_def observed_def old_value_def no_value_def

text \<open>Code under a borrow cannot change what the borrow shows.\<close>

lemma borrowed_is_stable: "b \<noteq> B_Free \<Longrightarrow> snd (meaning a b v) = v"
  by (induction a arbitrary: b v) (auto simp: Let_def case_prod_beta)

lemma run_meaning:
  "- 1 \<le> borrow_flag c \<Longrightarrow>
   run k init a c =
     (fst (meaning a (borrowed_by c) (contents c)),
      c\<lparr>contents := snd (meaning a (borrowed_by c) (contents c))\<rparr>)"
proof (induction a arbitrary: c)
  case (A_Then a b)
  then show ?case by (simp add: Let_def case_prod_beta borrowed_by_def)
next
  case (A_Borrow a)
  from A_Borrow.prems A_Borrow.IH [of "c\<lparr>borrow_flag := borrow_flag c + 1\<rparr>"] show ?case
    by (auto simp: cell_ops borrowed_by_def)
next
  case (A_Borrow_Mut g a)
  from A_Borrow_Mut.prems A_Borrow_Mut.IH [of "c\<lparr>borrow_flag := -1, contents := g (contents c)\<rparr>"]
  show ?case by (auto simp: cell_ops borrowed_by_def)
qed (simp_all add: cell_ops borrowed_by_def Let_def case_prod_beta)

section \<open>Properties\<close>

text \<open>C21 (equivalence). The borrows of a \<open>RefCell\<close> in a \<open>LocalKey\<close> are lexical: for closures that
  use the key again, to any depth and unwinding or not, what is read and where a panic starts is
  decided by the borrows around the code alone, every borrow is given back, and code under one cannot
  change the value it shows.\<close>

theorem refcell_borrows_are_lexical:
  "run k init a (ref_cell_new v) =
     (fst (meaning a B_Free v), ref_cell_new (snd (meaning a B_Free v)))
   \<and> snd (meaning x B_Shared v) = v \<and> snd (meaning x B_Exclusive v) = v"
  by (simp add: run_meaning borrowed_is_stable ref_cell_new_def borrowed_by_def)

text \<open>\<open>set\<close> under \<open>with_borrow\<close> panics; the same after the borrow has ended, by an unwind, succeeds.\<close>

lemma set_under_borrow:
  "run k init (A_Borrow (A_Set 5)) (ref_cell_new (3 :: nat)) = (([], False), ref_cell_new 3)"
  "run k init (A_Then (A_Contain (A_Borrow A_Raise)) (A_Then (A_Set 5) A_Read)) (ref_cell_new (3 :: nat))
     = (([5], True), ref_cell_new 5)"
  by (simp_all add: run_meaning ref_cell_new_def borrowed_by_def del: run.simps)

end
