(* ===== verification/Env.thy ===== *)
theory Env
  imports Utf8 Errors
begin

text \<open>
  \<open>src/env.rs\<close>: the environment, the working directory, the executable and the arguments. What libc
  and the kernel answer is an argument of each definition: \<open>getenv\<close> gives the memory a pointer points
  into (from the pointer on), a system call that fills a buffer gives the buffer. A loop that reads a
  C string past the end of the memory it was given is \<open>None\<close>.
\<close>

section \<open>C strings out of memory and into calls\<close>

text \<open>The byte-at-a-time loop of \<open>var_os\<close>, \<open>args\<close> and \<open>environ\<close>.\<close>

fun read_c :: "bytes \<Rightarrow> bytes option" where
  "read_c [] = None"
| "read_c (b # bs) = (if b = 0 then Some [] else map_option (Cons b) (read_c bs))"

lemma read_c_c_string: "read_c buf = c_string buf"
  by (induction buf) (auto simp: c_string_def)

definition nul_end :: "bytes \<Rightarrow> bytes" where
  "nul_end s = s @ [0]"

lemma c_string_nul_end: "NUL \<notin> set s \<Longrightarrow> c_string (nul_end s) = Some s"
  using c_string_terminated [of s "[]"] by (simp add: nul_end_def)

text \<open>\<open>iter().position(|&b| b == 0)\<close> and \<open>truncate\<close>, on a buffer a call has filled.\<close>

definition up_to_nul :: "bytes \<Rightarrow> bytes option" where
  "up_to_nul buf = (case position (\<lambda>b. b = 0) buf of None \<Rightarrow> None | Some n \<Rightarrow> Some (take n buf))"

lemma take_position: "position P xs = Some n \<Longrightarrow> take n xs = takeWhile (\<lambda>x. \<not> P x) xs"
  by (induction xs arbitrary: n) (auto split: if_splits)

lemma up_to_nul_c_string: "up_to_nul buf = c_string buf"
proof (cases "position (\<lambda>b. b = 0) buf")
  case None
  then have "NUL \<notin> set buf" by auto
  with None show ?thesis unfolding up_to_nul_def c_string_def by (simp only: option.case if_False)
next
  case (Some n)
  then have "n < length buf" "buf ! n = NUL" by (simp_all add: position_Some)
  then have "NUL \<in> set buf" by (metis nth_mem)
  with Some show ?thesis by (simp add: up_to_nul_def c_string_def take_position)
qed

section \<open>Variables\<close>

text \<open>\<open>'e\<close> is the environment as libc has it.\<close>

type_synonym 'e getenv = "'e \<Rightarrow> bytes \<Rightarrow> bytes option"

type_synonym 'e setenv = "'e \<Rightarrow> bytes \<Rightarrow> bytes \<Rightarrow> 'e"

definition var_os :: "'e getenv \<Rightarrow> 'e \<Rightarrow> bytes \<Rightarrow> bytes option" where
  "var_os getenv e name =
     (case getenv e (nul_end name) of None \<Rightarrow> None | Some p \<Rightarrow> read_c p)"

definition var :: "'e getenv \<Rightarrow> 'e \<Rightarrow> bytes \<Rightarrow> bytes option" where
  "var getenv e name =
     (case var_os getenv e name of None \<Rightarrow> None | Some v \<Rightarrow> from_utf8 v)"

definition set_var :: "'e setenv \<Rightarrow> 'e \<Rightarrow> bytes \<Rightarrow> bytes \<Rightarrow> 'e" where
  "set_var setenv e name value = setenv e (nul_end name) (nul_end value)"

definition set_var_bytes :: "'e setenv \<Rightarrow> 'e \<Rightarrow> bytes \<Rightarrow> bytes \<Rightarrow> 'e" where
  "set_var_bytes setenv e name value = setenv e (nul_end name) (nul_end value)"

text \<open>What POSIX says of \<open>setenv\<close> with its overwrite flag followed by \<open>getenv\<close>: the name is a non-empty
  string without \<open>=\<close>; afterwards it has the value, and other names have what they had.\<close>

definition environment_laws :: "'e getenv \<Rightarrow> 'e setenv \<Rightarrow> bool" where
  "environment_laws getenv setenv \<longleftrightarrow>
     (\<forall>e n v n' v' m m'. c_string n = Some n' \<longrightarrow> c_string v = Some v' \<longrightarrow> c_string m = Some m' \<longrightarrow>
        n' \<noteq> [] \<longrightarrow> EQUALS \<notin> set n' \<longrightarrow>
        (case getenv (setenv e n v) m of None \<Rightarrow> None | Some p \<Rightarrow> c_string p)
          = (if m' = n' then Some v' else (case getenv e m of None \<Rightarrow> None | Some p \<Rightarrow> c_string p)))"

definition temp_dir :: "'e getenv \<Rightarrow> 'e \<Rightarrow> bytes" where
  "temp_dir getenv e =
     (case var_os getenv e (bstr ''TMPDIR'') of
        Some v \<Rightarrow> if v \<noteq> [] then v else bstr ''/tmp''
      | None \<Rightarrow> bstr ''/tmp'')"

definition split_paths :: "bytes \<Rightarrow> bytes list" where
  "split_paths paths = filter (\<lambda>s. s \<noteq> []) (split_on (\<lambda>b. b = COLON) paths)"

text \<open>\<open>environ\<close>: the array of pointers up to the null one, each read as a C string.\<close>

fun environ_loop :: "bytes option list \<Rightarrow> bytes list option" where
  "environ_loop [] = None"
| "environ_loop (None # _) = Some []"
| "environ_loop (Some p # ps) =
     (case read_c p of
        None \<Rightarrow> None
      | Some entry \<Rightarrow> map_option (Cons entry) (environ_loop ps))"

definition environ :: "bytes option list option \<Rightarrow> bytes list option" where
  "environ envp = (case envp of None \<Rightarrow> Some [] | Some ps \<Rightarrow> environ_loop ps)"

section \<open>Directory, executable, arguments\<close>

text \<open>\<open>getcwd\<close> on a buffer of 4096 bytes: the buffer as it left it, or null.\<close>

definition current_dir :: "(nat \<Rightarrow> bytes option) \<Rightarrow> bytes option" where
  "current_dir getcwd = (case getcwd 4096 of None \<Rightarrow> None | Some buf \<Rightarrow> up_to_nul buf)"

text \<open>The two forms of \<open>current_exe\<close>: \<open>_NSGetExecutablePath\<close> fills the buffer or names the size it
  needs; \<open>readlink\<close> answers the length and leaves the bytes in the buffer.\<close>

definition current_exe_macos :: "(nat \<Rightarrow> nat + bytes) \<Rightarrow> bytes option" where
  "current_exe_macos ns_path =
     (case ns_path 4096 of
        Inr buf \<Rightarrow> up_to_nul buf
      | Inl need \<Rightarrow> (case ns_path need of Inr buf \<Rightarrow> up_to_nul buf | Inl _ \<Rightarrow> None))"

definition current_exe_linux :: "(nat \<Rightarrow> int \<times> bytes) \<Rightarrow> bytes option" where
  "current_exe_linux readlink =
     (let (n, buf) = readlink 4096 in if n \<le> 0 then None else Some (take (nat n) buf))"

text \<open>The arguments: from the vector the process was started with, or, on Linux, out of the contents of
  \<open>/proc/self/cmdline\<close> when it can be read.\<close>

fun args_loop :: "nat \<Rightarrow> bytes option list \<Rightarrow> bytes list option" where
  "args_loop 0 argv = Some []"
| "args_loop (Suc n) [] = None"
| "args_loop (Suc n) (None # _) = Some []"
| "args_loop (Suc n) (Some p # ps) =
     (case read_c p of None \<Rightarrow> None | Some arg \<Rightarrow> map_option (Cons arg) (args_loop n ps))"

definition args_macos :: "int \<Rightarrow> bytes option list option \<Rightarrow> bytes list option" where
  "args_macos argc argv = (case argv of None \<Rightarrow> Some [] | Some ps \<Rightarrow> args_loop (nat argc) ps)"

definition args_linux :: "file_error + bytes \<Rightarrow> bytes list" where
  "args_linux cmdline =
     (case cmdline of Inl _ \<Rightarrow> [] | Inr raw \<Rightarrow> filter (\<lambda>arg. arg \<noteq> []) (split_on (\<lambda>b. b = 0) raw))"

section \<open>Facts the properties use\<close>

lemma environ_entries:
  "(\<And>e. e \<in> set es \<Longrightarrow> NUL \<notin> set e) \<Longrightarrow>
     environ_loop (map (\<lambda>e. Some (e @ NUL # junk)) es @ None # rest) = Some es"
  by (induction es) (simp_all add: read_c_c_string c_string_terminated)

lemma args_entries:
  "(\<And>a. a \<in> set as \<Longrightarrow> NUL \<notin> set a) \<Longrightarrow>
     args_loop (length as) (map (\<lambda>a. Some (a @ NUL # junk)) as @ rest) = Some as"
  by (induction as) (simp_all add: read_c_c_string c_string_terminated)

text \<open>Pieces written one after the other, each ended by a separator, split apart again.\<close>

lemma split_on_ended:
  "(\<And>s. s \<in> set ss \<Longrightarrow> sep \<notin> set s) \<Longrightarrow>
     split_on (\<lambda>b. b = sep) (concat (map (\<lambda>s. s @ [sep]) ss)) = ss @ [[]]"
proof (induction ss)
  case (Cons s ss)
  have "split_on (\<lambda>b. b = sep) s = [s]" using Cons.prems [of s] by (intro split_on_none) auto
  with Cons show ?case by (simp add: split_on_append)
qed simp

section \<open>Properties\<close>

text \<open>A variable set through \<open>set_var\<close> reads back as it was set, and no other changes,
  for names libc accepts and values without a NUL, as long as the environment is what POSIX
  describes.\<close>

theorem set_var_reads_back:
  assumes "environment_laws getenv setenv"
    and "name \<noteq> []" "NUL \<notin> set name" "EQUALS \<notin> set name" "NUL \<notin> set value" "NUL \<notin> set other"
  shows "var_os getenv (set_var setenv e name value) other
      = (if other = name then Some value else var_os getenv e other)
    \<and> var getenv (set_var setenv e name value) name = from_utf8 value"
proof -
  have "var_os getenv (set_var setenv e name value) m
      = (if m = name then Some value else var_os getenv e m)" if "NUL \<notin> set m" for m
    using assms(1-5) c_string_nul_end [OF that] c_string_nul_end [OF assms(3)]
      c_string_nul_end [OF assms(5)]
    unfolding environment_laws_def var_os_def set_var_def read_c_c_string by metis
  from this [OF assms(6)] this [OF assms(3)] show ?thesis by (simp add: var_def)
qed

text \<open>An environment kept as a list of strings \<open>name=value\<close> without the laws' corner cases.\<close>

definition list_getenv :: "(bytes \<times> bytes) list getenv" where
  "list_getenv e n = map_option nul_end (map_of e (the (c_string n)))"

definition list_setenv :: "(bytes \<times> bytes) list setenv" where
  "list_setenv e n v = (the (c_string n), the (c_string v)) # e"

lemma list_environment: "environment_laws list_getenv list_setenv"
proof -
  have "NUL \<notin> set s" if "c_string v = Some s" for v s
    using that by (auto simp: c_string_def split: if_splits dest: set_takeWhileD)
  then show ?thesis
    by (auto simp: environment_laws_def list_getenv_def list_setenv_def c_string_nul_end)
qed

theorem set_var_reads_back_witness:
  "var_os list_getenv (set_var list_setenv [] (bstr ''A'') (bstr ''1'')) (bstr ''A'') = Some (bstr ''1'')
   \<and> var_os list_getenv (set_var list_setenv [] (bstr ''A'') (bstr ''1'')) (bstr ''B'') = None"
proof -
  have n: "bstr ''A'' \<noteq> []" "NUL \<notin> set (bstr ''A'')" "EQUALS \<notin> set (bstr ''A'')"
    "NUL \<notin> set (bstr ''1'')" "NUL \<notin> set (bstr ''B'')" "bstr ''B'' \<noteq> bstr ''A''"
    by code_simp+
  have "var_os list_getenv [] (bstr ''B'') = None"
    by (simp add: var_os_def list_getenv_def)
  with set_var_reads_back [OF list_environment n(1-4), of "bstr ''A''" "[]"]
    set_var_reads_back [OF list_environment n(1-5), of "[]"] n show ?thesis
    by simp
qed

text \<open>\<open>split_paths\<close> gives back the directories a \<open>PATH\<close> was put together from, whether
  the list ends in a colon or not; it never gives an empty entry or one with a colon in it.\<close>

theorem split_paths_entries:
  "split_paths (concat (map (\<lambda>d. d @ [COLON]) (split_paths paths))) = split_paths paths
    \<and> [] \<notin> set (split_paths paths) \<and> COLON \<notin> \<Union> (set ` set (split_paths paths))"
proof -
  have c: "COLON \<notin> set d" if "d \<in> set (split_paths paths)" for d
    using that split_on_pieces [of d "\<lambda>b. b = COLON" paths COLON] by (auto simp: split_paths_def)
  have "filter (\<lambda>s. s \<noteq> []) (split_paths paths @ [[]]) = split_paths paths"
    by (simp add: split_paths_def)
  with c show ?thesis
    using split_on_ended [of "split_paths paths" COLON] by (auto simp: split_paths_def)
qed

text \<open>The arguments and the environment entries come back as they were laid out in
  memory; out of \<open>/proc/self/cmdline\<close>, where each argument is ended by a NUL, every argument comes
  back except the empty ones.\<close>

theorem arguments_read:
  assumes "\<forall>a \<in> set argv. NUL \<notin> set a"
  shows "args_macos (int (length argv)) (Some (map (\<lambda>a. Some (a @ NUL # junk)) argv @ rest)) = Some argv
    \<and> environ (Some (map (\<lambda>a. Some (a @ NUL # junk)) argv @ None # rest)) = Some argv
    \<and> args_linux (Ok (concat (map (\<lambda>a. a @ [NUL]) argv))) = filter (\<lambda>a. a \<noteq> []) argv"
  using assms args_entries [of argv junk rest] environ_entries [of argv junk rest]
    split_on_ended [of argv NUL]
  by (simp add: args_macos_def environ_def args_linux_def)

theorem arguments_read_witness:
  "args_linux (Ok [101, 0, 0, 97, 0]) = [[101], [97]]
   \<and> args_macos 3 (Some [Some [101, 0], Some [0], Some [97, 0], None]) = Some [[101], [], [97]]"
  using arguments_read [of "[[101], [], [97]]" "[]" "[None]"] by simp

end
