(* ===== verification/Commands.thy ===== *)
theory Commands
  imports Paths Env Streams
begin

text \<open>
  \<open>src/command.rs\<close>: the builder and what it hands to \<open>execve\<close>, the two pipes read with \<open>poll\<close>, and
  the exit status. The kernel's answers to \<open>poll\<close>, \<open>read\<close> and \<open>waitpid\<close> are scripts, as in the theory
  of the read and write loops; \<open>fork\<close> and the child's half are in the theory Spawn.
\<close>

section \<open>The builder\<close>

record command =
  cmd_program :: bytes
  cmd_args :: "bytes list"
  cmd_overrides :: "bytes list"

definition command_new :: "path \<Rightarrow> command" where
  "command_new program = \<lparr>cmd_program = program, cmd_args = [], cmd_overrides = []\<rparr>"

definition cmd_arg :: "command \<Rightarrow> bytes \<Rightarrow> command" where
  "cmd_arg c arg = c\<lparr>cmd_args := cmd_args c @ [arg]\<rparr>"

fun cmd_add_args :: "command \<Rightarrow> bytes list \<Rightarrow> command" where
  "cmd_add_args c [] = c"
| "cmd_add_args c (arg # args) = cmd_add_args (c\<lparr>cmd_args := cmd_args c @ [arg]\<rparr>) args"

definition cmd_env :: "command \<Rightarrow> bytes \<Rightarrow> bytes \<Rightarrow> command" where
  "cmd_env c key val = c\<lparr>cmd_overrides := cmd_overrides c @ [(key @ [EQUALS]) @ val]\<rparr>"

definition nul_terminated :: "bytes \<Rightarrow> bytes" where
  "nul_terminated bs = bs @ [0]"

text \<open>Where to look for the program, given the value of \<open>PATH\<close>.\<close>

definition candidate :: "bytes \<Rightarrow> bytes \<Rightarrow> bytes" where
  "candidate program dir =
     (let c = dir;
          c = (if \<not> slice_ends_with dir [SEP] then c @ [SEP] else c)
      in c @ program)"

definition candidates :: "'e getenv \<Rightarrow> 'e \<Rightarrow> bytes \<Rightarrow> bytes list" where
  "candidates getenv e program =
     (if SEP \<in> set program then [nul_terminated program]
      else
        (let path = (case var_os getenv e (bstr ''PATH'') of None \<Rightarrow> [] | Some v \<Rightarrow> v)
         in map (\<lambda>dir. nul_terminated (candidate program dir))
              (filter (\<lambda>dir. dir \<noteq> []) (split_paths path))))"

text \<open>The argument vector, and the environment: the inherited entries, each override removing those
  with its key before it is added.\<close>

definition argv :: "command \<Rightarrow> bytes list" where
  "argv c = nul_terminated (cmd_program c) # map nul_terminated (cmd_args c)"

definition override_key :: "bytes \<Rightarrow> bytes" where
  "override_key entry =
     (let key_end = (case position (\<lambda>b. b = EQUALS) entry of None \<Rightarrow> length entry | Some i \<Rightarrow> i + 1)
      in take key_end entry)"

fun apply_overrides :: "bytes list \<Rightarrow> bytes list \<Rightarrow> bytes list" where
  "apply_overrides entries [] = entries"
| "apply_overrides entries (entry # overrides) =
     apply_overrides (filter (\<lambda>e. \<not> slice_starts_with e (override_key entry)) entries @ [entry]) overrides"

definition environment :: "bytes list \<Rightarrow> command \<Rightarrow> bytes list" where
  "environment inherited c = map nul_terminated (apply_overrides inherited (cmd_overrides c))"

section \<open>The exit status\<close>

definition exit_code :: "32 word \<Rightarrow> 32 word" where
  "exit_code status =
     (if and status 0x7f = 0 then and (signed_drop_bit 8 status) 0xff
      else 128 + and status 0x7f)"

text \<open>A running child: its process, its pipes and the status once it has been collected.\<close>

record child =
  ch_pid :: int
  ch_out :: pipe
  ch_err :: pipe
  ch_status :: "32 word option"

datatype wait_ans = StillRunning | Reaped "32 word" | WaitErr errno

text \<open>\<open>collect\<close>; \<open>None\<close> when the script is used up, that is, while \<open>waitpid\<close> has not returned.\<close>

fun collect :: "libc \<Rightarrow> wait_ans list \<Rightarrow> child \<Rightarrow> (32 word option \<times> child \<times> wait_ans list) option" where
  "collect L script c =
     (case ch_status c of
        Some code \<Rightarrow> Some (Some code, c, script)
      | None \<Rightarrow>
          (case script of
             [] \<Rightarrow> None
           | StillRunning # script' \<Rightarrow> Some (None, c, script')
           | WaitErr e # script' \<Rightarrow>
               if e = EINTR L then collect L script' c
               else Some (Some (-1), c\<lparr>ch_status := Some (-1)\<rparr>, script')
           | Reaped status # script' \<Rightarrow>
               (let code = exit_code status in Some (Some code, c\<lparr>ch_status := Some code\<rparr>, script'))))"

declare collect.simps [simp del]

definition try_wait :: "libc \<Rightarrow> wait_ans list \<Rightarrow> child \<Rightarrow> (32 word option \<times> child \<times> wait_ans list) option" where
  "try_wait L script c = collect L script c"

definition wait :: "libc \<Rightarrow> wait_ans list \<Rightarrow> child \<Rightarrow> (32 word \<times> child \<times> wait_ans list) option" where
  "wait L script c =
     map_option (\<lambda>(r, c', rest). (case r of Some code \<Rightarrow> code | None \<Rightarrow> -1, c', rest)) (collect L script c)"

text \<open>The signals sent: to the group, then to the child itself.\<close>

definition child_signal :: "child \<Rightarrow> int \<Rightarrow> (int \<times> int) list" where
  "child_signal c sig = [(- ch_pid c, sig), (ch_pid c, sig)]"

text \<open>The two signals of libc that are sent, by their numbers.\<close>

definition terminate_child :: "int \<Rightarrow> child \<Rightarrow> (int \<times> int) list" where
  "terminate_child sigterm c = child_signal c sigterm"

definition kill_child :: "int \<Rightarrow> child \<Rightarrow> (int \<times> int) list" where
  "kill_child sigkill c = child_signal c sigkill"

definition stdout_so_far :: "child \<Rightarrow> bytes" where
  "stdout_so_far c = pipe_got (ch_out c)"

section \<open>Reading both pipes\<close>

text \<open>A \<open>Duration\<close> is seconds and nanoseconds; \<open>poll\<close> takes milliseconds, and -1 for no limit.\<close>

type_synonym duration = "nat \<times> nat"

definition as_millis :: "duration \<Rightarrow> nat" where
  "as_millis d = fst d * 1000 + snd d div 1000000"

definition poll_timeout :: "duration option \<Rightarrow> int" where
  "poll_timeout timeout =
     (case timeout of
        None \<Rightarrow> -1
      | Some t \<Rightarrow>
          let whole = int (min (as_millis t) 2147483647)
          in if whole = 0 \<and> \<not> (fst t = 0 \<and> snd t = 0) then 1 else whole)"

text \<open>What \<open>poll\<close> answers: nothing in time, a failure, or for each descriptor asked about whether it has
  something.\<close>

datatype poll_ans = PollTimeout | PollFailed errno | PollReady "bool list"

definition drained :: "child \<Rightarrow> bool" where
  "drained c = (pipe_done (ch_out c) \<and> pipe_done (ch_err c))"

definition polled :: "child \<Rightarrow> int list" where
  "polled c =
     (if \<not> pipe_done (ch_out c) then [pipe_read (ch_out c)] else [])
     @ (if \<not> pipe_done (ch_err c) then [pipe_read (ch_err c)] else [])"

text \<open>One \<open>read_ready\<close>, on what the kernel answers to \<open>poll\<close> and to the reads of each pipe.\<close>

definition read_ready ::
  "libc \<Rightarrow> poll_ans \<Rightarrow> child \<times> read_ans list \<times> read_ans list
    \<Rightarrow> (child \<times> read_ans list \<times> read_ans list) option"
where
  "read_ready L ans = (\<lambda>(c, outs, errs).
     let watched0 = \<not> pipe_done (ch_out c); watched1 = \<not> pipe_done (ch_err c) in
     if \<not> watched0 \<and> \<not> watched1 then Some (c, outs, errs)
     else
       (case ans of
          PollTimeout \<Rightarrow> Some (c, outs, errs)
        | PollFailed e \<Rightarrow>
            if e = EINTR L then Some (c, outs, errs)
            else Some (c\<lparr>ch_out := (ch_out c)\<lparr>pipe_done := True\<rparr>,
                         ch_err := (ch_err c)\<lparr>pipe_done := True\<rparr>\<rparr>, outs, errs)
        | PollReady revents \<Rightarrow>
            (let slot1 = (if watched0 then 1 else 0);
                 first = (if watched0 \<and> revents ! 0
                          then map_option (\<lambda>(p, rest). (c\<lparr>ch_out := p\<rparr>, rest)) (take_ready L outs (ch_out c))
                          else Some (c, outs))
             in (case first of
                   None \<Rightarrow> None
                 | Some (c', outs') \<Rightarrow>
                     if watched1 \<and> revents ! slot1
                     then map_option (\<lambda>(p, rest). (c'\<lparr>ch_err := p\<rparr>, outs', rest)) (take_ready L errs (ch_err c'))
                     else Some (c', outs', errs)))))"

text \<open>The loop of \<open>output\<close>, and all of it once the child runs: the code, stdout and stderr.\<close>

fun drain :: "libc \<Rightarrow> poll_ans list \<Rightarrow> child \<times> read_ans list \<times> read_ans list
    \<Rightarrow> (child \<times> read_ans list \<times> read_ans list) option" where
  "drain L polls st =
     (if drained (fst st) then Some st
      else
        (case polls of
           [] \<Rightarrow> None
         | ans # polls' \<Rightarrow>
             (case read_ready L ans st of None \<Rightarrow> None | Some st' \<Rightarrow> drain L polls' st')))"

declare drain.simps [simp del]

record child_output =
  out_code :: "32 word"
  out_stdout :: bytes
  out_stderr :: bytes

definition success :: "child_output \<Rightarrow> bool" where
  "success o' = (out_code o' = 0)"

definition into_output :: "child \<Rightarrow> 32 word \<Rightarrow> child_output" where
  "into_output c code =
     \<lparr>out_code = code, out_stdout = pipe_got (ch_out c), out_stderr = pipe_got (ch_err c)\<rparr>"

definition command_output :: "libc \<Rightarrow> poll_ans list \<Rightarrow> wait_ans list \<Rightarrow> child \<times> read_ans list \<times> read_ans list
    \<Rightarrow> child_output option" where
  "command_output L polls waits st =
     (case drain L polls st of
        None \<Rightarrow> None
      | Some (c, _, _) \<Rightarrow> map_option (\<lambda>(code, c', _). into_output c' code) (wait L waits c))"

section \<open>What a stream carries\<close>

text \<open>The contents of a pipe: what its reads deliver up to the end of file or a real error, however
  often a read is interrupted or finds nothing.\<close>

fun stream :: "libc \<Rightarrow> read_ans list \<Rightarrow> bytes" where
  "stream L [] = []"
| "stream L (RData d # script) = (if d = [] then [] else d @ stream L script)"
| "stream L (RErr e # script) = (if e = EINTR L \<or> would_block L e then stream L script else [])"

definition total :: "libc \<Rightarrow> pipe \<Rightarrow> read_ans list \<Rightarrow> bytes" where
  "total L p script = pipe_got p @ (if pipe_done p then [] else stream L script)"

lemma take_ready_total:
  "take_ready L script p = Some (p', rest) \<Longrightarrow> \<not> pipe_done p \<Longrightarrow> total L p' rest = total L p script"
  by (induction L script p rule: take_ready.induct)
     (auto simp: total_def would_block_def split: if_splits)

definition fatal :: "libc \<Rightarrow> poll_ans \<Rightarrow> bool" where
  "fatal L ans = (case ans of PollFailed e \<Rightarrow> e \<noteq> EINTR L | _ \<Rightarrow> False)"

lemma read_ready_total:
  assumes "read_ready L ans (c, outs, errs) = Some (c', outs', errs')" "\<not> fatal L ans"
  shows "total L (ch_out c') outs' = total L (ch_out c) outs
    \<and> total L (ch_err c') errs' = total L (ch_err c) errs \<and> ch_status c' = ch_status c"
proof (cases ans)
  case PollTimeout
  with assms show ?thesis by (simp add: read_ready_def Let_def split: if_splits)
next
  case (PollFailed e)
  with assms show ?thesis by (simp add: read_ready_def fatal_def Let_def split: if_splits)
next
  case (PollReady revents)
  let ?o = "ch_out c"
  let ?first = "if \<not> pipe_done ?o \<and> revents ! 0
    then map_option (\<lambda>(p, rest). (c\<lparr>ch_out := p\<rparr>, rest)) (take_ready L outs ?o) else Some (c, outs)"
  show ?thesis
  proof (cases "drained c")
    case True
    with assms show ?thesis by (simp add: read_ready_def drained_def Let_def)
  next
    case False
    with assms(1) PollReady obtain c1 outs1 where first: "?first = Some (c1, outs1)"
      by (auto simp: read_ready_def drained_def Let_def split: option.splits if_splits)
    then have one: "total L (ch_out c1) outs1 = total L ?o outs \<and> ch_err c1 = ch_err c \<and> ch_status c1 = ch_status c"
      using take_ready_total [of L outs ?o] by (auto split: if_splits)
    have "(if \<not> pipe_done (ch_err c) \<and> revents ! (if \<not> pipe_done ?o then 1 else 0)
        then map_option (\<lambda>(p, rest). (c1\<lparr>ch_err := p\<rparr>, outs1, rest)) (take_ready L errs (ch_err c1))
        else Some (c1, outs1, errs)) = Some (c', outs', errs')"
      using assms(1) PollReady False first by (auto simp: read_ready_def drained_def Let_def)
    then show ?thesis
      using one take_ready_total [of L errs "ch_err c"] by (auto split: if_splits)
  qed
qed

lemma drain_total:
  assumes "drain L polls (c, outs, errs) = Some (c', outs', errs')" "\<forall>a \<in> set polls. \<not> fatal L a"
  shows "total L (ch_out c') outs' = total L (ch_out c) outs
    \<and> total L (ch_err c') errs' = total L (ch_err c) errs \<and> ch_status c' = ch_status c \<and> drained c'"
  using assms
proof (induction polls arbitrary: c outs errs)
  case Nil
  then show ?case by (simp add: drain.simps split: if_splits)
next
  case (Cons a polls)
  show ?case
  proof (cases "drained c")
    case True
    with Cons.prems show ?thesis by (simp add: drain.simps)
  next
    case False
    with Cons.prems obtain d outs1 errs1 where
      r: "read_ready L a (c, outs, errs) = Some (d, outs1, errs1)"
      "drain L polls (d, outs1, errs1) = Some (c', outs', errs')"
      by (subst (asm) drain.simps) (auto split: option.splits)
    from Cons.IH [OF r(2)] read_ready_total [OF r(1)] Cons.prems(2) show ?thesis by simp
  qed
qed

section \<open>The environment, key by key\<close>

definition entry_of :: "bytes \<times> bytes \<Rightarrow> bytes" where
  "entry_of kv = (fst kv @ [EQUALS]) @ snd kv"

definition entries_for :: "bytes \<Rightarrow> bytes list \<Rightarrow> bytes list" where
  "entries_for key es = filter (\<lambda>e. slice_starts_with e (key @ [EQUALS])) es"

lemma position_key: "EQUALS \<notin> set k \<Longrightarrow> position (\<lambda>b. b = EQUALS) (k @ EQUALS # v) = Some (length k)"
  by (subst position_append) auto

lemma override_key_entry: "EQUALS \<notin> set k \<Longrightarrow> override_key (entry_of (k, v)) = k @ [EQUALS]"
  by (simp add: override_key_def entry_of_def position_key Let_def)

lemma key_prefix_eq:
  "EQUALS \<notin> set k \<Longrightarrow> EQUALS \<notin> set k' \<Longrightarrow> prefix (k @ [EQUALS]) e \<Longrightarrow> prefix (k' @ [EQUALS]) e \<Longrightarrow> k = k'"
proof (induction k arbitrary: k' e)
  case Nil
  then show ?case by (cases k') (auto simp: prefix_def)
next
  case (Cons a k)
  then show ?case by (cases k') (auto simp: prefix_def)
qed

lemma apply_overrides_entries:
  assumes "\<forall>kv \<in> set kvs. EQUALS \<notin> set (fst kv)" "EQUALS \<notin> set k"
  shows "entries_for k (apply_overrides es (map entry_of kvs))
    = (case map_of (rev kvs) k of Some v \<Rightarrow> [entry_of (k, v)] | None \<Rightarrow> entries_for k es)"
  using assms(1)
proof (induction kvs arbitrary: es)
  case Nil
  then show ?case by simp
next
  case (Cons kv kvs)
  obtain k' v where kv: "kv = (k', v)" by (cases kv)
  have ok: "override_key (entry_of (k', v)) = k' @ [EQUALS]"
    using Cons.prems kv by (intro override_key_entry) simp
  let ?es = "filter (\<lambda>e. \<not> slice_starts_with e (k' @ [EQUALS])) es @ [entry_of (k', v)]"
  have "entries_for k ?es = (if k = k' then [entry_of (k, v)] else entries_for k es)"
  proof (cases "k = k'")
    case True
    have "slice_starts_with (entry_of (k', v)) (k' @ [EQUALS])"
      by (simp add: slice_starts_with_prefix entry_of_def)
    with True show ?thesis by (simp add: entries_for_def filter_empty_conv)
  next
    case False
    then have ne: "\<not> (prefix (k @ [EQUALS]) e \<and> prefix (k' @ [EQUALS]) e)" for e
      using key_prefix_eq [of k k' e] assms(2) Cons.prems kv by auto
    moreover have "prefix (k' @ [EQUALS]) (entry_of (k', v))" by (simp add: entry_of_def)
    ultimately have "\<not> prefix (k @ [EQUALS]) (entry_of (k', v))" by blast
    moreover have "filter (\<lambda>e. prefix (k @ [EQUALS]) e)
        (filter (\<lambda>e. \<not> prefix (k' @ [EQUALS]) e) es) = filter (\<lambda>e. prefix (k @ [EQUALS]) e) es"
      using ne by (auto intro!: filter_cong)
    ultimately show ?thesis using False by (simp add: entries_for_def slice_starts_with_prefix)
  qed
  moreover have "map_of (rev (kv # kvs)) k = (case map_of (rev kvs) k of
      Some w \<Rightarrow> Some w | None \<Rightarrow> if k = k' then Some v else None)"
    by (simp add: kv map_add_def split: option.split)
  ultimately show ?case using Cons.IH [of ?es] Cons.prems
    by (auto simp: ok kv split: option.splits)
qed

lemma cmd_env_overrides:
  "cmd_overrides (foldl (\<lambda>c (k, v). cmd_env c k v) c kvs) = cmd_overrides c @ map entry_of kvs"
  by (induction kvs arbitrary: c) (auto simp: cmd_env_def entry_of_def)

section \<open>The bits of a wait status\<close>

lemma low_bits:
  "and (x :: 32 word) 0x7f = take_bit 7 x" "and (x :: 32 word) 0xff = take_bit 8 x"
  by (simp_all add: take_bit_eq_mask mask_eq_exp_minus_1 ac_simps)

lemma take_bit_of_nat: "take_bit k (word_of_nat n :: 32 word) = word_of_nat (take_bit k n)"
  by (rule bit_word_eqI) (auto simp: bit_simps)

lemma exited_code:
  assumes "code < 256"
  shows "take_bit 8 (signed_drop_bit 8 (word_of_nat (code * 256) :: 32 word)) = word_of_nat code"
proof -
  have "take_bit 8 (signed_drop_bit 8 (word_of_nat (push_bit 8 code) :: 32 word)) = take_bit 8 (word_of_nat code)"
    by (rule bit_word_eqI) (auto simp: bit_simps)
  moreover have "take_bit 8 code = code" using assms by (simp add: take_bit_eq_mod)
  moreover have "push_bit 8 code = code * 256" by (simp add: push_bit_eq_mult)
  ultimately show ?thesis by (simp only: take_bit_of_nat)
qed

lemma exited_low: "take_bit 7 (word_of_nat (code * 256) :: 32 word) = 0"
proof -
  have "take_bit 7 (code * 256) = 0" by (simp add: take_bit_eq_mod)
  then show ?thesis by (simp only: take_bit_of_nat) simp
qed

lemma killed_low:
  assumes "0 < sig" "sig < 127" "core = 0 \<or> core = 128"
  shows "take_bit 7 (word_of_nat (sig + core) :: 32 word) = word_of_nat sig"
    and "(word_of_nat sig :: 32 word) \<noteq> 0"
proof -
  have "take_bit 7 (sig + core) = sig" using assms by (auto simp: take_bit_eq_mod)
  then show "take_bit 7 (word_of_nat (sig + core) :: 32 word) = word_of_nat sig"
    by (simp only: take_bit_of_nat)
  show "(word_of_nat sig :: 32 word) \<noteq> 0"
    using assms by (simp add: word_of_nat_eq_0_iff) (auto dest: nat_dvd_not_less)
qed

section \<open>Properties\<close>

text \<open>In the environment a child is given, a key set through \<open>env\<close> has one entry, with
  the value it was set to last, and every other key has the entries it has in this process: no
  override touches a key it is a prefix of.\<close>

theorem environment_last_wins:
  assumes "\<forall>kv \<in> set kvs. EQUALS \<notin> set (fst kv)" "EQUALS \<notin> set k"
  shows "environment inherited (foldl (\<lambda>c (k, v). cmd_env c k v) (command_new program) kvs)
      = map nul_terminated (apply_overrides inherited (map entry_of kvs))
    \<and> entries_for k (apply_overrides inherited (map entry_of kvs))
      = (case map_of (rev kvs) k of
           Some v \<Rightarrow> [(k @ [EQUALS]) @ v] | None \<Rightarrow> entries_for k inherited)"
  using apply_overrides_entries [OF assms, of inherited]
  by (auto simp: environment_def cmd_env_overrides command_new_def entry_of_def split: option.splits)

theorem environment_last_wins_witness:
  "entries_for (bstr ''A'') (apply_overrides [bstr ''A=0'', bstr ''AB=1'']
      (map entry_of [(bstr ''A'', bstr ''2''), (bstr ''A'', bstr ''3'')])) = [bstr ''A=3'']
   \<and> entries_for (bstr ''AB'') (apply_overrides [bstr ''A=0'', bstr ''AB=1'']
      (map entry_of [(bstr ''A'', bstr ''2''), (bstr ''A'', bstr ''3'')])) = [bstr ''AB=1'']"
proof -
  let ?kvs = "[(bstr ''A'', bstr ''2''), (bstr ''A'', bstr ''3'')]"
  have "\<forall>kv \<in> set ?kvs. EQUALS \<notin> set (fst kv)" "EQUALS \<notin> set (bstr ''A'')" "EQUALS \<notin> set (bstr ''AB'')"
    and "entries_for (bstr ''AB'') [bstr ''A=0'', bstr ''AB=1''] = [bstr ''AB=1'']"
    and "(bstr ''A'' @ [EQUALS]) @ bstr ''3'' = bstr ''A=3''"
    and "map_of (rev ?kvs) (bstr ''AB'') = None" "map_of (rev ?kvs) (bstr ''A'') = Some (bstr ''3'')"
    by code_simp+
  with environment_last_wins [of ?kvs "bstr ''A''" "[bstr ''A=0'', bstr ''AB=1'']" "[]"]
    environment_last_wins [of ?kvs "bstr ''AB''" "[bstr ''A=0'', bstr ''AB=1'']" "[]"]
  show ?thesis by simp
qed

text \<open>C22 (equivalence). Where a program named without a slash is looked for is what joining it to each
  entry of \<open>PATH\<close> gives, in order, as C strings; one named with a slash is taken as it is.\<close>

theorem candidates_are_joins:
  "candidates getenv e program =
     (if SEP \<in> set program then [as_c program]
      else map (\<lambda>dir. as_c (join dir program))
             (case var_os getenv e (bstr ''PATH'') of None \<Rightarrow> [] | Some v \<Rightarrow> split_paths v))"
proof -
  have "filter (\<lambda>dir. dir \<noteq> []) (split_paths v) = split_paths v" for v
    by (simp add: split_paths_def)
  moreover have "candidate program dir = join dir program" if "SEP \<notin> set program" "dir \<noteq> []" for dir
  proof -
    have "\<not> is_absolute program" using that(1) by (cases program) (auto simp: is_absolute_def)
    with that show ?thesis by (simp add: candidate_def join_def push_def Let_def)
  qed
  moreover have "dir \<noteq> []" if "dir \<in> set (split_paths v)" for dir v
    using that by (simp add: split_paths_def)
  moreover have "split_paths [] = []" by (simp add: split_paths_def)
  ultimately show ?thesis
    by (auto simp: candidates_def nul_terminated_def as_c_def split: option.split)
qed

text \<open>\<open>exit_code\<close> reads a wait status as the system encodes it: a program that exited
  gives its code, one killed by a signal 128 more than its number, core dumped or not.\<close>

theorem exit_code_decodes:
  assumes "code < 256" "0 < sig" "sig < 127" "core = 0 \<or> core = 128"
  shows "exit_code (word_of_nat (code * 256)) = word_of_nat code
    \<and> exit_code (word_of_nat (sig + core)) = word_of_nat (128 + sig)"
  using exited_code [OF assms(1)] exited_low [of code] killed_low [OF assms(2-4)]
  by (simp add: exit_code_def low_bits del: of_nat_add of_nat_mult) simp

theorem exit_code_decodes_witness:
  "exit_code (word_of_nat (3 * 256)) = word_of_nat 3 \<and> exit_code (word_of_nat (11 + 128)) = word_of_nat (128 + 11)"
  by (rule exit_code_decodes) simp_all

lemma collect_pipes:
  "collect L script c = Some (r, c', rest) \<Longrightarrow> ch_out c' = ch_out c \<and> ch_err c' = ch_err c"
  by (induction L script c rule: collect.induct)
     (auto simp: Let_def collect.simps split: option.splits list.splits wait_ans.splits if_splits)

lemma collect_kept:
  "collect L script c = Some (Some code, c', rest) \<Longrightarrow> ch_status c' = Some code"
  by (induction L script c rule: collect.induct)
     (auto simp: Let_def collect.simps split: option.splits list.splits wait_ans.splits if_splits)

text \<open>The exit status is asked for until it is there and then kept: after a call of
  \<open>try_wait\<close> or \<open>wait\<close> has given a code, every later one gives the same code without asking the
  system again, which could no longer answer.\<close>

theorem exit_status_is_kept:
  assumes "try_wait L script c = Some (Some code, c', rest)"
  shows "try_wait L script' c' = Some (Some code, c', script')
    \<and> wait L script' c' = Some (code, c', script')"
  using collect_kept [of L script c code c' rest] assms
  by (simp add: try_wait_def wait_def collect.simps)

theorem exit_status_is_kept_witness:
  "let p = \<lparr>pipe_read = 4, pipe_write = -1, pipe_done = True, pipe_got = []\<rparr>;
       c = \<lparr>ch_pid = 100, ch_out = p, ch_err = p, ch_status = None\<rparr>;
       c' = c\<lparr>ch_status := Some 3\<rparr>
   in wait linux_libc [WaitErr (ECHILD linux_libc)] c' = Some (3, c', [WaitErr (ECHILD linux_libc)])"
proof -
  let ?p = "\<lparr>pipe_read = 4, pipe_write = -1, pipe_done = True, pipe_got = []\<rparr> :: pipe"
  let ?c = "\<lparr>ch_pid = 100, ch_out = ?p, ch_err = ?p, ch_status = None\<rparr>"
  have "exit_code 768 = 3" by (simp add: exit_code_def)
  then have "try_wait linux_libc [WaitErr 4, Reaped 768] ?c = Some (Some 3, ?c\<lparr>ch_status := Some 3\<rparr>, [])"
    by (simp add: try_wait_def collect.simps linux_libc_def)
  from exit_status_is_kept [OF this] show ?thesis by (simp add: Let_def)
qed

text \<open>C12 (functional). \<open>output\<close> collects everything: whatever order the two pipes become ready in, however
  the reads are cut, interrupted or find nothing, what it gives as stdout and stderr is all the
  child wrote to each up to its end, unless \<open>poll\<close> itself fails; and it returns only once both
  have ended and the child has been waited for.\<close>

theorem output_collects_all:
  assumes "command_output L polls waits (c, outs, errs) = Some result"
    and "\<forall>a \<in> set polls. \<not> fatal L a"
    and "\<not> pipe_done (ch_out c)" "\<not> pipe_done (ch_err c)"
    and "pipe_got (ch_out c) = []" "pipe_got (ch_err c) = []"
  shows "out_stdout result = stream L outs \<and> out_stderr result = stream L errs
    \<and> (\<exists>c' c'' rest. wait L waits c' = Some (out_code result, c'', rest))"
proof -
  from assms(1) obtain d outs' errs' code d' rest where
    r: "drain L polls (c, outs, errs) = Some (d, outs', errs')" "wait L waits d = Some (code, d', rest)"
    "result = into_output d' code"
    by (auto simp: command_output_def split: option.splits)
  from drain_total [OF r(1) assms(2)] assms(3-6) have
    "pipe_got (ch_out d) = stream L outs" "pipe_got (ch_err d) = stream L errs"
    by (auto simp: total_def drained_def)
  moreover from r(2) have "ch_out d' = ch_out d \<and> ch_err d' = ch_err d"
    using collect_pipes by (auto simp: wait_def)
  ultimately show ?thesis using r by (auto simp: into_output_def)
qed

theorem output_collects_all_witness:
  "let p = \<lparr>pipe_read = 4, pipe_write = -1, pipe_done = False, pipe_got = []\<rparr>;
       c = \<lparr>ch_pid = 100, ch_out = p, ch_err = p\<lparr>pipe_read := 6\<rparr>, ch_status = None\<rparr>
   in map_option out_stdout (command_output linux_libc [PollReady [True, True], PollReady [True]]
        [Reaped 0] (c, [RData [1, 2], RErr 11, RData [3], RData []], [RData []])) = Some [1, 2, 3]"
proof -
  let ?p = "\<lparr>pipe_read = 4, pipe_write = -1, pipe_done = False, pipe_got = []\<rparr> :: pipe"
  let ?c = "\<lparr>ch_pid = 100, ch_out = ?p, ch_err = ?p\<lparr>pipe_read := 6\<rparr>, ch_status = None\<rparr>"
  let ?outs = "[RData [1, 2], RErr 11, RData [3], RData []]"
  have "command_output linux_libc [PollReady [True, True], PollReady [True]] [Reaped 0]
      (?c, ?outs, [RData []]) \<noteq> None"
    by (simp add: command_output_def drain.simps drained_def read_ready_def wait_def collect.simps
        linux_libc_def Let_def)
  then obtain result where r: "command_output linux_libc [PollReady [True, True], PollReady [True]]
      [Reaped 0] (?c, ?outs, [RData []]) = Some result" by blast
  have "stream linux_libc ?outs = [1, 2, 3]" by (simp add: linux_libc_def would_block_def)
  with output_collects_all [OF r] r show ?thesis by (simp add: fatal_def Let_def)
qed

text \<open>Only what is still open is polled: a pipe at its end would answer at once for ever.\<close>

lemma polled_open: "polled c = [] \<longleftrightarrow> drained c"
  by (simp add: polled_def drained_def)

text \<open>\<open>poll_timeout\<close> rounds anything under a millisecond up to one; longer ones it rounds down, which the
  comment on it denies.\<close>

lemma poll_timeout_rounds:
  "poll_timeout (Some (0, 1)) = 1 \<and> poll_timeout (Some (0, 1999999)) = 1 \<and> poll_timeout None = -1"
  by (simp add: poll_timeout_def as_millis_def)

end
