(* ===== verification/Threads.thy ===== *)
theory Threads
  imports Prelude
begin

text \<open>
  The threads one can wait for of \<open>src/thread.rs\<close>: \<open>Builder::spawn\<close>, its trampoline and
  \<open>JoinHandle::join\<close>, with the two allocations they pass between the threads; and \<open>scope\<close>. What
  pthreads does is in the step relations: a new thread runs when it likes, and \<open>pthread_join\<close> returns 0
  when the thread has ended. Each operation is one step.
\<close>

section \<open>Spawning and joining\<close>

text \<open>The builder keeps a name and, as in the source, does nothing with it.\<close>

record builder =
  stack_bytes :: nat
  thread_name :: "bytes option"

definition builder_new :: builder where
  "builder_new = \<lparr>stack_bytes = 0, thread_name = None\<rparr>"

definition stack_size :: "builder \<Rightarrow> nat \<Rightarrow> builder" where
  "stack_size b n = b\<lparr>stack_bytes := n\<rparr>"

definition set_name :: "builder \<Rightarrow> bytes \<Rightarrow> builder" where
  "set_name b name = b\<lparr>thread_name := Some name\<rparr>"

text \<open>The two boxes: the slot for the result, and the payload, which holds the closure.\<close>

datatype heap_box = Slot | Payload

datatype spawned = Not_Started | Started | Running | Ended

datatype 'v joiner = Before_Spawn | Holds_Handle | Came_Back "errno + 'v"

text \<open>\<open>f_value\<close> is what the closure returned; \<open>stack_asked\<close> is what \<open>pthread_attr_setstacksize\<close> was given.\<close>

record 'v join_state =
  slot :: "'v option"
  freed :: "heap_box list"
  thread :: spawned
  joiner :: "'v joiner"
  f_value :: "'v option"
  stack_asked :: "nat option"

definition join_init :: "'v join_state" where
  "join_init = \<lparr>slot = None, freed = [], thread = Not_Started, joiner = Before_Spawn, f_value = None,
     stack_asked = None\<rparr>"

text \<open>\<open>Builder::spawn\<close>, from the boxes to the handle; \<open>rc\<close> is what \<open>pthread_create\<close> returns.\<close>

definition builder_spawn :: "builder \<Rightarrow> int \<Rightarrow> 'v join_state \<Rightarrow> 'v join_state" where
  "builder_spawn b rc s =
     (let s = (if stack_bytes b \<noteq> 0 then s\<lparr>stack_asked := Some (stack_bytes b)\<rparr> else s) in
      if rc \<noteq> 0 then s\<lparr>freed := freed s @ [Payload, Slot], joiner := Came_Back (Err rc)\<rparr>
      else s\<lparr>thread := Started, joiner := Holds_Handle\<rparr>)"

text \<open>\<open>spawn_trampoline\<close>: the payload taken back and its box freed; then, when \<open>f\<close> has returned \<open>v\<close>, the slot
  written.\<close>

definition trampoline_enter :: "'v join_state \<Rightarrow> 'v join_state" where
  "trampoline_enter s = s\<lparr>thread := Running, freed := freed s @ [Payload]\<rparr>"

definition trampoline_return :: "'v \<Rightarrow> 'v join_state \<Rightarrow> 'v join_state" where
  "trampoline_return v s = s\<lparr>thread := Ended, slot := Some v, f_value := Some v\<rparr>"

text \<open>\<open>join\<close>, on what \<open>pthread_join\<close> returns.\<close>

definition join_thread :: "libc \<Rightarrow> int \<Rightarrow> 'v join_state \<Rightarrow> 'v join_state" where
  "join_thread L rc s =
     (if rc \<noteq> 0 then s\<lparr>joiner := Came_Back (Err rc)\<rparr>
      else s\<lparr>freed := freed s @ [Slot],
             joiner := Came_Back (case slot s of Some v \<Rightarrow> Ok v | None \<Rightarrow> Err (EINVAL L))\<rparr>)"

text \<open>\<open>spawn_detached\<close>, on what \<open>pthread_attr_init\<close> and \<open>pthread_create\<close> return and the \<open>errno\<close> there happens to
  be: the result, and whether the closure has been dropped here.\<close>

definition spawn_detached :: "errno \<Rightarrow> int \<Rightarrow> int \<Rightarrow> (errno + unit) \<times> bool" where
  "spawn_detached current init created =
     (if init \<noteq> 0 then (Err current, True)
      else if created \<noteq> 0 then (Err created, True) else (Ok (), False))"

inductive join_step :: "libc \<Rightarrow> 'v join_state \<Rightarrow> 'v join_state \<Rightarrow> bool" for L where
  spawns: "joiner s = Before_Spawn \<Longrightarrow> join_step L s (builder_spawn b rc s)"
| enters: "thread s = Started \<Longrightarrow> join_step L s (trampoline_enter s)"
| returns: "thread s = Running \<Longrightarrow> join_step L s (trampoline_return v s)"
| joins: "joiner s = Holds_Handle \<Longrightarrow> rc = 0 \<longrightarrow> thread s = Ended \<Longrightarrow> join_step L s (join_thread L rc s)"

text \<open>Which boxes have been freed follows from where the two threads are.\<close>

definition join_inv :: "'v join_state \<Rightarrow> bool" where
  "join_inv s \<longleftrightarrow>
     slot s = f_value s \<and> distinct (freed s)
     \<and> (f_value s \<noteq> None \<longleftrightarrow> thread s = Ended)
     \<and> (joiner s = Before_Spawn \<longrightarrow> thread s = Not_Started)
     \<and> (joiner s = Before_Spawn \<or> joiner s = Holds_Handle \<longrightarrow> Slot \<notin> set (freed s))
     \<and> (joiner s = Holds_Handle \<longrightarrow> thread s \<noteq> Not_Started)
     \<and> (thread s = Started \<longrightarrow> Payload \<notin> set (freed s))
     \<and> (thread s = Running \<or> thread s = Ended \<longrightarrow> Payload \<in> set (freed s))
     \<and> (joiner s = Before_Spawn \<longrightarrow> freed s = [])
     \<and> (\<forall>e. joiner s = Came_Back (Err e) \<longrightarrow> e \<noteq> 0 \<and>
          (thread s = Not_Started \<longrightarrow> set (freed s) = {Slot, Payload}))
     \<and> (\<forall>v. joiner s = Came_Back (Ok v) \<longrightarrow> f_value s = Some v \<and> set (freed s) = {Slot, Payload})"

lemma both_boxes: "set bs = {Slot, Payload} \<longleftrightarrow> Slot \<in> set bs \<and> Payload \<in> set bs"
  using heap_box.exhaust by blast

lemmas join_ops = builder_spawn_def trampoline_enter_def trampoline_return_def join_thread_def

lemma join_inv_step: "join_inv s \<Longrightarrow> join_step L s t \<Longrightarrow> join_inv t"
proof (erule join_step.cases)
  fix s' b rc
  assume "join_inv s" "s = s'" "t = builder_spawn b rc s'" "joiner s' = Before_Spawn"
  then show "join_inv t" by (auto simp: join_inv_def both_boxes join_ops Let_def)
next
  fix s'
  assume "join_inv s" "s = s'" "t = trampoline_enter s'" "thread s' = Started"
  then show "join_inv t" by (auto simp: join_inv_def both_boxes join_ops)
next
  fix s' v
  assume "join_inv s" "s = s'" "t = trampoline_return v s'" "thread s' = Running"
  then show "join_inv t" by (auto simp: join_inv_def both_boxes join_ops)
next
  fix s' rc
  assume "join_inv s" "s = s'" "t = join_thread L rc s'" "joiner s' = Holds_Handle" "rc = 0 \<longrightarrow> thread s' = Ended"
  then show "join_inv t" by (auto simp: join_inv_def both_boxes join_ops split: option.splits)
qed

interpretation joining: transition_system "\<lambda>s. s = join_init" "join_step L" join_inv for L
proof unfold_locales
  fix s :: "'v join_state"
  assume "s = join_init"
  then show "join_inv s" by (simp add: join_inv_def join_init_def)
qed (rule join_inv_step)

section \<open>Scopes\<close>

datatype scope_thread = Absent | Alive | Finished

datatype scope_stage = In_Body | Joining "nat list" | Left_Scope

record scope_state =
  handles :: "nat list"
  alive :: "nat \<Rightarrow> scope_thread"
  stage :: scope_stage

definition scope_init :: scope_state where
  "scope_init = \<lparr>handles = [], alive = (\<lambda>_. Absent), stage = In_Body\<rparr>"

text \<open>\<open>Scope::spawn\<close>: with \<open>rc \<noteq> 0\<close> the closure is dropped and nobody is told.\<close>

definition scope_spawn :: "int \<Rightarrow> nat \<Rightarrow> scope_state \<Rightarrow> scope_state" where
  "scope_spawn rc tid s =
     (if rc \<noteq> 0 then s
      else s\<lparr>alive := (alive s)(tid := Alive), handles := handles s @ [tid]\<rparr>)"

text \<open>\<open>scope\<close> after its body: the loop over the handles, one \<open>pthread_join\<close> at a time, and the return.\<close>

definition scope_body_ends :: "scope_state \<Rightarrow> scope_state" where
  "scope_body_ends s = s\<lparr>stage := Joining (handles s)\<rparr>"

definition scope_join_next :: "scope_state \<Rightarrow> scope_state" where
  "scope_join_next s =
     (case stage s of
        Joining (_ # tids) \<Rightarrow> s\<lparr>stage := Joining tids\<rparr>
      | Joining [] \<Rightarrow> s\<lparr>stage := Left_Scope\<rparr>
      | _ \<Rightarrow> s)"

inductive scope_step :: "scope_state \<Rightarrow> scope_state \<Rightarrow> bool" where
  body_spawns: "stage s = In_Body \<Longrightarrow> alive s tid = Absent \<Longrightarrow> scope_step s (scope_spawn rc tid s)"
| body_ends: "stage s = In_Body \<Longrightarrow> scope_step s (scope_body_ends s)"
| joins_one: "stage s = Joining (tid # tids) \<Longrightarrow> alive s tid = Finished \<Longrightarrow> scope_step s (scope_join_next s)"
| leaves: "stage s = Joining [] \<Longrightarrow> scope_step s (scope_join_next s)"
| finishes: "alive s tid = Alive \<Longrightarrow> scope_step s (s\<lparr>alive := (alive s)(tid := Finished)\<rparr>)"

definition to_join :: "scope_state \<Rightarrow> nat set" where
  "to_join s = (case stage s of In_Body \<Rightarrow> set (handles s) | Joining tids \<Rightarrow> set tids | Left_Scope \<Rightarrow> {})"

definition scope_inv :: "scope_state \<Rightarrow> bool" where
  "scope_inv s \<longleftrightarrow> (\<forall>tid. alive s tid = Alive \<longrightarrow> tid \<in> to_join s)
     \<and> (\<forall>tid \<in> to_join s. alive s tid \<noteq> Absent)"

lemma scope_inv_step: "scope_inv s \<Longrightarrow> scope_step s t \<Longrightarrow> scope_inv t"
  by (erule scope_step.cases)
    (auto simp: scope_inv_def to_join_def scope_spawn_def scope_body_ends_def scope_join_next_def
       split: if_splits scope_stage.splits)

interpretation scoping: transition_system "\<lambda>s. s = scope_init" scope_step scope_inv
proof unfold_locales
  fix s
  assume "s = scope_init"
  then show "scope_inv s" by (simp add: scope_inv_def scope_init_def to_join_def)
qed (rule scope_inv_step)

section \<open>Properties\<close>

text \<open>C34 (safety). What \<open>join\<close> answers with \<open>Ok\<close> is what the closure returned, and by then the slot and
  the payload have each been freed, once; neither is ever freed twice, by either thread, and both are
  freed when the thread could not be started.\<close>

theorem join_gives_the_value:
  assumes "reach (\<lambda>s. s = join_init) (join_step L) s"
  shows "distinct (freed s)
    \<and> (\<forall>v. joiner s = Came_Back (Ok v) \<longrightarrow> f_value s = Some v \<and> set (freed s) = {Slot, Payload})
    \<and> (joiner s = Came_Back (Err e) \<and> thread s = Not_Started \<longrightarrow> set (freed s) = {Slot, Payload})"
  using joining.reachable_inv [OF assms] by (simp add: join_inv_def)

theorem join_gives_the_value_witness:
  "let s = join_thread linux_libc 0 (trampoline_return (7 :: nat) (trampoline_enter (builder_spawn builder_new 0 join_init)))
   in joiner s = Came_Back (Ok 7) \<and> set (freed s) = {Slot, Payload}"
proof -
  let ?s1 = "builder_spawn builder_new 0 join_init :: nat join_state"
  let ?s2 = "trampoline_enter ?s1"
  let ?s3 = "trampoline_return 7 ?s2"
  let ?s4 = "join_thread linux_libc 0 ?s3"
  note defs = join_init_def join_ops builder_new_def
  let ?reach = "reach (\<lambda>s. s = join_init) (join_step linux_libc)"
  have "?reach join_init" by (simp add: reach_init)
  then have "?reach ?s1" by (rule reach_step) (rule spawns, simp add: defs)
  then have "?reach ?s2" by (rule reach_step) (rule enters, simp add: defs)
  then have "?reach ?s3" by (rule reach_step) (rule returns, simp add: defs)
  then have r: "?reach ?s4" by (rule reach_step) (rule joins, simp_all add: defs)
  have "joiner ?s4 = Came_Back (Ok 7)" by (simp add: defs)
  with join_gives_the_value [OF r] show ?thesis by simp
qed

text \<open>C33 (safety). When \<open>scope\<close> returns no thread started in it is still running, whatever the threads do and
  whichever could not be started: what they borrow outlives them. It waits for nothing else: while
  it is joining there is always a thread to finish, or a step of its own.\<close>

theorem scope_joins_all:
  assumes "reach (\<lambda>s. s = scope_init) scope_step s"
  shows "(stage s = Left_Scope \<longrightarrow> (\<forall>tid. alive s tid \<noteq> Alive))
    \<and> (\<forall>tids. stage s = Joining tids \<longrightarrow> (\<exists>t. scope_step s t))"
proof -
  have inv: "scope_inv s" by (rule scoping.reachable_inv [OF assms])
  have "\<exists>t. scope_step s t" if "stage s = Joining tids" for tids
  proof (cases tids)
    case Nil
    with that show ?thesis using leaves by blast
  next
    case (Cons tid rest)
    then have "alive s tid \<noteq> Absent" using inv that by (simp add: scope_inv_def to_join_def)
    then show ?thesis using that Cons finishes joins_one by (cases "alive s tid") blast+
  qed
  moreover have "alive s tid \<noteq> Alive" if "stage s = Left_Scope" for tid
    using inv that by (auto simp: scope_inv_def to_join_def)
  ultimately show ?thesis by blast
qed

theorem scope_joins_all_witness:
  "let s = scope_join_next (scope_join_next (scope_body_ends
       ((scope_spawn 0 4 scope_init)\<lparr>alive := (alive (scope_spawn 0 4 scope_init))(4 := Finished)\<rparr>)))
   in stage s = Left_Scope \<and> alive s 4 \<noteq> Alive"
proof -
  let ?s1 = "scope_spawn 0 4 scope_init"
  let ?s2 = "?s1\<lparr>alive := (alive ?s1)(4 := Finished)\<rparr>"
  let ?s3 = "scope_body_ends ?s2"
  let ?s4 = "scope_join_next ?s3"
  let ?s5 = "scope_join_next ?s4"
  note defs = scope_init_def scope_spawn_def scope_body_ends_def scope_join_next_def
  let ?reach = "reach (\<lambda>s. s = scope_init) scope_step"
  have "?reach scope_init" by (simp add: reach_init)
  then have "?reach ?s1" by (rule reach_step) (rule body_spawns, simp_all add: defs)
  then have "?reach ?s2" by (rule reach_step) (rule finishes, simp add: defs)
  then have "?reach ?s3" by (rule reach_step) (rule body_ends, simp add: defs)
  then have "?reach ?s4" by (rule reach_step) (rule joins_one [of _ 4 "[]"], simp_all add: defs)
  then have r: "?reach ?s5" by (rule reach_step) (rule leaves, simp add: defs)
  have "stage ?s5 = Left_Scope" by (simp add: defs)
  with scope_joins_all [OF r] show ?thesis by simp
qed

text \<open>If the body unwinds instead of returning, which the comment on \<open>ScopedKey::set\<close> says bodies do, the
  joins are skipped: the scope is left with its threads running.\<close>

definition scope_unwinds :: "scope_state \<Rightarrow> scope_state" where
  "scope_unwinds s = s\<lparr>stage := Left_Scope\<rparr>"

lemma unwinding_skips_joins:
  "\<exists>s. reach (\<lambda>s. s = scope_init) scope_step s \<and> stage s = In_Body
     \<and> stage (scope_unwinds s) = Left_Scope \<and> alive (scope_unwinds s) 4 = Alive"
proof -
  let ?s = "scope_spawn 0 4 scope_init"
  have "scope_step scope_init ?s" by (rule body_spawns) (simp_all add: scope_init_def)
  then have "reach (\<lambda>s. s = scope_init) scope_step ?s" by (blast intro: reach.intros)
  then show ?thesis
    by (intro exI [of _ ?s]) (simp add: scope_init_def scope_spawn_def scope_unwinds_def)
qed

text \<open>The error \<open>spawn_detached\<close> reports for \<open>pthread_attr_init\<close> is not the one that call returned, and may be
  no error at all: pthreads functions do not set \<open>errno\<close>.\<close>

lemma attr_init_error_is_lost: "spawn_detached 0 init created = (Err 0, True)" if "init \<noteq> 0"
  using that by (simp add: spawn_detached_def)

text \<open>The name a builder was given makes no difference to the thread it starts.\<close>

lemma name_is_dropped: "builder_spawn (set_name b name) rc s = builder_spawn b rc s"
  by (simp add: builder_spawn_def set_name_def)

end
