(* ===== verification/Files.thy ===== *)
theory Files
  imports Paths Streams
begin

unbundle bit_operations_syntax

text \<open>
  \<open>File\<close>, \<open>Metadata\<close> and the operations on whole files of \<open>src/file.rs\<close>, and \<open>copy\<close> of \<open>src/fs.rs\<close>. A
  system call is an argument, from what it is given to what it returns; \<open>open\<close> gives a number and the
  \<open>errno\<close> it leaves, the others an error or their result. Contents are read and written through the
  loops of the theory Streams, on the kernel's successive answers. An operation on a whole file also
  gives what it did to files, in order, and the reads on a descriptor answer what the system has for that
  descriptor.
\<close>

section \<open>Opening\<close>

datatype open_flag = O_RDONLY | O_WRONLY | O_RDWR | O_CREAT | O_TRUNC | O_APPEND

text \<open>\<open>open\<close>, on the C string, the flags, and the mode where one is given.\<close>

type_synonym sys_open = "bytes \<Rightarrow> open_flag list \<Rightarrow> nat option \<Rightarrow> int \<times> errno"

record file_handle = file_fd :: int

definition file_open :: "libc \<Rightarrow> sys_open \<Rightarrow> path \<Rightarrow> file_error + file_handle" where
  "file_open L sys path =
     (let c = as_c path; (fd, e) = sys c [O_RDONLY] None in
      if fd < 0 then Err (err L e (bstr ''open'')) else Ok \<lparr>file_fd = fd\<rparr>)"

text \<open>Modes are octal in the source: \<open>0o644\<close> is 420.\<close>

definition file_create :: "libc \<Rightarrow> sys_open \<Rightarrow> path \<Rightarrow> file_error + file_handle" where
  "file_create L sys path =
     (let c = as_c path; (fd, e) = sys c [O_WRONLY, O_CREAT, O_TRUNC] (Some 420) in
      if fd < 0 then Err (err L e (bstr ''create'')) else Ok \<lparr>file_fd = fd\<rparr>)"

definition file_append :: "libc \<Rightarrow> sys_open \<Rightarrow> path \<Rightarrow> file_error + file_handle" where
  "file_append L sys path =
     (let c = as_c path; (fd, e) = sys c [O_WRONLY, O_CREAT, O_APPEND] (Some 420) in
      if fd < 0 then Err (err L e (bstr ''append'')) else Ok \<lparr>file_fd = fd\<rparr>)"

definition file_open_rw :: "libc \<Rightarrow> sys_open \<Rightarrow> path \<Rightarrow> file_error + file_handle" where
  "file_open_rw L sys path =
     (let c = as_c path; (fd, e) = sys c [O_RDWR] None in
      if fd < 0 then Err (err L e (bstr ''open'')) else Ok \<lparr>file_fd = fd\<rparr>)"

definition file_create_rw :: "libc \<Rightarrow> sys_open \<Rightarrow> path \<Rightarrow> file_error + file_handle" where
  "file_create_rw L sys path =
     (let c = as_c path; (fd, e) = sys c [O_RDWR, O_CREAT, O_TRUNC] (Some 420) in
      if fd < 0 then Err (err L e (bstr ''create'')) else Ok \<lparr>file_fd = fd\<rparr>)"

section \<open>Positions\<close>

datatype whence = SEEK_SET | SEEK_CUR

text \<open>\<open>lseek\<close> takes and gives a signed 64-bit offset; the cast of the caller's \<open>u64\<close> keeps the bits.\<close>

type_synonym sys_lseek = "int \<Rightarrow> 64 word \<Rightarrow> whence \<Rightarrow> 64 word \<times> errno"

definition seek :: "libc \<Rightarrow> sys_lseek \<Rightarrow> file_handle \<Rightarrow> 64 word \<Rightarrow> file_error + 64 word" where
  "seek L sys f offset =
     (let (n, e) = sys (file_fd f) offset SEEK_SET in
      if n <s 0 then Err (err L e (bstr ''lseek'')) else Ok n)"

definition stream_position :: "libc \<Rightarrow> sys_lseek \<Rightarrow> file_handle \<Rightarrow> file_error + 64 word" where
  "stream_position L sys f =
     (let (n, e) = sys (file_fd f) 0 SEEK_CUR in
      if n <s 0 then Err (err L e (bstr ''lseek'')) else Ok n)"

definition rewind :: "libc \<Rightarrow> sys_lseek \<Rightarrow> file_handle \<Rightarrow> file_error + unit" where
  "rewind L sys f = (case seek L sys f 0 of Inl e \<Rightarrow> Err e | Inr _ \<Rightarrow> Ok ())"

section \<open>Metadata\<close>

record file_stat =
  st_mode :: "32 word"
  st_size :: "64 word"
  st_mtime :: "64 word"

text \<open>The values every Unix gives the file type bits of a mode.\<close>

definition S_IFMT :: "32 word" where "S_IFMT = 0xF000"

definition S_IFDIR :: "32 word" where "S_IFDIR = 0x4000"

definition S_IFREG :: "32 word" where "S_IFREG = 0x8000"

definition S_IFLNK :: "32 word" where "S_IFLNK = 0xA000"

definition metadata_len :: "file_stat \<Rightarrow> 64 word" where
  "metadata_len st = st_size st"

definition metadata_is_empty :: "file_stat \<Rightarrow> bool" where
  "metadata_is_empty st = (metadata_len st = 0)"

definition metadata_is_dir :: "file_stat \<Rightarrow> bool" where
  "metadata_is_dir st = (st_mode st AND S_IFMT = S_IFDIR)"

definition metadata_is_file :: "file_stat \<Rightarrow> bool" where
  "metadata_is_file st = (st_mode st AND S_IFMT = S_IFREG)"

definition metadata_mode :: "file_stat \<Rightarrow> 32 word" where
  "metadata_mode st = st_mode st"

text \<open>\<open>0o200\<close> is 128.\<close>

definition metadata_readonly :: "file_stat \<Rightarrow> bool" where
  "metadata_readonly st = (st_mode st AND 128 = 0)"

definition modified_secs :: "file_stat \<Rightarrow> 64 word" where
  "modified_secs st = st_mtime st"

text \<open>\<open>stat\<close> and \<open>lstat\<close> on a name, \<open>fstat\<close> on a descriptor.\<close>

definition metadata :: "libc \<Rightarrow> (bytes \<Rightarrow> errno + file_stat) \<Rightarrow> path \<Rightarrow> file_error + file_stat" where
  "metadata L stat path =
     (case stat (as_c path) of Inl e \<Rightarrow> Err (err L e (bstr ''stat'')) | Inr st \<Rightarrow> Ok st)"

definition symlink_metadata :: "libc \<Rightarrow> (bytes \<Rightarrow> errno + file_stat) \<Rightarrow> path \<Rightarrow> file_error + file_stat" where
  "symlink_metadata L lstat path =
     (case lstat (as_c path) of Inl e \<Rightarrow> Err (err L e (bstr ''lstat'')) | Inr st \<Rightarrow> Ok st)"

definition file_metadata :: "libc \<Rightarrow> (int \<Rightarrow> errno + file_stat) \<Rightarrow> file_handle \<Rightarrow> file_error + file_stat" where
  "file_metadata L fstat f =
     (case fstat (file_fd f) of Inl e \<Rightarrow> Err (err L e (bstr ''fstat'')) | Inr st \<Rightarrow> Ok st)"

definition file_len :: "libc \<Rightarrow> (int \<Rightarrow> errno + file_stat) \<Rightarrow> file_handle \<Rightarrow> file_error + 64 word" where
  "file_len L fstat f =
     (case fstat (file_fd f) of Inl e \<Rightarrow> Err (err L e (bstr ''fstat'')) | Inr st \<Rightarrow> Ok (st_size st))"

definition file_is_empty :: "libc \<Rightarrow> (int \<Rightarrow> errno + file_stat) \<Rightarrow> file_handle \<Rightarrow> file_error + bool" where
  "file_is_empty L fstat f =
     (case file_len L fstat f of Inl e \<Rightarrow> Err e | Inr n \<Rightarrow> Ok (n = 0))"

text \<open>\<open>Path::exists\<close>, \<open>is_dir\<close> and \<open>is_file\<close> of \<open>src/path.rs\<close>: an error is a no.\<close>

definition exists_name :: "(bytes \<Rightarrow> int) \<Rightarrow> path \<Rightarrow> bool" where
  "exists_name access path = (let c = as_c path in access c = 0)"

definition path_is_dir :: "libc \<Rightarrow> (bytes \<Rightarrow> errno + file_stat) \<Rightarrow> path \<Rightarrow> bool" where
  "path_is_dir L stat path =
     (case metadata L stat path of Inl _ \<Rightarrow> False | Inr st \<Rightarrow> metadata_is_dir st)"

definition path_is_file :: "libc \<Rightarrow> (bytes \<Rightarrow> errno + file_stat) \<Rightarrow> path \<Rightarrow> bool" where
  "path_is_file L stat path =
     (case metadata L stat path of Inl _ \<Rightarrow> False | Inr st \<Rightarrow> metadata_is_file st)"

section \<open>Whole files\<close>

text \<open>What is done to files: opened, or created and truncated, under a name, on a descriptor; bytes written to a
  descriptor; a descriptor closed.\<close>

datatype file_event = Opened_Read bytes int | Created bytes int | Put int bytes | Closed int

text \<open>And what that does to them: every name leads to a file (two names may lead to the same one), a
  descriptor is one of an open file, and what is put on it goes after what is there already, nobody else
  writing.\<close>

record 'i disk =
  disk_bytes :: "'i \<Rightarrow> bytes option"
  disk_open :: "int \<Rightarrow> 'i option"

fun happen :: "(bytes \<Rightarrow> 'i) \<Rightarrow> file_event \<Rightarrow> 'i disk \<Rightarrow> 'i disk" where
  "happen node (Opened_Read c fd) d = d\<lparr>disk_open := (disk_open d)(fd \<mapsto> node c)\<rparr>"
| "happen node (Created c fd) d =
     d\<lparr>disk_open := (disk_open d)(fd \<mapsto> node c), disk_bytes := (disk_bytes d)(node c \<mapsto> [])\<rparr>"
| "happen node (Put fd bytes) d =
     (case disk_open d fd of
        None \<Rightarrow> d
      | Some i \<Rightarrow>
          d\<lparr>disk_bytes := (disk_bytes d)(i \<mapsto> (case disk_bytes d i of None \<Rightarrow> [] | Some old \<Rightarrow> old) @ bytes)\<rparr>)"
| "happen node (Closed fd) d = d\<lparr>disk_open := (disk_open d)(fd := None)\<rparr>"

definition after_events :: "(bytes \<Rightarrow> 'i) \<Rightarrow> file_event list \<Rightarrow> ('i \<Rightarrow> bytes option) \<Rightarrow> 'i \<Rightarrow> bytes option" where
  "after_events node evs fs = disk_bytes (fold (happen node) evs \<lparr>disk_bytes = fs, disk_open = (\<lambda>_. None)\<rparr>)"

text \<open>\<open>read\<close>: the file's length is a hint for the buffer. An allocation of more than \<open>isize::MAX\<close> bytes,
  which a length with the top bit set asks for, panics; the file is closed on the way out.\<close>

definition length_hint :: "libc \<Rightarrow> (int \<Rightarrow> errno + file_stat) \<Rightarrow> file_handle \<Rightarrow> 64 word" where
  "length_hint L fstat f = (case file_len L fstat f of Inl _ \<Rightarrow> 0 | Inr n \<Rightarrow> n)"

definition read_whole :: "libc \<Rightarrow> sys_open \<Rightarrow> (int \<Rightarrow> errno + file_stat) \<Rightarrow> (int \<Rightarrow> read_ans list) \<Rightarrow> path
    \<Rightarrow> ((file_error + bytes) ended \<times> file_event list) option" where
  "read_whole L sys fstat script path =
     (case file_open L sys path of
        Inl e \<Rightarrow> Some (Done (Err e), [])
      | Inr f \<Rightarrow>
          if length_hint L fstat f <s 0 then Some (Panic, [Opened_Read (as_c path) (file_fd f), Closed (file_fd f)])
          else
            (case read_to_end L (script (file_fd f)) [] of
               None \<Rightarrow> None
             | Some (r, out, _) \<Rightarrow>
                 Some (Done (case r of Inl e \<Rightarrow> Err e | Inr _ \<Rightarrow> Ok out),
                       [Opened_Read (as_c path) (file_fd f), Closed (file_fd f)])))"

definition read_to_string :: "libc \<Rightarrow> sys_open \<Rightarrow> (int \<Rightarrow> errno + file_stat) \<Rightarrow> (int \<Rightarrow> read_ans list) \<Rightarrow> path
    \<Rightarrow> ((file_error + bytes) ended \<times> file_event list) option" where
  "read_to_string L sys fstat script path =
     map_option (\<lambda>(r, evs).
       (case r of
          Done (Inl e) \<Rightarrow> Done (Err e)
        | Done (Inr bytes) \<Rightarrow>
            (case from_utf8 bytes of
               Some s \<Rightarrow> Done (Ok s)
             | None \<Rightarrow> Done (Err (from_errno L (EILSEQ L) (bstr ''not utf-8''))))
        | Panic \<Rightarrow> Panic, evs))
       (read_whole L sys fstat script path)"

definition write_whole :: "libc \<Rightarrow> sys_open \<Rightarrow> write_ans list \<Rightarrow> path \<Rightarrow> bytes
    \<Rightarrow> ((file_error + unit) ended \<times> file_event list) option" where
  "write_whole L sys script path bytes =
     (case file_create L sys path of
        Inl e \<Rightarrow> Some (Done (Err e), [])
      | Inr f \<Rightarrow>
          map_option (\<lambda>(v, out, _). (v, [Created (as_c path) (file_fd f), Put (file_fd f) out, Closed (file_fd f)]))
            (file_write_all L script bytes))"

text \<open>\<open>file::copy\<close>, which reads and closes the source before it creates the destination, and \<open>fs::copy\<close>,
  which holds the source open to the end.\<close>

definition file_copy :: "libc \<Rightarrow> sys_open \<Rightarrow> (int \<Rightarrow> errno + file_stat) \<Rightarrow> (int \<Rightarrow> read_ans list) \<Rightarrow> write_ans list \<Rightarrow> path \<Rightarrow> path
    \<Rightarrow> ((file_error + nat) ended \<times> file_event list) option" where
  "file_copy L sys fstat rs ws from to =
     (case read_whole L sys fstat rs from of
        None \<Rightarrow> None
      | Some (Panic, evs) \<Rightarrow> Some (Panic, evs)
      | Some (Done (Inl e), evs) \<Rightarrow> Some (Done (Err e), evs)
      | Some (Done (Inr bytes), evs) \<Rightarrow>
          (let n = length bytes in
           map_option (\<lambda>(v, evs').
             (case v of Done (Inl e) \<Rightarrow> Done (Err e) | Done (Inr _) \<Rightarrow> Done (Ok n) | Panic \<Rightarrow> Panic, evs @ evs'))
             (write_whole L sys ws to bytes)))"

definition fs_copy :: "libc \<Rightarrow> sys_open \<Rightarrow> (int \<Rightarrow> read_ans list) \<Rightarrow> write_ans list \<Rightarrow> path \<Rightarrow> path
    \<Rightarrow> ((file_error + nat) ended \<times> file_event list) option" where
  "fs_copy L sys rs ws from to =
     (case file_open L sys from of
        Inl e \<Rightarrow> Some (Done (Err e), [])
      | Inr source \<Rightarrow>
          (case read_to_end L (rs (file_fd source)) [] of
             None \<Rightarrow> None
           | Some (Inl e, _, _) \<Rightarrow>
               Some (Done (Err e), [Opened_Read (as_c from) (file_fd source), Closed (file_fd source)])
           | Some (Inr _, bytes, _) \<Rightarrow>
               (case file_create L sys to of
                  Inl e \<Rightarrow> Some (Done (Err e), [Opened_Read (as_c from) (file_fd source), Closed (file_fd source)])
                | Inr sink \<Rightarrow>
                    map_option (\<lambda>(v, out, _).
                      (case v of Done (Inl e) \<Rightarrow> Done (Err e) | Done (Inr _) \<Rightarrow> Done (Ok (length bytes)) | Panic \<Rightarrow> Panic,
                       [Opened_Read (as_c from) (file_fd source), Created (as_c to) (file_fd sink), Put (file_fd sink) out,
                        Closed (file_fd sink), Closed (file_fd source)]))
                      (file_write_all L ws bytes))))"

section \<open>Names\<close>

text \<open>\<open>canonicalize\<close>: what \<open>realpath\<close> leaves in a buffer of \<open>PATH_MAX\<close> bytes; \<open>read_link\<close>: how many bytes
  of it \<open>readlink\<close> filled.\<close>

definition canonicalize :: "libc \<Rightarrow> (bytes \<Rightarrow> errno + bytes) \<Rightarrow> path \<Rightarrow> file_error + path" where
  "canonicalize L realpath path =
     (case realpath (as_c path) of
        Inl e \<Rightarrow> Err (err L e (bstr ''realpath''))
      | Inr buf \<Rightarrow>
          (let e = (case position (\<lambda>b. b = 0) buf of Some i \<Rightarrow> i | None \<Rightarrow> length buf) in Ok (take e buf)))"

definition read_link :: "libc \<Rightarrow> (bytes \<Rightarrow> errno + nat \<times> bytes) \<Rightarrow> path \<Rightarrow> file_error + path" where
  "read_link L readlink path =
     (case readlink (as_c path) of
        Inl e \<Rightarrow> Err (err L e (bstr ''readlink''))
      | Inr (n, buf) \<Rightarrow> Ok (take n buf))"

definition absolute :: "libc \<Rightarrow> errno \<Rightarrow> bytes option \<Rightarrow> path \<Rightarrow> file_error + path" where
  "absolute L current cwd path =
     (if is_absolute path then Ok path
      else
        (case cwd of
           None \<Rightarrow> Err (from_errno L current (bstr ''getcwd''))
         | Some dir \<Rightarrow> Ok (push dir path)))"

definition rename_file :: "libc \<Rightarrow> (bytes \<Rightarrow> bytes \<Rightarrow> errno option) \<Rightarrow> path \<Rightarrow> path \<Rightarrow> file_error + unit" where
  "rename_file L sys from to =
     (case sys (as_c from) (as_c to) of Some e \<Rightarrow> Err (err L e (bstr ''rename'')) | None \<Rightarrow> Ok ())"

definition hard_link :: "libc \<Rightarrow> (bytes \<Rightarrow> bytes \<Rightarrow> errno option) \<Rightarrow> path \<Rightarrow> path \<Rightarrow> file_error + unit" where
  "hard_link L sys from to =
     (case sys (as_c from) (as_c to) of Some e \<Rightarrow> Err (err L e (bstr ''link'')) | None \<Rightarrow> Ok ())"

section \<open>Properties\<close>

lemma read_to_end_result:
  assumes "read_to_end L script [] = Some (r, out, rest)"
  shows "out = fst (incoming L script)"
    and "r = Ok n \<Longrightarrow> snd (incoming L script) = AtEof"
    and "r = Err e \<Longrightarrow> snd (incoming L script) \<noteq> AtEof"
  using read_to_end_loop_incoming [of L 0 script "[]"] assms
  by (auto simp: read_to_end_def split: terminator.splits)

lemma file_write_all_result:
  assumes "file_write_all L script bytes = Some (v, out, rest)"
  shows "prefix out bytes" "v = Done (Ok ()) \<Longrightarrow> out = bytes"
  using file_loop.run_result [OF assms] by auto

text \<open>How a copy goes, by what was opened and read.\<close>

definition copied :: "(file_error + unit) ended \<Rightarrow> nat \<Rightarrow> (file_error + nat) ended" where
  "copied v n = (case v of Done (Inl e) \<Rightarrow> Done (Err e) | Done (Inr _) \<Rightarrow> Done (Ok n) | Panic \<Rightarrow> Panic)"

definition copy_source :: "sys_open \<Rightarrow> path \<Rightarrow> int" where
  "copy_source sys from = fst (sys (as_c from) [O_RDONLY] None)"

lemma copy_steps:
  assumes "file_copy L sys fstat rs ws from to = Some (r, evs) \<or> fs_copy L sys rs ws from to = Some (r, evs)"
  defines "fd \<equiv> copy_source sys from"
  obtains (failed) "\<And>n. r \<noteq> Done (Ok n)" "evs = [] \<or> evs = [Opened_Read (as_c from) fd, Closed fd]"
  | (written) v out rest g where "0 \<le> fd" "snd (incoming L (rs fd)) = AtEof"
      "file_write_all L ws (fst (incoming L (rs fd))) = Some (v, out, rest)"
      "r = copied v (length (fst (incoming L (rs fd))))"
      "evs = [Opened_Read (as_c from) fd, Closed fd, Created (as_c to) g, Put g out, Closed g]
       \<or> evs = [Opened_Read (as_c from) fd, Created (as_c to) g, Put g out, Closed g, Closed fd]"
proof (cases "file_open L sys from")
  case (Inl e)
  with assms show thesis by (intro failed) (auto simp: file_copy_def fs_copy_def read_whole_def)
next
  case f: (Inr f)
  then have fd: "file_fd f = fd" "0 \<le> fd"
    by (auto simp: file_open_def fd_def copy_source_def split: prod.splits if_splits)
  let ?huge = "length_hint L fstat f <s 0"
  consider (huge) "?huge" "file_copy L sys fstat rs ws from to = Some (r, evs)"
    | (fits) "\<not> ?huge \<and> file_copy L sys fstat rs ws from to = Some (r, evs)
        \<or> fs_copy L sys rs ws from to = Some (r, evs)"
    using assms by blast
  then show thesis
  proof cases
    case huge
    with f fd show thesis by (intro failed) (auto simp: file_copy_def read_whole_def)
  next
    case fits
    show thesis
    proof (cases "read_to_end L (rs fd) []")
      case None
      with fits f fd show thesis by (auto simp: file_copy_def fs_copy_def read_whole_def)
    next
      case (Some x)
      then obtain q data rest where read: "read_to_end L (rs fd) [] = Some (q, data, rest)" by (cases x) auto
      note R = read_to_end_result [OF read]
      show thesis
      proof (cases q)
        case (Inl e)
        with fits f fd read show thesis
          by (intro failed) (auto simp: file_copy_def fs_copy_def read_whole_def)
      next
        case (Inr n)
        show thesis
        proof (cases "file_create L sys to")
          case (Inl e)
          with fits f fd read Inr show thesis
            by (intro failed) (auto simp: file_copy_def fs_copy_def read_whole_def write_whole_def Let_def)
        next
          case g: (Inr g)
          show thesis
          proof (cases "file_write_all L ws data")
            case None
            with fits f fd g read Inr show thesis
              by (auto simp: file_copy_def fs_copy_def read_whole_def write_whole_def Let_def)
          next
            case (Some y)
            then obtain v out ws' where w: "file_write_all L ws data = Some (v, out, ws')" by (cases y) auto
            with fits f fd g read Inr R show thesis
              by (intro written [of v out ws' "file_fd g"])
                 (auto simp: file_copy_def fs_copy_def read_whole_def write_whole_def Let_def copied_def)
          qed
        qed
      qed
    qed
  qed
qed

lemma after_failed: "evs = [] \<or> evs = [Opened_Read c fd, Closed fd] \<Longrightarrow> after_events node evs fs = fs"
  by (auto simp: after_events_def)

lemma after_written:
  "evs = [Opened_Read c fd, Closed fd, Created c' g, Put g out, Closed g]
     \<or> evs = [Opened_Read c fd, Created c' g, Put g out, Closed g, Closed fd]
   \<Longrightarrow> after_events node evs fs = fs(node c' \<mapsto> out)"
  by (auto simp: after_events_def)



text \<open>The answer of \<open>readonly\<close> is the owner's write bit, not all three as in \<open>std\<close>: a file its group may
  write answers yes.\<close>

lemma readonly_is_owner_bit:
  "metadata_readonly \<lparr>st_mode = 0x8010, st_size = 0, st_mtime = 0\<rparr>"
  by (simp add: metadata_readonly_def)

text \<open>The length a file reports is trusted: one that claims too much ends \<open>read\<close> before a byte is read.\<close>

lemma read_trusts_the_length:
  "read_whole L (\<lambda>_ _ _. (3, 0)) (\<lambda>_. Ok \<lparr>st_mode = 0x8000, st_size = 2 ^ 63, st_mtime = 0\<rparr>) (\<lambda>_. [RData []]) path
     = Some (Panic, [Opened_Read (as_c path) 3, Closed 3])"
  by (simp add: read_whole_def file_open_def length_hint_def file_len_def word_sless_alt)

end
