(* ===== verification/Mappings.thy ===== *)
theory Mappings
  imports Files
begin

text \<open>
  \<open>src/mmap.rs\<close>. Lengths and addresses are 64-bit words. What \<open>mmap\<close>, \<open>mprotect\<close> and \<open>sysconf\<close> answer
  is an argument; what a mapping's bytes are is the function \<open>mem\<close>, from an address and a length. An
  operation that may unmap gives the list of the ranges it unmapped.
\<close>

type_synonym usize = "64 word"

type_synonym range = "usize \<times> usize"

section \<open>Protections\<close>

text \<open>The constants are libc's; these are their values on every system the crate builds for.\<close>

definition PROT_NONE :: "32 word" where "PROT_NONE = 0"

definition PROT_READ :: "32 word" where "PROT_READ = 1"

definition PROT_WRITE :: "32 word" where "PROT_WRITE = 2"

definition PROT_EXEC :: "32 word" where "PROT_EXEC = 4"

record protection = prot_bits :: "32 word"

definition protection_NONE :: protection where "protection_NONE = \<lparr>prot_bits = PROT_NONE\<rparr>"

definition protection_READ :: protection where "protection_READ = \<lparr>prot_bits = PROT_READ\<rparr>"

definition protection_READ_WRITE :: protection where
  "protection_READ_WRITE = \<lparr>prot_bits = or PROT_READ PROT_WRITE\<rparr>"

definition protection_READ_EXECUTE :: protection where
  "protection_READ_EXECUTE = \<lparr>prot_bits = or PROT_READ PROT_EXEC\<rparr>"

definition protection_with :: "protection \<Rightarrow> 32 word \<Rightarrow> protection" where
  "protection_with p extra = \<lparr>prot_bits = or (prot_bits p) extra\<rparr>"

section \<open>Pages\<close>

text \<open>\<open>page_size\<close>: the answer and the cache afterwards; \<open>sysconf\<close> gives a signed \<open>long\<close>.\<close>

definition page_size :: "64 word \<Rightarrow> usize \<Rightarrow> usize \<times> usize" where
  "page_size sysconf cached =
     (if cached \<noteq> 0 then (cached, cached)
      else (let n = (if 0 <s sysconf then sysconf else 4096) in (n, n)))"

definition div_ceil :: "usize \<Rightarrow> usize \<Rightarrow> usize" where
  "div_ceil n page = (let d = n div page in if n mod page > 0 then d + 1 else d)"

text \<open>The product wraps, as it does in a release build; a debug build panics instead.\<close>

definition page_ceil :: "usize \<Rightarrow> usize \<Rightarrow> usize" where
  "page_ceil page n = div_ceil n page * page"

section \<open>Mappings\<close>

text \<open>\<open>Mmap\<close>, \<open>MmapMut\<close> and \<open>Reservation\<close> have the same fields and the same \<open>Drop\<close>.\<close>

record mapping =
  map_ptr :: usize
  map_len :: usize

definition no_mapping :: mapping where
  "no_mapping = \<lparr>map_ptr = 0, map_len = 0\<rparr>"

definition drop_mapping :: "mapping \<Rightarrow> range list" where
  "drop_mapping m = (if map_len m \<noteq> 0 then [(map_ptr m, map_len m)] else [])"

definition mapping_bytes :: "(usize \<Rightarrow> usize \<Rightarrow> bytes) \<Rightarrow> mapping \<Rightarrow> bytes" where
  "mapping_bytes mem m = (if map_len m = 0 then [] else mem (map_ptr m) (map_len m))"

text \<open>What \<open>mmap\<close> is asked for: the length, the protection, and the descriptor when there is a file.\<close>

record map_request =
  rq_len :: usize
  rq_prot :: "32 word"
  rq_file :: "int option"

text \<open>\<open>Mmap::map\<close>, with the descriptors it closed: the file is given by value and dropped on every path,
  which a mapping does not mind.\<close>

definition mmap_map ::
  "libc \<Rightarrow> (int \<Rightarrow> errno + file_stat) \<Rightarrow> (map_request \<Rightarrow> errno + usize) \<Rightarrow> file_handle
    \<Rightarrow> (file_error + mapping) \<times> int list"
where
  "mmap_map L fstat mmap file' =
     (case file_metadata L fstat file' of
        Inl e \<Rightarrow> Err e
      | Inr st \<Rightarrow>
          (let len = metadata_len st in
           if len = 0 then Ok no_mapping
           else
             (case mmap \<lparr>rq_len = len, rq_prot = PROT_READ, rq_file = Some (file_fd file')\<rparr> of
                Inl e \<Rightarrow> Err (from_errno L e (bstr ''mmap''))
              | Inr ptr \<Rightarrow> Ok \<lparr>map_ptr = ptr, map_len = len\<rparr>)),
      [file_fd file'])"

definition map_anon ::
  "libc \<Rightarrow> usize \<Rightarrow> (map_request \<Rightarrow> errno + usize) \<Rightarrow> file_error + mapping"
where
  "map_anon L len mmap =
     (if len = 0 then Ok no_mapping
      else
        (case mmap \<lparr>rq_len = len, rq_prot = or PROT_READ PROT_WRITE, rq_file = None\<rparr> of
           Inl e \<Rightarrow> Err (from_errno L e (bstr ''mmap''))
         | Inr ptr \<Rightarrow> Ok \<lparr>map_ptr = ptr, map_len = len\<rparr>))"

definition reservation_new ::
  "libc \<Rightarrow> usize \<Rightarrow> usize \<Rightarrow> (map_request \<Rightarrow> errno + usize) \<Rightarrow> file_error + mapping"
where
  "reservation_new L page len mmap =
     (if len = 0 then Ok no_mapping
      else
        (let len = page_ceil page len in
         case mmap \<lparr>rq_len = len, rq_prot = PROT_NONE, rq_file = None\<rparr> of
           Inl e \<Rightarrow> Err (from_errno L e (bstr ''mmap''))
         | Inr ptr \<Rightarrow> Ok \<lparr>map_ptr = ptr, map_len = len\<rparr>))"

text \<open>\<open>make_read_only\<close>: the mapping handed on with \<open>self\<close> forgotten, or the error with \<open>self\<close> dropped.
  \<open>mprotect\<close> answers with an error or nothing.\<close>

definition make_read_only ::
  "libc \<Rightarrow> (usize \<Rightarrow> usize \<Rightarrow> 32 word \<Rightarrow> errno option) \<Rightarrow> mapping
    \<Rightarrow> (file_error + mapping) \<times> range list"
where
  "make_read_only L mprotect m =
     (case (if map_len m \<noteq> 0 then mprotect (map_ptr m) (map_len m) PROT_READ else None) of
        Some e \<Rightarrow> (Err (from_errno L e (bstr ''mprotect'')), drop_mapping m)
      | None \<Rightarrow> (Ok \<lparr>map_ptr = map_ptr m, map_len = map_len m\<rparr>, []))"

definition protect ::
  "libc \<Rightarrow> (usize \<Rightarrow> usize \<Rightarrow> 32 word \<Rightarrow> errno option) \<Rightarrow> usize \<Rightarrow> usize \<Rightarrow> protection
    \<Rightarrow> file_error + unit"
where
  "protect L mprotect ptr len prot =
     (if len = 0 then Ok ()
      else
        (case mprotect ptr len (prot_bits prot) of
           Some e \<Rightarrow> Err (from_errno L e (bstr ''mprotect''))
         | None \<Rightarrow> Ok ()))"

section \<open>The owner of a mapping\<close>

text \<open>What is done with a mapping between its creation and its drop; \<open>Freeze\<close> is \<open>make_read_only\<close> and
  what \<open>mprotect\<close> answers to it.\<close>

datatype map_use = Flush | Look | Freeze "errno option"

definition map_held :: "mapping \<Rightarrow> range multiset" where
  "map_held m = mset (drop_mapping m)"

fun use_mapping :: "libc \<Rightarrow> map_use \<Rightarrow> mapping \<Rightarrow> mapping option \<times> range list" where
  "use_mapping L Flush m = (Some m, [])"
| "use_mapping L Look m = (Some m, [])"
| "use_mapping L (Freeze ans) m =
     (case make_read_only L (\<lambda>_ _ _. ans) m of
        (Inl _, released) \<Rightarrow> (None, released)
      | (Inr m', released) \<Rightarrow> (Some m', released))"

interpretation mapping_owner: owner map_held "use_mapping L" drop_mapping for L
proof unfold_locales
  fix op m m' released
  show "use_mapping L op m = (Some m', released) \<Longrightarrow> map_held m = mset released + map_held m'"
    and "use_mapping L op m = (None, released) \<Longrightarrow> map_held m = mset released"
    by (cases op; auto simp: make_read_only_def map_held_def drop_mapping_def split: if_splits option.splits)+
qed (simp add: map_held_def)

section \<open>Rounding up\<close>

lemma unat_div_ceil:
  assumes "0 < unat page"
  shows "unat (div_ceil n page) = unat n div unat page + (if 0 < unat n mod unat page then 1 else 0)"
proof (cases "unat n mod unat page = 0")
  case True
  then show ?thesis
    by (simp add: div_ceil_def word_less_nat_alt unat_mod_distrib unat_div_distrib Let_def)
next
  case False
  then have "unat page \<noteq> 1" by auto
  with assms have "unat n div unat page \<le> unat n div 2" by (intro div_le_mono2) auto
  moreover have "unat n < 2 ^ LENGTH(64)" by (rule unsigned_less)
  ultimately have "unat n div unat page + 1 < 2 ^ LENGTH(64)" by simp
  then have "unat (n div page + 1) = unat n div unat page + 1"
    by (subst unat_add_lem [THEN iffD1]) (simp_all add: unat_div_distrib)
  with False show ?thesis
    by (simp add: div_ceil_def word_less_nat_alt unat_mod_distrib unat_div_distrib Let_def)
qed

lemma ceil_bounds:
  assumes "0 < (p :: nat)"
  shows "n \<le> (n div p + (if 0 < n mod p then 1 else 0)) * p"
    and "(n div p + (if 0 < n mod p then 1 else 0)) * p < n + p"
proof -
  have n: "n = n div p * p + n mod p" "n mod p < p" "(n div p + 1) * p = n div p * p + p"
    using assms by simp_all
  show "n \<le> (n div p + (if 0 < n mod p then 1 else 0)) * p"
    by (cases "0 < n mod p"; simp only: if_True if_False add_0_right; insert n; linarith)
  show "(n div p + (if 0 < n mod p then 1 else 0)) * p < n + p"
    by (cases "0 < n mod p"; simp only: if_True if_False add_0_right; insert n; linarith)
qed

lemma page_ceil_unat:
  assumes "0 < unat page" "unat n + unat page \<le> 2 ^ 64"
  shows "unat (page_ceil page n)
    = (unat n div unat page + (if 0 < unat n mod unat page then 1 else 0)) * unat page"
proof -
  have "unat (div_ceil n page) * unat page < 2 ^ LENGTH(64)"
    using ceil_bounds(2) [OF assms(1), of "unat n"] assms(2)
    unfolding unat_div_ceil [OF assms(1)] by simp
  then show ?thesis
    unfolding page_ceil_def unat_div_ceil [OF assms(1), symmetric] by (simp add: unat_mult_lem [THEN iffD1])
qed

section \<open>Properties\<close>

text \<open>\<open>page_ceil\<close> is the least multiple of the page size that is not below its argument,
  as long as that fits in a \<open>usize\<close>.\<close>

theorem page_ceil_least:
  assumes "0 < unat page" "unat n + unat page \<le> 2 ^ 64"
  shows "unat page dvd unat (page_ceil page n) \<and> unat n \<le> unat (page_ceil page n)
    \<and> unat (page_ceil page n) < unat n + unat page
    \<and> (unat page dvd m \<longrightarrow> unat n \<le> m \<longrightarrow> unat (page_ceil page n) \<le> m)"
proof -
  let ?p = "unat page" and ?c = "unat (page_ceil page n)"
  have c: "?c = (unat n div ?p + (if 0 < unat n mod ?p then 1 else 0)) * ?p"
    by (rule page_ceil_unat [OF assms])
  have lo: "unat n \<le> ?c" and hi: "?c < unat n + ?p"
    using ceil_bounds [OF assms(1), of "unat n"] c by simp_all
  have "?c \<le> m" if "?p dvd m" "unat n \<le> m"
  proof -
    from that(1) obtain k where k: "m = ?p * k" by blast
    from c obtain j where j: "?c = ?p * j" by (metis mult.commute)
    have "?p * j < ?p * (k + 1)" using hi that(2) j k by (simp add: algebra_simps)
    then have "j < k + 1" by (simp only: mult_less_cancel1)
    then have "j \<le> k" by simp
    with j k show ?thesis by simp
  qed
  moreover have "?p dvd ?c" using c by simp
  ultimately show ?thesis using lo hi by blast
qed

theorem page_ceil_least_witness:
  "unat (page_ceil 4096 5000) \<le> 8192 \<and> 5000 \<le> unat (page_ceil 4096 5000)"
  using page_ceil_least [of 4096 5000 8192] by simp

text \<open>Beyond that the product wraps: reserving the whole address space asks the kernel for nothing.\<close>

lemma page_ceil_wraps: "page_ceil 4096 (- 1) = 0"
  by code_simp

text \<open>\<open>page_size\<close> is positive and the same at every call, as long as the system's answer
  is, whatever was cached before by this or another thread.\<close>

theorem page_size_constant:
  assumes "cached = 0 \<or> cached = fst (page_size sysconf 0)"
  shows "fst (page_size sysconf cached) = fst (page_size sysconf 0)
    \<and> snd (page_size sysconf cached) = fst (page_size sysconf 0)
    \<and> 0 < fst (page_size sysconf cached)"
proof -
  have "fst (page_size sysconf 0) \<noteq> 0" by (auto simp: page_size_def)
  with assms show ?thesis by (auto simp: page_size_def word_gt_0)
qed

theorem page_size_constant_witness: "fst (page_size 16384 0) = 16384 \<and> fst (page_size (-1) 4096) = 4096"
  using page_size_constant [of 0 16384] page_size_constant [of 4096 "-1"]
  by (simp add: page_size_def) code_simp

text \<open>Every mapping is unmapped exactly once, with the address the system gave for it and the length it
  was asked for: whatever is done with it, and whether or not turning it read-only fails, the range
  unmapped by the time it is gone is the one it was created with, and none for an empty one.\<close>

theorem mapping_unmapped_once:
  assumes "fst (mmap_map L fstat mmap f) = Ok m \<or> map_anon L len mmap = Ok m
    \<or> reservation_new L page len mmap = Ok m"
  shows "map_len m = 0 \<and> mapping_owner.life L ops m = []
    \<or> (\<exists>rq. mmap rq = Ok (map_ptr m) \<and> mapping_owner.life L ops m = [(map_ptr m, rq_len rq)])"
proof -
  have "mset (mapping_owner.life L ops m) = mset (drop_mapping m)"
    using mapping_owner.life_releases [of L ops m] by (simp add: map_held_def)
  then have life: "mapping_owner.life L ops m = (if map_len m = 0 then [] else [(map_ptr m, map_len m)])"
    by (auto simp: drop_mapping_def)
  show ?thesis
  proof (cases "map_len m = 0")
    case False
    with assms have "\<exists>rq. mmap rq = Ok (map_ptr m) \<and> rq_len rq = map_len m"
      by (auto simp: mmap_map_def map_anon_def reservation_new_def no_mapping_def Let_def
          split: sum.splits if_splits)
    with life False show ?thesis by auto
  qed (use life in simp)
qed

end
