(* ===== verification/Heap.thy ===== *)
theory Heap
  imports Prelude
begin

text \<open>
  \<open>src/heap.rs\<close>: the global allocator over the C one. The C allocator is a parameter: its heap \<open>'h\<close>,
  the functions the code calls, and \<open>block\<close>, which says what bytes the live block at an address holds.
  Addresses and sizes are natural numbers; the null pointer is 0.
\<close>

record 'h c_alloc =
  block :: "'h \<Rightarrow> nat \<Rightarrow> bytes option"
  c_malloc :: "'h \<Rightarrow> nat \<Rightarrow> nat \<times> 'h"
  c_calloc :: "'h \<Rightarrow> nat \<Rightarrow> nat \<Rightarrow> nat \<times> 'h"
  c_realloc :: "'h \<Rightarrow> nat \<Rightarrow> nat \<Rightarrow> nat \<times> 'h"
  c_memalign :: "'h \<Rightarrow> nat \<Rightarrow> nat \<Rightarrow> (errno + nat) \<times> 'h"
  c_free :: "'h \<Rightarrow> nat \<Rightarrow> 'h"
  c_write :: "'h \<Rightarrow> nat \<Rightarrow> bytes \<Rightarrow> 'h"

section \<open>What the C standard and POSIX promise\<close>

text \<open>A new block: nothing happened and the pointer is null, or the block is at an address that was not
  live, and nothing else changed.\<close>

definition adds_block :: "'h c_alloc \<Rightarrow> 'h \<Rightarrow> nat \<Rightarrow> 'h \<Rightarrow> bool \<Rightarrow> (bytes \<Rightarrow> bool) \<Rightarrow> bool" where
  "adds_block C h p h' aligned ok \<longleftrightarrow>
     (if p = 0 then block C h' = block C h
      else block C h p = None \<and> aligned \<and> (\<exists>bs. ok bs \<and> block C h' = (block C h)(p \<mapsto> bs)))"

definition suits :: "nat \<Rightarrow> nat \<Rightarrow> nat \<Rightarrow> bool" where
  "suits min_align n p \<longleftrightarrow> (\<forall>k. 2 ^ k \<le> min_align \<longrightarrow> 2 ^ k \<le> n \<longrightarrow> 2 ^ k dvd p)"

definition malloc_law :: "'h c_alloc \<Rightarrow> nat \<Rightarrow> bool" where
  "malloc_law C min_align \<longleftrightarrow> (\<forall>h n p h'. c_malloc C h n = (p, h') \<longrightarrow>
     adds_block C h p h' (suits min_align n p) (\<lambda>bs. length bs = n))"

definition calloc_law :: "'h c_alloc \<Rightarrow> nat \<Rightarrow> bool" where
  "calloc_law C min_align \<longleftrightarrow> (\<forall>h n m p h'. c_calloc C h n m = (p, h') \<longrightarrow>
     adds_block C h p h' (suits min_align (n * m) p) (\<lambda>bs. bs = replicate (n * m) 0))"

definition memalign_law :: "'h c_alloc \<Rightarrow> bool" where
  "memalign_law C \<longleftrightarrow> (\<forall>h k n r h'. c_memalign C h (2 ^ k) n = (r, h') \<longrightarrow> 3 \<le> k \<longrightarrow>
     (case r of
        Inl _ \<Rightarrow> block C h' = block C h
      | Inr p \<Rightarrow> adds_block C h p h' (2 ^ k dvd p) (\<lambda>bs. length bs = n)))"

text \<open>\<open>realloc\<close> to a size other than 0; to 0 it may free the block and answer null, which the crate never asks
  for, as it calls it only with sizes no smaller than the alignment.\<close>

definition realloc_law :: "'h c_alloc \<Rightarrow> nat \<Rightarrow> bool" where
  "realloc_law C min_align \<longleftrightarrow> (\<forall>h p n bs q h'. block C h p = Some bs \<longrightarrow> 0 < n \<longrightarrow> c_realloc C h p n = (q, h') \<longrightarrow>
     (if q = 0 then block C h' = block C h
      else (q = p \<or> block C h q = None) \<and> suits min_align n q
        \<and> (\<exists>bs'. length bs' = n \<and> take (min (length bs) n) bs' = take (min (length bs) n) bs
             \<and> block C h' = (block C h)(p := None, q \<mapsto> bs'))))"

definition free_law :: "'h c_alloc \<Rightarrow> bool" where
  "free_law C \<longleftrightarrow> (\<forall>h p. block C (c_free C h p) = (block C h)(p := None))"

definition write_law :: "'h c_alloc \<Rightarrow> bool" where
  "write_law C \<longleftrightarrow> (\<forall>h p bs ds. block C h p = Some bs \<longrightarrow> length ds \<le> length bs \<longrightarrow>
     block C (c_write C h p ds) = (block C h)(p \<mapsto> ds @ drop (length ds) bs))"

definition allocator_laws :: "'h c_alloc \<Rightarrow> nat \<Rightarrow> bool" where
  "allocator_laws C min_align \<longleftrightarrow> malloc_law C min_align \<and> calloc_law C min_align \<and> memalign_law C
     \<and> realloc_law C min_align \<and> free_law C \<and> write_law C"

lemma memalignD:
  "memalign_law C \<Longrightarrow> c_memalign C h (2 ^ k) n = (Inr p, h') \<Longrightarrow> 3 \<le> k \<Longrightarrow>
     adds_block C h p h' (2 ^ k dvd p) (\<lambda>bs. length bs = n)"
  "memalign_law C \<Longrightarrow> c_memalign C h (2 ^ k) n = (Inl e, h') \<Longrightarrow> 3 \<le> k \<Longrightarrow> block C h' = block C h"
  unfolding memalign_law_def by fastforce+

section \<open>The allocator\<close>

record layout =
  ly_size :: nat
  ly_align :: nat

text \<open>\<open>apple\<close> is the target's vendor; \<open>size_of::<usize>()\<close> is 8.\<close>

definition aligned_malloc :: "'h c_alloc \<Rightarrow> bool \<Rightarrow> 'h \<Rightarrow> layout \<Rightarrow> nat \<times> 'h" where
  "aligned_malloc C apple h l =
     (if apple \<and> ly_align l > 2 ^ 31 then (0, h)
      else
        (let align = max (ly_align l) 8 in
         case c_memalign C h align (ly_size l) of
           (Inl _, h') \<Rightarrow> (0, h')
         | (Inr out, h') \<Rightarrow> (out, h')))"

definition heap_alloc :: "'h c_alloc \<Rightarrow> nat \<Rightarrow> bool \<Rightarrow> 'h \<Rightarrow> layout \<Rightarrow> nat \<times> 'h" where
  "heap_alloc C MIN_ALIGN apple h l =
     (if ly_align l \<le> MIN_ALIGN \<and> ly_align l \<le> ly_size l then c_malloc C h (ly_size l)
      else aligned_malloc C apple h l)"

definition heap_alloc_zeroed :: "'h c_alloc \<Rightarrow> nat \<Rightarrow> bool \<Rightarrow> 'h \<Rightarrow> layout \<Rightarrow> nat \<times> 'h" where
  "heap_alloc_zeroed C MIN_ALIGN apple h l =
     (if ly_align l \<le> MIN_ALIGN \<and> ly_align l \<le> ly_size l then c_calloc C h (ly_size l) 1
      else
        (let (p, h') = heap_alloc C MIN_ALIGN apple h l in
         if p \<noteq> 0 then (p, c_write C h' p (replicate (ly_size l) 0)) else (p, h')))"

definition heap_dealloc :: "'h c_alloc \<Rightarrow> 'h \<Rightarrow> nat \<Rightarrow> 'h" where
  "heap_dealloc C h p = c_free C h p"

definition heap_realloc :: "'h c_alloc \<Rightarrow> nat \<Rightarrow> bool \<Rightarrow> 'h \<Rightarrow> nat \<Rightarrow> layout \<Rightarrow> nat \<Rightarrow> nat \<times> 'h" where
  "heap_realloc C MIN_ALIGN apple h p l new_size =
     (if ly_align l \<le> MIN_ALIGN \<and> ly_align l \<le> new_size then c_realloc C h p new_size
      else
        (let (q, h') = heap_alloc C MIN_ALIGN apple h \<lparr>ly_size = new_size, ly_align = ly_align l\<rparr> in
         if q \<noteq> 0
         then (q, heap_dealloc C
                 (c_write C h' q (take (min (ly_size l) new_size) (the (block C h' p)))) p)
         else (q, h')))"

section \<open>Facts\<close>

lemma max_power: "max ((2 :: nat) ^ k) 8 = 2 ^ max k 3"
proof (cases "k \<le> 3")
  case True
  then have "(2 :: nat) ^ k \<le> 2 ^ 3" by (rule power_increasing) simp
  with True show ?thesis by (simp add: max_def)
next
  case False
  then have "(2 :: nat) ^ 3 \<le> 2 ^ k" by (intro power_increasing) simp_all
  with False show ?thesis by (auto simp: max_def)
qed

lemma heap_alloc_adds:
  assumes "allocator_laws C ma" "ly_align l = 2 ^ k" "heap_alloc C ma apple h l = (p, h')"
  shows "adds_block C h p h' (ly_align l dvd p) (\<lambda>bs. length bs = ly_size l)"
proof (cases "ly_align l \<le> ma \<and> ly_align l \<le> ly_size l")
  case True
  then have "adds_block C h p h' (suits ma (ly_size l) p) (\<lambda>bs. length bs = ly_size l)"
    using assms(1,3) by (simp add: heap_alloc_def allocator_laws_def malloc_law_def)
  with True assms(2) show ?thesis by (auto simp: adds_block_def suits_def)
next
  case False
  show ?thesis
  proof (cases "apple \<and> ly_align l > 2 ^ 31")
    case True
    with False assms(3) show ?thesis
      by (auto simp: heap_alloc_def aligned_malloc_def adds_block_def)
  next
    case no: False
    have dvd: "2 ^ max k 3 dvd q \<Longrightarrow> ly_align l dvd q" for q
      using assms(2) le_imp_power_dvd [of k "max k 3" "2 :: nat"] by (auto intro: dvd_trans)
    have law: "memalign_law C" using assms(1) by (simp add: allocator_laws_def)
    obtain r h1 where r: "c_memalign C h (2 ^ max k 3) (ly_size l) = (r, h1)" by fastforce
    with assms(2,3) False no have "h' = h1 \<and> p = (case r of Inl _ \<Rightarrow> 0 | Inr q \<Rightarrow> q)"
      using max_power [of k]
      by (auto simp: heap_alloc_def aligned_malloc_def Let_def split: sum.splits)
    with r law show ?thesis
      using memalignD(1) [OF law, of h "max k 3" "ly_size l" p h1]
        memalignD(2) [OF law, of h "max k 3" "ly_size l" _ h1] dvd [of p]
      by (cases r) (auto simp: adds_block_def split: if_splits)
  qed
qed

lemma heap_alloc_zeroed_adds:
  assumes "allocator_laws C ma" "ly_align l = 2 ^ k" "heap_alloc_zeroed C ma apple h l = (p, h')"
  shows "adds_block C h p h' (ly_align l dvd p) (\<lambda>bs. bs = replicate (ly_size l) 0)"
proof (cases "ly_align l \<le> ma \<and> ly_align l \<le> ly_size l")
  case True
  then have "adds_block C h p h' (suits ma (ly_size l) p) (\<lambda>bs. bs = replicate (ly_size l) 0)"
    using assms(1,3) unfolding heap_alloc_zeroed_def allocator_laws_def calloc_law_def
    by (metis mult.right_neutral)
  with True assms(2) show ?thesis by (auto simp: adds_block_def suits_def)
next
  case False
  obtain q h1 where q: "heap_alloc C ma apple h l = (q, h1)" by fastforce
  note a = heap_alloc_adds [OF assms(1,2) q]
  have w: "write_law C" using assms(1) by (simp add: allocator_laws_def)
  show ?thesis
  proof (cases "q = 0")
    case True
    with a q False assms(3) show ?thesis by (auto simp: heap_alloc_zeroed_def adds_block_def)
  next
    case nz: False
    with a obtain bs where bs: "length bs = ly_size l" "block C h1 = (block C h)(q \<mapsto> bs)"
      "block C h q = None" "ly_align l dvd q"
      by (auto simp: adds_block_def)
    then have "block C (c_write C h1 q (replicate (ly_size l) 0)) = (block C h)(q \<mapsto> replicate (ly_size l) 0)"
      using w by (simp add: write_law_def)
    moreover have "p = q" "h' = c_write C h1 q (replicate (ly_size l) 0)"
      using nz q False assms(3) by (auto simp: heap_alloc_zeroed_def)
    ultimately show ?thesis using nz bs by (simp add: adds_block_def)
  qed
qed

lemma heap_realloc_moves:
  assumes "allocator_laws C ma" "ly_align l = 2 ^ k" "p \<noteq> 0"
    and "block C h p = Some bs" "length bs = ly_size l"
    and "heap_realloc C ma apple h p l n = (q, h')"
  shows "if q = 0 then block C h' = block C h
    else (q = p \<or> block C h q = None) \<and> ly_align l dvd q
      \<and> (\<exists>bs'. length bs' = n \<and> take (min (ly_size l) n) bs' = take (min (ly_size l) n) bs
           \<and> block C h' = (block C h)(p := None, q \<mapsto> bs'))"
proof (cases "ly_align l \<le> ma \<and> ly_align l \<le> n")
  case True
  with assms have "c_realloc C h p n = (q, h')" "realloc_law C ma"
    by (simp_all add: heap_realloc_def allocator_laws_def)
  moreover have "0 < n" using True assms(2) by (cases n) simp_all
  ultimately have r: "if q = 0 then block C h' = block C h
      else (q = p \<or> block C h q = None) \<and> suits ma n q
        \<and> (\<exists>bs'. length bs' = n \<and> take (min (length bs) n) bs' = take (min (length bs) n) bs
             \<and> block C h' = (block C h)(p := None, q \<mapsto> bs'))"
    using assms(4) unfolding realloc_law_def by blast
  have "suits ma n q \<Longrightarrow> ly_align l dvd q" using True assms(2) by (auto simp: suits_def)
  with r assms(5) show ?thesis by (auto split: if_splits)
next
  case False
  obtain r h1 where r: "heap_alloc C ma apple h \<lparr>ly_size = n, ly_align = ly_align l\<rparr> = (r, h1)" by fastforce
  have a: "adds_block C h r h1 (ly_align l dvd r) (\<lambda>bs. length bs = n)"
    using heap_alloc_adds [OF assms(1) _ r, of k] assms(2) by simp
  have w: "write_law C" "free_law C" using assms(1) by (simp_all add: allocator_laws_def)
  show ?thesis
  proof (cases "r = 0")
    case True
    with a r False assms(6) show ?thesis by (auto simp: heap_realloc_def adds_block_def)
  next
    case nz: False
    with a obtain cs where cs: "length cs = n" "block C h1 = (block C h)(r \<mapsto> cs)" "block C h r = None"
      "ly_align l dvd r" by (auto simp: adds_block_def)
    from cs(3) assms(4) have "r \<noteq> p" by auto
    let ?m = "min (ly_size l) n"
    have "q = r" "h' = c_free C (c_write C h1 r (take ?m (the (block C h1 p)))) p"
      using r nz False assms(6) by (auto simp: heap_realloc_def heap_dealloc_def)
    moreover have "block C (c_free C (c_write C h1 r (take ?m (the (block C h1 p)))) p)
        = (block C h)(p := None, r \<mapsto> take ?m bs @ drop ?m cs)"
      using w cs assms(4,5) \<open>r \<noteq> p\<close> by (simp add: write_law_def free_law_def fun_upd_twist)
    moreover have "length (take ?m bs @ drop ?m cs) = n" using cs(1) assms(5) by simp
    moreover have "take ?m (take ?m bs @ drop ?m cs) = take ?m bs" using assms(5) by simp
    ultimately show ?thesis using nz cs(3,4)
      by (auto intro!: exI [of _ "take ?m bs @ drop ?m cs"])
  qed
qed

section \<open>An allocator that keeps the promises\<close>

text \<open>Live blocks in a list; a new one starts above the sum of all addresses, suitably aligned.\<close>

type_synonym list_heap = "(nat \<times> bytes) list"

definition above :: "nat \<Rightarrow> list_heap \<Rightarrow> nat" where
  "above a h = a * (1 + sum_list (map fst h))"

definition list_alloc :: "list_heap c_alloc" where
  "list_alloc =
     \<lparr>block = map_of,
      c_malloc = (\<lambda>h n. (above 16 h, (above 16 h, replicate n 255) # h)),
      c_calloc = (\<lambda>h n m. (above 16 h, (above 16 h, replicate (n * m) 0) # h)),
      c_realloc = (\<lambda>h p n. let bs = the (map_of h p); q = above 16 h in
         (q, (q, take n bs @ replicate (n - length bs) 255) # filter (\<lambda>(x, _). x \<noteq> p) h)),
      c_memalign = (\<lambda>h a n. (Inr (above a h), (above a h, replicate n 255) # h)),
      c_free = (\<lambda>h p. filter (\<lambda>(x, _). x \<noteq> p) h),
      c_write = (\<lambda>h p ds. (p, ds @ drop (length ds) (the (map_of h p))) # h)\<rparr>"

lemma above_fresh: "0 < a \<Longrightarrow> map_of h (above a h) = None"
proof -
  assume "0 < a"
  have "p \<le> sum_list (map fst h)" if "(p, bs) \<in> set h" for p bs
    by (rule member_le_sum_list) (use that in \<open>force+\<close>)
  moreover have "sum_list (map fst h) < above a h" using \<open>0 < a\<close> by (cases a) (auto simp: above_def)
  ultimately show ?thesis by (metis leD map_of_SomeD not_None_eq)
qed

lemma map_of_without: "map_of (filter (\<lambda>(x, _). x \<noteq> p) h) = (map_of h)(p := None)"
  by (induction h) (auto simp: fun_eq_iff)

lemma list_alloc_laws: "allocator_laws list_alloc 16"
proof -
  have s: "suits 16 n (above 16 h)" for n h
  proof -
    have "(2 :: nat) ^ k dvd 16" if "(2 :: nat) ^ k \<le> 16" for k
    proof -
      from that have "(2 :: nat) ^ k \<le> 2 ^ 4" by simp
      then have "k \<le> 4" by (rule power_le_imp_le_exp [rotated]) simp
      then have "(2 :: nat) ^ k dvd 2 ^ 4" by (rule le_imp_power_dvd)
      then show ?thesis by simp
    qed
    then show ?thesis by (auto simp: suits_def above_def intro: dvd_mult2)
  qed
  have f: "map_of h (above 16 h) = None" "above 16 h \<noteq> 0" for h
    using above_fresh [of 16] by (simp_all add: above_def)
  have "malloc_law list_alloc 16" "calloc_law list_alloc 16"
    by (auto simp: malloc_law_def calloc_law_def adds_block_def list_alloc_def s f
        intro: exI [of _ "replicate _ _"])
  moreover have "memalign_law list_alloc"
  proof -
    have a: "above (2 ^ k) h \<noteq> 0" "2 ^ k dvd above (2 ^ k) h" for k h by (simp_all add: above_def)
    show ?thesis
      by (auto simp: memalign_law_def adds_block_def list_alloc_def above_fresh a
          intro: exI [of _ "replicate _ _"])
  qed
  moreover have "realloc_law list_alloc 16"
  proof -
    have "\<exists>bs'. length bs' = n \<and> take (min (length bs) n) bs' = take (min (length bs) n) bs
        \<and> (map_of h)(p := None, above 16 h \<mapsto> take n bs @ replicate (n - length bs) 255)
          = (map_of h)(p := None, above 16 h \<mapsto> bs')" for n h p and bs :: bytes
      by (intro exI [of _ "take n bs @ replicate (n - length bs) 255"]) simp
    then show ?thesis
      by (simp add: realloc_law_def list_alloc_def Let_def map_of_without s f)
  qed
  moreover have "free_law list_alloc" "write_law list_alloc"
    by (auto simp: free_law_def write_law_def list_alloc_def map_of_without)
  ultimately show ?thesis by (simp add: allocator_laws_def)
qed

section \<open>Properties\<close>

text \<open>C30 (functional). \<open>alloc\<close> and \<open>alloc_zeroed\<close> meet \<open>GlobalAlloc\<close>'s contract for every layout: the block
  is new, has the layout's size and alignment (whichever C function served it) and, zeroed, holds
  zeros; a null pointer means nothing was allocated; no other block changes.\<close>

theorem alloc_meets_layout:
  assumes "allocator_laws C min_align" "ly_align l = 2 ^ k"
    and "heap_alloc C min_align apple h l = (p, h')"
    and "heap_alloc_zeroed C min_align apple h l = (z, h'')"
  shows "adds_block C h p h' (ly_align l dvd p) (\<lambda>bs. length bs = ly_size l)
    \<and> adds_block C h z h'' (ly_align l dvd z) (\<lambda>bs. bs = replicate (ly_size l) 0)"
  using heap_alloc_adds [OF assms(1-3)] heap_alloc_zeroed_adds [OF assms(1,2,4)] by simp

theorem alloc_meets_layout_witness:
  "64 dvd fst (heap_alloc list_alloc 16 False [(32, [1])] \<lparr>ly_size = 3, ly_align = 64\<rparr>)"
proof -
  let ?l = "\<lparr>ly_size = 3, ly_align = 64\<rparr> :: layout"
  obtain p h' z h'' where r: "heap_alloc list_alloc 16 False [(32, [1])] ?l = (p, h')"
    "heap_alloc_zeroed list_alloc 16 False [(32, [1])] ?l = (z, h'')" by fastforce
  have p: "p \<noteq> 0"
    using r(1) by (auto simp: heap_alloc_def aligned_malloc_def list_alloc_def above_def Let_def)
  have "ly_align ?l = 2 ^ 6" by simp
  from alloc_meets_layout [OF list_alloc_laws this r] p r show ?thesis by (simp add: adds_block_def)
qed

text \<open>C29 (functional). \<open>realloc\<close> gives a block of the new size with the layout's alignment that starts
  with what the old one held, as much as fits, and frees the old one; when it fails the old block is
  as it was. Other blocks never change.\<close>

theorem realloc_keeps_contents:
  assumes "allocator_laws C min_align" "ly_align l = 2 ^ k" "p \<noteq> 0"
    and "block C h p = Some bs" "length bs = ly_size l"
    and "heap_realloc C min_align apple h p l n = (q, h')"
  shows "if q = 0 then block C h' = block C h
    else (q = p \<or> block C h q = None) \<and> ly_align l dvd q
      \<and> (\<exists>bs'. length bs' = n \<and> take (min (ly_size l) n) bs' = take (min (ly_size l) n) bs
           \<and> block C h' = (block C h)(p := None, q \<mapsto> bs'))"
  by (rule heap_realloc_moves [OF assms])

theorem realloc_keeps_contents_witness:
  "\<exists>bs'. length bs' = 2
     \<and> block list_alloc (snd (heap_realloc list_alloc 16 False [(64, [7, 8, 9])] 64 \<lparr>ly_size = 3, ly_align = 64\<rparr> 2))
         (fst (heap_realloc list_alloc 16 False [(64, [7, 8, 9])] 64 \<lparr>ly_size = 3, ly_align = 64\<rparr> 2)) = Some bs'
     \<and> take 2 bs' = [7, 8]"
proof -
  let ?l = "\<lparr>ly_size = 3, ly_align = 64\<rparr> :: layout"
  obtain q h' where r: "heap_realloc list_alloc 16 False [(64, [7, 8, 9])] 64 ?l 2 = (q, h')" by fastforce
  have q: "q \<noteq> 0"
    using r by (auto simp: heap_realloc_def heap_alloc_def aligned_malloc_def list_alloc_def above_def Let_def)
  have "ly_align ?l = 2 ^ 6" "(64 :: nat) \<noteq> 0" "block list_alloc [(64, [7, 8, 9])] 64 = Some [7, 8, 9]"
    "length [7, 8, 9 :: u8] = ly_size ?l" by (simp_all add: list_alloc_def)
  from realloc_keeps_contents [OF list_alloc_laws this r] q r show ?thesis by auto
qed

end
