(* ===== verification/Cpu.thy ===== *)
theory Cpu
  imports Prelude
begin

unbundle bit_operations_syntax

text \<open>
  \<open>src/cpu.rs\<close>: feature detection. The \<open>CPUID\<close> instruction (a leaf and sub-leaf to the four
  registers), \<open>XGETBV\<close>, the auxiliary vector and \<open>sysctlbyname\<close> are parameters. \<open>XGETBV\<close> faults
  unless the system has enabled it, so it is partial: \<open>None\<close> is the fault, and a detection that runs
  into it is \<open>None\<close>.
\<close>

definition bit32 :: "32 word \<Rightarrow> nat \<Rightarrow> bool" where
  "bit32 w n = (w AND push_bit n 1 \<noteq> 0)"

definition bit64 :: "64 word \<Rightarrow> nat \<Rightarrow> bool" where
  "bit64 w n = (w AND push_bit n 1 \<noteq> 0)"

section \<open>x86-64\<close>

record cpuid_result =
  eax :: "32 word"
  ebx :: "32 word"
  ecx :: "32 word"
  edx :: "32 word"

record x86_features =
  sse2 :: bool
  cmpxchg16b :: bool
  sse3 :: bool
  ssse3 :: bool
  sse41 :: bool
  sse42 :: bool
  popcnt :: bool
  avx :: bool
  avx2 :: bool
  fma :: bool
  avx_vnni :: bool
  avx512vnni :: bool
  bmi1 :: bool
  bmi2 :: bool
  avx512bitalg :: bool
  avx512dq :: bool
  avx512f :: bool
  avx512vl :: bool
  avx512vbmi :: bool
  lzcnt :: bool

definition x86_default :: x86_features where
  "x86_default =
     \<lparr>sse2 = False, cmpxchg16b = False, sse3 = False, ssse3 = False, sse41 = False, sse42 = False,
      popcnt = False, avx = False, avx2 = False, fma = False, avx_vnni = False, avx512vnni = False,
      bmi1 = False, bmi2 = False, avx512bitalg = False, avx512dq = False, avx512f = False,
      avx512vl = False, avx512vbmi = False, lzcnt = False\<rparr>"

definition detect_x86 :: "(32 word \<Rightarrow> 32 word \<Rightarrow> cpuid_result) \<Rightarrow> 64 word option \<Rightarrow> x86_features option" where
  "detect_x86 cpuid xgetbv =
     (let max_leaf = eax (cpuid 0 0) in
      if max_leaf < 1 then Some x86_default
      else
        let info_ecx = ecx (cpuid 1 0);
            info_edx = edx (cpuid 1 0);
            (ext_ebx, ext_ecx, ext_eax_1) =
              (if max_leaf \<ge> 7 then (ebx (cpuid 7 0), ecx (cpuid 7 0), eax (cpuid 7 1)) else (0, 0, 0));
            max_ext_leaf = eax (cpuid 0x80000000 0);
            ext_info_ecx = (if max_ext_leaf \<ge> 0x80000001 then ecx (cpuid 0x80000001 0) else 0);
            f = x86_default
                  \<lparr>sse3 := bit32 info_ecx 0,
                   ssse3 := bit32 info_ecx 9,
                   cmpxchg16b := bit32 info_ecx 13,
                   sse41 := bit32 info_ecx 19,
                   sse42 := bit32 info_ecx 20,
                   popcnt := bit32 info_ecx 23,
                   sse2 := bit32 info_edx 26,
                   bmi1 := bit32 ext_ebx 3,
                   bmi2 := bit32 ext_ebx 8,
                   lzcnt := bit32 ext_info_ecx 5\<rparr>;
            f16c = bit32 info_ecx 29;
            xsave = bit32 info_ecx 26;
            osxsave = bit32 info_ecx 27
        in
          if \<not> (xsave \<and> osxsave) then Some f
          else
            (case xgetbv of
               None \<Rightarrow> None
             | Some xcr0 \<Rightarrow>
                 let os_avx = (xcr0 AND 6 = 6);
                     os_avx512 = (xcr0 AND 0xe0 = 0xe0)
                 in
                   if \<not> os_avx then Some f
                   else
                     let f = f\<lparr>fma := bit32 info_ecx 12,
                               avx := bit32 info_ecx 28,
                               avx2 := bit32 ext_ebx 5,
                               avx_vnni := bit32 ext_eax_1 4\<rparr>
                     in
                       if os_avx512 \<and> f16c \<and> fma f
                       then Some (f\<lparr>avx512f := bit32 ext_ebx 16,
                                    avx512dq := bit32 ext_ebx 17,
                                    avx512vl := bit32 ext_ebx 31,
                                    avx512vbmi := bit32 ext_ecx 1,
                                    avx512vnni := bit32 ext_ecx 11,
                                    avx512bitalg := bit32 ext_ecx 12\<rparr>)
                       else Some f))"

section \<open>aarch64\<close>

record aarch64_features =
  lse :: bool
  pauth :: bool
  fp16 :: bool
  dotprod :: bool
  i8mm :: bool
  bti :: bool

text \<open>\<open>sysctlbyname\<close>: its return value and what it left in the 4-byte buffer, initially zero.\<close>

definition sysctl_flag :: "(bytes \<Rightarrow> int \<times> 32 word) \<Rightarrow> bytes \<Rightarrow> bool" where
  "sysctl_flag sysctl name = (let (ok, enabled) = sysctl name in ok = 0 \<and> enabled \<noteq> 0)"

definition detect_aarch64_darwin :: "(bytes \<Rightarrow> int \<times> 32 word) \<Rightarrow> aarch64_features" where
  "detect_aarch64_darwin sysctl =
     \<lparr>lse = sysctl_flag sysctl (bstr ''hw.optional.arm.FEAT_LSE''),
      pauth = sysctl_flag sysctl (bstr ''hw.optional.arm.FEAT_PAuth''),
      fp16 = sysctl_flag sysctl (bstr ''hw.optional.arm.FEAT_FP16''),
      dotprod = sysctl_flag sysctl (bstr ''hw.optional.arm.FEAT_DotProd''),
      i8mm = sysctl_flag sysctl (bstr ''hw.optional.arm.FEAT_I8MM''),
      bti = sysctl_flag sysctl (bstr ''hw.optional.arm.FEAT_BTI'')\<rparr>"

definition detect_aarch64_linux :: "(64 word \<Rightarrow> 64 word) \<Rightarrow> aarch64_features" where
  "detect_aarch64_linux getauxval =
     (let hwcap = getauxval 16;
          hwcap2 = getauxval 26
      in \<lparr>lse = bit64 hwcap 8,
          pauth = bit64 hwcap 30,
          fp16 = (bit64 hwcap 0 \<and> bit64 hwcap 9),
          dotprod = bit64 hwcap 20,
          i8mm = bit64 hwcap2 13,
          bti = bit64 hwcap2 17\<rparr>)"

definition detect_aarch64_other :: aarch64_features where
  "detect_aarch64_other =
     \<lparr>lse = False, pauth = False, fp16 = False, dotprod = False, i8mm = False, bti = False\<rparr>"

section \<open>Facts\<close>

lemma bit32_bit: "n < 32 \<Longrightarrow> bit32 w n = bit w n"
  by (simp add: bit32_def and_exp_eq_0_iff_not_bit)

lemma bit64_bit: "n < 64 \<Longrightarrow> bit64 w n = bit w n"
  by (simp add: bit64_def and_exp_eq_0_iff_not_bit)

text \<open>The features that need the wide registers saved, and those that need all of AVX-512's.\<close>

text \<open>What the processor and the system must grant before the wide registers may be used: the first leaf
  with its \<open>XSAVE\<close> (26) and \<open>OSXSAVE\<close> (27) bits, and bits 1 and 2 of \<open>XCR0\<close>; for those of AVX-512 also bits 5 to 7,
  and, as the code asks, \<open>F16C\<close> (29) and \<open>FMA\<close> (12).\<close>

definition wide_granted :: "(32 word \<Rightarrow> 32 word \<Rightarrow> cpuid_result) \<Rightarrow> 64 word option \<Rightarrow> bool" where
  "wide_granted cpuid xgetbv \<longleftrightarrow>
     1 \<le> eax (cpuid 0 0) \<and> bit (ecx (cpuid 1 0)) 26 \<and> bit (ecx (cpuid 1 0)) 27
     \<and> (case xgetbv of None \<Rightarrow> False | Some x \<Rightarrow> bit x 1 \<and> bit x 2)"

definition wider_granted :: "(32 word \<Rightarrow> 32 word \<Rightarrow> cpuid_result) \<Rightarrow> 64 word option \<Rightarrow> bool" where
  "wider_granted cpuid xgetbv \<longleftrightarrow>
     wide_granted cpuid xgetbv \<and> (case xgetbv of None \<Rightarrow> False | Some x \<Rightarrow> bit x 5 \<and> bit x 6 \<and> bit x 7)
     \<and> bit (ecx (cpuid 1 0)) 29 \<and> bit (ecx (cpuid 1 0)) 12"

definition seventh_leaf :: "(32 word \<Rightarrow> 32 word \<Rightarrow> cpuid_result) \<Rightarrow> bool" where
  "seventh_leaf cpuid \<longleftrightarrow> 7 \<le> eax (cpuid 0 0)"

lemma mask_bits:
  fixes x m :: "64 word"
  shows "x AND m = m \<longleftrightarrow> (\<forall>n. bit m n \<longrightarrow> bit x n)"
proof
  assume "\<forall>n. bit m n \<longrightarrow> bit x n"
  then show "x AND m = m" by (intro bit_word_eqI) (auto simp: bit_and_iff)
next
  assume "x AND m = m"
  then show "\<forall>n. bit m n \<longrightarrow> bit x n" by (metis bit_and_iff)
qed

lemma avx_state: "x AND 6 = 6 \<longleftrightarrow> bit x 1 \<and> bit x 2" for x :: "64 word"
proof -
  have m: "(6 :: 64 word) = push_bit 1 1 OR push_bit 2 1" by code_simp
  have b: "bit (6 :: 64 word) n \<longleftrightarrow> n = 1 \<or> n = 2" for n
    unfolding m bit_or_iff bit_push_bit_iff bit_1_iff by auto
  show ?thesis unfolding mask_bits b by auto
qed

lemma avx512_state: "x AND 0xe0 = 0xe0 \<longleftrightarrow> bit x 5 \<and> bit x 6 \<and> bit x 7" for x :: "64 word"
proof -
  have m: "(0xe0 :: 64 word) = push_bit 5 1 OR (push_bit 6 1 OR push_bit 7 1)" by code_simp
  have b: "bit (0xe0 :: 64 word) n \<longleftrightarrow> n = 5 \<or> n = 6 \<or> n = 7" for n
    unfolding m bit_or_iff bit_push_bit_iff bit_1_iff by auto
  show ?thesis unfolding mask_bits b by auto
qed

lemmas granted = wide_granted_def wider_granted_def seventh_leaf_def

lemmas detection = detect_x86_def x86_default_def avx_state avx512_state Let_def bit32_bit granted

section \<open>Properties\<close>

text \<open>C31 (functional). \<open>XGETBV\<close> is executed only where the processor reports that the system has enabled it,
  so detection never faults; and each feature on the wide registers is reported exactly when the
  processor has it, by the feature's own bit in a leaf that is there, and what it needs is granted.\<close>

theorem detection_is_gated:
  assumes "bit (ecx (cpuid 1 0)) 27 \<longrightarrow> xgetbv \<noteq> None"
  shows "\<exists>f. detect_x86 cpuid xgetbv = Some f
    \<and> (avx f \<longleftrightarrow> wide_granted cpuid xgetbv \<and> bit (ecx (cpuid 1 0)) 28)
    \<and> (fma f \<longleftrightarrow> wide_granted cpuid xgetbv \<and> bit (ecx (cpuid 1 0)) 12)
    \<and> (avx2 f \<longleftrightarrow> wide_granted cpuid xgetbv \<and> seventh_leaf cpuid \<and> bit (ebx (cpuid 7 0)) 5)
    \<and> (avx_vnni f \<longleftrightarrow> wide_granted cpuid xgetbv \<and> seventh_leaf cpuid \<and> bit (eax (cpuid 7 1)) 4)
    \<and> (avx512f f \<longleftrightarrow> wider_granted cpuid xgetbv \<and> seventh_leaf cpuid \<and> bit (ebx (cpuid 7 0)) 16)
    \<and> (avx512dq f \<longleftrightarrow> wider_granted cpuid xgetbv \<and> seventh_leaf cpuid \<and> bit (ebx (cpuid 7 0)) 17)
    \<and> (avx512vl f \<longleftrightarrow> wider_granted cpuid xgetbv \<and> seventh_leaf cpuid \<and> bit (ebx (cpuid 7 0)) 31)
    \<and> (avx512vbmi f \<longleftrightarrow> wider_granted cpuid xgetbv \<and> seventh_leaf cpuid \<and> bit (ecx (cpuid 7 0)) 1)
    \<and> (avx512vnni f \<longleftrightarrow> wider_granted cpuid xgetbv \<and> seventh_leaf cpuid \<and> bit (ecx (cpuid 7 0)) 11)
    \<and> (avx512bitalg f \<longleftrightarrow> wider_granted cpuid xgetbv \<and> seventh_leaf cpuid \<and> bit (ecx (cpuid 7 0)) 12)"
proof (cases "1 \<le> eax (cpuid 0 0) \<and> bit (ecx (cpuid 1 0)) 26 \<and> bit (ecx (cpuid 1 0)) 27")
  case False
  then show ?thesis by (auto simp: detection not_less not_le)
next
  case True
  with assms obtain x where x: "xgetbv = Some x" by auto
  show ?thesis
  proof (cases "7 \<le> eax (cpuid 0 0)")
    case seven: True
    show ?thesis using True x seven by (auto simp: detection)
  next
    case False
    show ?thesis using True x False by (auto simp: detection)
  qed
qed

definition full_cpuid :: "32 word \<Rightarrow> 32 word \<Rightarrow> cpuid_result" where
  "full_cpuid leaf sub = \<lparr>eax = -1, ebx = -1, ecx = -1, edx = -1\<rparr>"

theorem detection_is_gated_witness:
  "\<exists>f. detect_x86 full_cpuid (Some 0xe7) = Some f \<and> avx512f f \<and> fma f"
proof -
  have "seventh_leaf full_cpuid" "wide_granted full_cpuid (Some 0xe7)" "wider_granted full_cpuid (Some 0xe7)"
    by (simp_all add: granted full_cpuid_def bit_numeral_rec)
  moreover have "bit (ebx (full_cpuid 7 0)) 16" "bit (ecx (full_cpuid 1 0)) 12" by (simp_all add: full_cpuid_def)
  ultimately show ?thesis using detection_is_gated [of full_cpuid "Some 0xe7"] by blast
qed

end
