(* ===== verification/Signals.thy ===== *)
theory Signals
  imports Errors
begin

unbundle bit_operations_syntax

text \<open>
  \<open>src/signal.rs\<close>: the handler that writes a signal's number to a pipe, its installation, and the
  reader. The signal numbers and the flag bits are libc's; the pipe is the bytes waiting in it, with
  the capacity the system gives it, and both its ends are non-blocking.
\<close>

section \<open>Signals and their numbers\<close>

datatype signal = Term | Intr | Hup

record signal_numbers =
  SIGTERM :: int
  SIGINT :: int
  SIGHUP :: int

definition number :: "signal_numbers \<Rightarrow> signal \<Rightarrow> int" where
  "number N s = (case s of Term \<Rightarrow> SIGTERM N | Intr \<Rightarrow> SIGINT N | Hup \<Rightarrow> SIGHUP N)"

definition signal_name :: "signal \<Rightarrow> bytes" where
  "signal_name s =
     (case s of Term \<Rightarrow> bstr ''SIGTERM'' | Intr \<Rightarrow> bstr ''SIGINT'' | Hup \<Rightarrow> bstr ''SIGHUP'')"

definition all_signals :: "signal list" where
  "all_signals = [Term, Intr, Hup]"

definition from_number :: "signal_numbers \<Rightarrow> int \<Rightarrow> signal option" where
  "from_number N n = find (\<lambda>s. number N s = n) all_signals"

text \<open>What the C standard and POSIX say of the numbers: positive, different, and small enough for the
  byte the handler writes.\<close>

definition numbers_ok :: "signal_numbers \<Rightarrow> bool" where
  "numbers_ok N \<longleftrightarrow> distinct (map (number N) all_signals) \<and> (\<forall>s \<in> set all_signals. 0 < number N s \<and> number N s < 128)"

definition usual_numbers :: signal_numbers where
  "usual_numbers = \<lparr>SIGTERM = 15, SIGINT = 2, SIGHUP = 1\<rparr>"

section \<open>The handler and the reader\<close>

record signal_state =
  WRITE_END :: int
  sg_pipe :: bytes
  sg_handled :: "int list"

definition note_signal :: "nat \<Rightarrow> signal_state \<Rightarrow> int \<Rightarrow> signal_state" where
  "note_signal capacity st signal =
     (if WRITE_END st < 0 then st
      else if length (sg_pipe st) < capacity then st\<lparr>sg_pipe := sg_pipe st @ [word_of_int signal]\<rparr>
      else st)"

text \<open>\<open>recv\<close>, on what the read answers: an error, or the bytes it took (at most 64).\<close>

fun find_map :: "('a \<Rightarrow> 'b option) \<Rightarrow> 'a list \<Rightarrow> 'b option" where
  "find_map f [] = None"
| "find_map f (x # xs) = (case f x of Some y \<Rightarrow> Some y | None \<Rightarrow> find_map f xs)"

definition recv_answer :: "libc \<Rightarrow> signal_numbers \<Rightarrow> errno + bytes \<Rightarrow> errno + signal option" where
  "recv_answer L N ans =
     (case ans of
        Inl error \<Rightarrow> if would_block L error then Ok None else Err error
      | Inr read \<Rightarrow> Ok (find_map (\<lambda>byte. from_number N (uint byte)) read))"

definition recv :: "libc \<Rightarrow> signal_numbers \<Rightarrow> signal_state \<Rightarrow> (errno + signal option) \<times> signal_state" where
  "recv L N st =
     (recv_answer L N (if sg_pipe st = [] then Inl (EAGAIN L) else Inr (take 64 (sg_pipe st))),
      st\<lparr>sg_pipe := drop 64 (sg_pipe st)\<rparr>)"

section \<open>Installation\<close>

text \<open>What the calls of \<open>install\<close> answer.\<close>

record install_calls =
  ic_pipe :: "errno + int \<times> int"
  ic_getfl :: "int \<Rightarrow> errno + 32 word"
  ic_setfl :: "int \<Rightarrow> 32 word \<Rightarrow> errno option"
  ic_sigaction :: "int \<Rightarrow> errno option"

definition nonblocking :: "32 word \<Rightarrow> install_calls \<Rightarrow> int \<Rightarrow> errno + unit" where
  "nonblocking O_NONBLOCK K fd =
     (case ic_getfl K fd of
        Inl e \<Rightarrow> Err e
      | Inr flags \<Rightarrow> (case ic_setfl K fd (flags OR O_NONBLOCK) of Some e \<Rightarrow> Err e | None \<Rightarrow> Ok ()))"

fun install_loop :: "signal_numbers \<Rightarrow> install_calls \<Rightarrow> signal list \<Rightarrow> signal_state
    \<Rightarrow> (errno + unit) \<times> signal_state" where
  "install_loop N K [] st = (Ok (), st)"
| "install_loop N K (s # ss) st =
     (case ic_sigaction K (number N s) of
        Some e \<Rightarrow> (Err e, st)
      | None \<Rightarrow> install_loop N K ss (st\<lparr>sg_handled := sg_handled st @ [number N s]\<rparr>))"

text \<open>The result is the read end.\<close>

definition install :: "32 word \<Rightarrow> signal_numbers \<Rightarrow> install_calls \<Rightarrow> signal list \<Rightarrow> signal_state
    \<Rightarrow> (errno + int) \<times> signal_state" where
  "install O_NONBLOCK N K signals st =
     (case ic_pipe K of
        Inl e \<Rightarrow> (Err e, st)
      | Inr (read_end, write_end) \<Rightarrow>
          (case nonblocking O_NONBLOCK K read_end of
             Inl e \<Rightarrow> (Err e, st)
           | Inr _ \<Rightarrow>
               (case nonblocking O_NONBLOCK K write_end of
                  Inl e \<Rightarrow> (Err e, st)
                | Inr _ \<Rightarrow>
                    (case install_loop N K signals (st\<lparr>WRITE_END := write_end, sg_pipe := []\<rparr>) of
                       (Inl e, st') \<Rightarrow> (Err e, st')
                     | (Inr _, st') \<Rightarrow> (Ok read_end, st')))))"

section \<open>Facts\<close>

lemma in_all_signals [simp]: "s \<in> set all_signals"
  by (cases s) (simp_all add: all_signals_def)

lemma number_inject: "numbers_ok N \<Longrightarrow> number N s = number N t \<longleftrightarrow> s = t"
  by (cases s; cases t) (auto simp: numbers_ok_def all_signals_def number_def)

lemma from_number_Some: "numbers_ok N \<Longrightarrow> from_number N n = Some s \<longleftrightarrow> n = number N s"
  by (cases s) (auto simp: from_number_def all_signals_def number_inject numbers_ok_def number_def split: if_splits)

lemma byte_number: "numbers_ok N \<Longrightarrow> uint (word_of_int (number N s) :: u8) = number N s"
proof -
  assume "numbers_ok N"
  then have "0 < number N s \<and> number N s < 128" by (simp add: numbers_ok_def)
  then show ?thesis by (simp add: uint_word_of_int)
qed

lemma find_map_first: "f x = Some y \<Longrightarrow> find_map f (x # xs) = Some y"
  by simp

lemma notes_pipe:
  assumes "0 \<le> WRITE_END st"
  shows "sg_pipe (fold (\<lambda>s st. note_signal capacity st (number N s)) ss st)
      = take (max capacity (length (sg_pipe st))) (sg_pipe st @ map (\<lambda>s. word_of_int (number N s)) ss)
    \<and> WRITE_END (fold (\<lambda>s st. note_signal capacity st (number N s)) ss st) = WRITE_END st"
  using assms
proof (induction ss arbitrary: st)
  case (Cons s ss)
  show ?case
  proof (cases "length (sg_pipe st) < capacity")
    case True
    then have "max capacity (Suc (length (sg_pipe st))) = max capacity (length (sg_pipe st))" by simp
    moreover from True have "capacity - length (sg_pipe st) = Suc (capacity - Suc (length (sg_pipe st)))" by simp
    ultimately show ?thesis using True Cons by (simp add: note_signal_def)
  next
    case False
    with Cons.prems have "note_signal capacity st (number N s) = st" by (simp add: note_signal_def)
    with Cons False show ?thesis by simp
  qed
qed simp

lemma install_loop_handled:
  "install_loop N K ss st = (r, st') \<Longrightarrow>
     WRITE_END st' = WRITE_END st \<and> sg_pipe st' = sg_pipe st \<and> (r = Ok () \<longrightarrow> sg_handled st' = sg_handled st @ map (number N) ss)"
  by (induction ss arbitrary: st) (auto split: option.splits)

text \<open>A life of the pipe: the signals that arrive before each of a series of reads, and what the reads report.\<close>

abbreviation arrive :: "signal_numbers \<Rightarrow> nat \<Rightarrow> signal list \<Rightarrow> signal_state \<Rightarrow> signal_state" where
  "arrive N capacity \<equiv> fold (\<lambda>s st. note_signal capacity st (number N s))"

fun reports :: "libc \<Rightarrow> signal_numbers \<Rightarrow> nat \<Rightarrow> signal list list \<Rightarrow> signal_state \<Rightarrow> (errno + signal option) list" where
  "reports L N capacity [] st = []"
| "reports L N capacity (b # bs) st =
     (let (r, st') = recv L N (arrive N capacity b st) in r # reports L N capacity bs st')"

definition first_of :: "'a list \<Rightarrow> 'a option" where
  "first_of xs = (case xs of [] \<Rightarrow> None | x # _ \<Rightarrow> Some x)"

lemma recv_first:
  assumes "numbers_ok N" "0 < capacity" "0 \<le> WRITE_END st" "sg_pipe st = []"
  shows "fst (recv L N (arrive N capacity b st)) = Ok (first_of b)"
    and "length b \<le> 64 \<Longrightarrow> sg_pipe (snd (recv L N (arrive N capacity b st))) = []"
    and "WRITE_END (snd (recv L N (arrive N capacity b st))) = WRITE_END st"
proof -
  have pipe: "sg_pipe (arrive N capacity b st) = take capacity (map (\<lambda>s. word_of_int (number N s)) b)"
    and w: "WRITE_END (arrive N capacity b st) = WRITE_END st"
    using notes_pipe [of st capacity N b] assms(3,4) by simp_all
  have "from_number N (number N s) = Some s" for s using from_number_Some [OF assms(1)] by simp
  with pipe show "fst (recv L N (arrive N capacity b st)) = Ok (first_of b)"
    using assms(1,2) by (cases b; cases capacity)
      (auto simp: recv_def recv_answer_def would_block_def byte_number first_of_def)
  show "sg_pipe (snd (recv L N (arrive N capacity b st))) = []" if "length b \<le> 64"
    using that by (simp add: recv_def pipe)
  show "WRITE_END (snd (recv L N (arrive N capacity b st))) = WRITE_END st" using w by (simp add: recv_def)
qed

lemma reports_first:
  assumes "numbers_ok N" "0 < capacity" "0 \<le> WRITE_END st" "sg_pipe st = []"
    and "\<forall>b \<in> set (butlast bs). length b \<le> 64"
  shows "reports L N capacity bs st = map (\<lambda>b. Ok (first_of b)) bs"
  using assms(3-)
proof (induction bs arbitrary: st)
  case (Cons b bs)
  let ?r = "recv L N (arrive N capacity b st)"
  note R = recv_first [OF assms(1,2) Cons.prems(1,2), where L = L and b = b]
  have "reports L N capacity bs (snd ?r) = map (\<lambda>b. Ok (first_of b)) bs"
  proof (cases "bs = []")
    case False
    with Cons.prems(3) have "length b \<le> 64" "\<forall>b \<in> set (butlast bs). length b \<le> 64" by auto
    with Cons.IH [of "snd ?r"] R(2,3) Cons.prems(1) show ?thesis by simp
  qed simp
  with R(1) show ?case by (simp add: split_beta)
qed simp

lemma installed:
  assumes "install O_NONBLOCK N K signals st = (Ok read_end, st1)" "ic_pipe K = Inr (read_end, write_end)"
  shows "WRITE_END st1 = write_end" "sg_pipe st1 = []" "set (map (number N) signals) \<subseteq> set (sg_handled st1)"
proof -
  from assms have loop: "install_loop N K signals (st\<lparr>WRITE_END := write_end, sg_pipe := []\<rparr>) = (Ok (), st1)"
    by (auto simp: install_def split: sum.splits prod.splits)
  show "WRITE_END st1 = write_end" "sg_pipe st1 = []" "set (map (number N) signals) \<subseteq> set (sg_handled st1)"
    using install_loop_handled [OF loop] by auto
qed

section \<open>Properties\<close>

text \<open>\<open>from_number\<close> inverts \<open>number\<close>, and names no other number.\<close>

theorem signal_numbers_invert:
  assumes "numbers_ok N"
  shows "from_number N n = Some s \<longleftrightarrow> n = number N s"
  using assms by (rule from_number_Some)

lemma usual_numbers_ok: "numbers_ok usual_numbers"
  by (simp add: numbers_ok_def usual_numbers_def all_signals_def number_def)

theorem signal_numbers_invert_witness: "from_number usual_numbers 2 = Some Intr"
  using signal_numbers_invert [OF usual_numbers_ok, of 2 Intr] by (simp add: usual_numbers_def number_def)

text \<open>C35 (functional). After a successful \<open>install\<close> every read reports what arrived since the one before, and
  none blocks: as long as no more than 64 signals arrive between two reads, each of a series of calls of
  \<open>recv\<close> reports the first of the signals that arrived since the last call, and none if there were none;
  a signal is not reported again, however many there were before the last read, and whether or not the pipe overflowed.\<close>

theorem arrived_signal_is_reported:
  assumes "numbers_ok N" "0 < capacity"
    and "install O_NONBLOCK N K signals st = (Ok read_end, st1)"
    and "ic_pipe K = Inr (read_end, write_end)" "0 \<le> write_end"
    and "\<forall>b \<in> set (butlast arrived). length b \<le> 64"
  shows "set (map (number N) signals) \<subseteq> set (sg_handled st1)
    \<and> reports L N capacity arrived st1 = map (\<lambda>b. Ok (first_of b)) arrived"
  using installed [OF assms(3,4)] reports_first [OF assms(1,2) _ _ assms(6), of st1] assms(5) by simp

definition quiet_calls :: install_calls where
  "quiet_calls = \<lparr>ic_pipe = Ok (3, 4), ic_getfl = (\<lambda>_. Ok 0), ic_setfl = (\<lambda>_ _. None),
     ic_sigaction = (\<lambda>_. None)\<rparr>"

text \<open>The witness: two signals, then none, then one, between three reads.\<close>

theorem arrived_signal_is_reported_witness:
  "let st = \<lparr>WRITE_END = -1, sg_pipe = [], sg_handled = []\<rparr>;
       st1 = snd (install 2048 usual_numbers quiet_calls all_signals st)
   in reports linux_libc usual_numbers 65536 [[Hup, Term], [], [Intr]] st1 = [Ok (Some Hup), Ok None, Ok (Some Intr)]"
proof -
  let ?st = "\<lparr>WRITE_END = -1, sg_pipe = [], sg_handled = []\<rparr> :: signal_state"
  have i: "install 2048 usual_numbers quiet_calls all_signals ?st
      = (Ok 3, snd (install 2048 usual_numbers quiet_calls all_signals ?st))"
    by (simp add: install_def quiet_calls_def nonblocking_def all_signals_def)
  have "ic_pipe quiet_calls = Inr (3, 4)" "(0 :: nat) < 65536" "(0 :: int) \<le> 4"
    "\<forall>b \<in> set (butlast [[Hup, Term], [], [Intr]]). length b \<le> 64"
    by (simp_all add: quiet_calls_def)
  from arrived_signal_is_reported [OF usual_numbers_ok this(2) i this(1,3,4), of linux_libc]
  show ?thesis by (simp add: Let_def first_of_def)
qed

text \<open>
  A \<open>recv\<close> takes up to 64 bytes from the pipe and reports the first signal among them; the others it
  took are gone. Of two different signals that arrive before the reader looks, the second is never
  reported, although the pipe is described as a queue.
\<close>

lemma second_signal_is_dropped:
  "let st = \<lparr>WRITE_END = 4, sg_pipe = [], sg_handled = [1, 15]\<rparr>;
       st2 = note_signal 16 (note_signal 16 st 1) 15;
       r = recv linux_libc usual_numbers st2
   in fst r = Ok (Some Hup) \<and> fst (recv linux_libc usual_numbers (snd r)) = Ok None"
  by code_simp

end
