(* ===== verification/Descriptors.thy ===== *)
theory Descriptors
  imports Prelude
begin

text \<open>
  The descriptor table of a process, as the calls of \<open>src/command.rs\<close> and \<open>src/daemonize.rs\<close> change
  it: which open file each descriptor stands for, and whether it is closed across \<open>exec\<close>. The one
  choice the system makes, the number of a new descriptor, is a parameter; POSIX says it is the
  lowest that is free (and at least the one asked for), or that there is none.
\<close>

type_synonym 'f table = "nat \<Rightarrow> ('f \<times> bool) option"

type_synonym 'f chooser = "'f table \<Rightarrow> nat \<Rightarrow> nat option"

definition fd_open :: "'f table \<Rightarrow> nat \<Rightarrow> 'f \<Rightarrow> bool \<Rightarrow> 'f table" where
  "fd_open t fd f cloexec = t(fd \<mapsto> (f, cloexec))"

definition fd_close :: "'f table \<Rightarrow> nat \<Rightarrow> 'f table" where
  "fd_close t fd = t(fd := None)"

text \<open>\<open>dup2\<close> on an open descriptor; the copy is not closed across \<open>exec\<close>, and a descriptor onto itself is
  left as it is.\<close>

definition fd_dup2 :: "'f table \<Rightarrow> nat \<Rightarrow> nat \<Rightarrow> 'f table" where
  "fd_dup2 t old new =
     (if old = new then t
      else (case t old of Some (f, _) \<Rightarrow> t(new \<mapsto> (f, False)) | None \<Rightarrow> t))"

text \<open>What a program finds after \<open>exec\<close>.\<close>

definition fd_exec :: "'f table \<Rightarrow> nat \<Rightarrow> 'f option" where
  "fd_exec t fd = (case t fd of Some (f, False) \<Rightarrow> Some f | _ \<Rightarrow> None)"

definition file_at :: "'f table \<Rightarrow> nat \<Rightarrow> 'f option" where
  "file_at t fd = map_option fst (t fd)"

locale descriptors =
  fixes pick :: "'f chooser"
  assumes pick_free: "pick t least = Some fd \<Longrightarrow> t fd = None"
    and pick_least: "pick t least = Some fd \<Longrightarrow> least \<le> fd"
    and pick_lowest: "pick t least = Some fd \<Longrightarrow> least \<le> k \<Longrightarrow> k < fd \<Longrightarrow> t k \<noteq> None"
begin

text \<open>Two pipes take the four lowest free descriptors, so 0, 1 and 2 are in use afterwards.\<close>

lemma chosen_differs: "pick t least = Some fd \<Longrightarrow> t k = Some x \<Longrightarrow> fd \<noteq> k"
  using pick_free by fastforce

lemma three_opened:
  assumes "pick t 0 = Some a" "pick (fd_open t a f x) 0 = Some b"
    and "pick (fd_open (fd_open t a f x) b g y) 0 = Some c" "k < 3"
  shows "fd_open (fd_open (fd_open t a f x) b g y) c h z k \<noteq> None"
proof (rule ccontr)
  assume "\<not> ?thesis"
  then have n: "t k = None" "k \<noteq> a" "k \<noteq> b" "k \<noteq> c"
    by (cases "t k"; auto simp: fd_open_def split: if_splits)+
  from n(1) have "a < k" using pick_lowest [OF assms(1), of k] n(2) by (meson le0 linorder_neqE_nat)
  moreover have "fd_open t a f x k = None" using n by (simp add: fd_open_def)
  then have "b < k" using pick_lowest [OF assms(2), of k] n(3) by (meson le0 linorder_neqE_nat)
  moreover have "fd_open (fd_open t a f x) b g y k = None" using n by (simp add: fd_open_def)
  then have "c < k" using pick_lowest [OF assms(3), of k] n(4) by (meson le0 linorder_neqE_nat)
  moreover have "b \<noteq> a" using pick_free [OF assms(2)] by (auto simp: fd_open_def)
  moreover have "c \<noteq> a \<and> c \<noteq> b"
    using pick_free [OF assms(3)] by (auto simp: fd_open_def split: if_splits)
  ultimately show False using assms(4) by linarith
qed

end

text \<open>The lowest free descriptor below a limit of 1024.\<close>

definition first_free :: "'f chooser" where
  "first_free t least = find (\<lambda>k. t k = None) [least..<1024]"

interpretation first_free: descriptors first_free
proof unfold_locales
  fix t :: "'f table" and least fd k
  assume "first_free t least = Some fd"
  then obtain i where i: "i < length [least..<1024]" "t ([least..<1024] ! i) = None" "fd = [least..<1024] ! i"
    "\<And>j. j < i \<Longrightarrow> t ([least..<1024] ! j) \<noteq> None"
    by (auto simp: first_free_def find_Some_iff)
  show "t fd = None" "least \<le> fd" using i by simp_all
  assume "least \<le> k" "k < fd"
  then show "t k \<noteq> None" using i(1,3) i(4) [of "k - least"] by simp
qed

end
