(* ===== verification/Spawn.thy ===== *)
theory Spawn
  imports Commands Descriptors
begin

text \<open>
  \<open>Command::spawn\<close> of \<open>src/command.rs\<close>: the two pipes, the child's descriptors from \<open>fork\<close> to
  \<open>execve\<close>, and the parent's. What may fail is decided by the parameters: \<open>pick\<close> gives no
  descriptor when the process has none left, \<open>dup_ok\<close> says whether the \<open>dup2\<close> onto a descriptor
  succeeds, \<open>forked\<close> is the answer of \<open>fork\<close> in the parent.
\<close>

datatype open_file = Null_Device | Lock_File | Read_End nat | Write_End nat | Inherited nat

section \<open>The pipes\<close>

text \<open>\<open>Pipe::new\<close>, for the pipe numbered \<open>n\<close>: both ends closed across \<open>exec\<close>, the read end
  non-blocking (which the reads of the theory Streams assume).\<close>

definition pipe_new :: "open_file chooser \<Rightarrow> nat \<Rightarrow> open_file table \<Rightarrow> (pipe \<times> open_file table) option" where
  "pipe_new pick n t =
     (case pick t 0 of
        None \<Rightarrow> None
      | Some r \<Rightarrow>
          let t1 = fd_open t r (Read_End n) True in
          (case pick t1 0 of
             None \<Rightarrow> None
           | Some w \<Rightarrow>
               Some (\<lparr>pipe_read = int r, pipe_write = int w, pipe_done = False, pipe_got = []\<rparr>,
                     fd_open t1 w (Write_End n) True)))"

section \<open>The child\<close>

text \<open>\<open>above_stdio\<close>: a copy above 2 that is closed across \<open>exec\<close>, or the descriptor itself.\<close>

definition above_stdio :: "open_file chooser \<Rightarrow> open_file table \<Rightarrow> nat \<Rightarrow> (nat \<times> open_file table) option" where
  "above_stdio pick t fd =
     (if 2 < fd then Some (fd, t)
      else
        (case (pick t 3, t fd) of
           (Some n, Some (f, _)) \<Rightarrow> Some (n, fd_open t n f True)
         | _ \<Rightarrow> None))"

text \<open>The child between \<open>fork\<close> and \<open>execve\<close>: its table, or \<open>None\<close> where it exits with 127.\<close>

definition child_setup :: "open_file chooser \<Rightarrow> (nat \<Rightarrow> bool) \<Rightarrow> nat \<Rightarrow> nat \<Rightarrow> open_file table \<Rightarrow> open_file table option" where
  "child_setup pick dup_ok out_write err_write t =
     (case above_stdio pick t out_write of
        None \<Rightarrow> None
      | Some (out_w, t1) \<Rightarrow>
          (case above_stdio pick t1 err_write of
             None \<Rightarrow> None
           | Some (err_w, t2) \<Rightarrow>
               (case pick t2 0 of
                  None \<Rightarrow> None
                | Some null \<Rightarrow>
                    let t3 = fd_open t2 null Null_Device False in
                    if \<not> dup_ok 0 then None
                    else
                      let t4 = fd_close (fd_dup2 t3 null 0) null in
                      if \<not> dup_ok 1 then None
                      else
                        let t5 = fd_dup2 t4 out_w 1 in
                        if \<not> dup_ok 2 then None
                        else Some (fd_dup2 t5 err_w 2))))"

section \<open>The parent\<close>

text \<open>\<open>spawn\<close>: nothing when a pipe, the candidates or the \<open>fork\<close> are missing, with every descriptor it
  opened closed again by the pipes' \<open>Drop\<close>; otherwise the child, and the parent's table with the
  write ends closed. The pipes are numbered 0 (stdout) and 1 (stderr).\<close>

definition close_all :: "int list \<Rightarrow> open_file table \<Rightarrow> open_file table" where
  "close_all fds t = fold (\<lambda>fd t. fd_close t (nat fd)) fds t"

definition spawn :: "open_file chooser \<Rightarrow> bytes list \<Rightarrow> int option \<Rightarrow> open_file table \<Rightarrow> child option \<times> open_file table" where
  "spawn pick tries forked t =
     (case pipe_new pick 0 t of
        None \<Rightarrow> (None, t)
      | Some (out, t1) \<Rightarrow>
          (case pipe_new pick 1 t1 of
             None \<Rightarrow> (None, close_all (drop_pipe out) t1)
           | Some (errp, t2) \<Rightarrow>
               (case (tries, forked) of
                  (_ # _, Some pid) \<Rightarrow>
                    let (fds, out') = close_write out;
                        (fds', errp') = close_write errp
                    in (Some \<lparr>ch_pid = pid, ch_out = out', ch_err = errp', ch_status = None\<rparr>,
                        close_all (fds @ fds') t2)
                | _ \<Rightarrow> (None, close_all (drop_pipe errp @ drop_pipe out) t2))))"

section \<open>Facts\<close>

definition inherited_only :: "open_file table \<Rightarrow> bool" where
  "inherited_only t \<longleftrightarrow> (\<forall>fd f c. t fd = Some (f, c) \<longrightarrow> (\<exists>n. f = Inherited n))"

lemma pipe_new_result:
  assumes "descriptors pick" "pipe_new pick n t = Some (p, t')"
  obtains r w where "p = \<lparr>pipe_read = int r, pipe_write = int w, pipe_done = False, pipe_got = []\<rparr>"
    "pick t 0 = Some r" "pick (fd_open t r (Read_End n) True) 0 = Some w"
    "t' = fd_open (fd_open t r (Read_End n) True) w (Write_End n) True"
    "t r = None" "t w = None" "r \<noteq> w"
proof -
  from assms(2) obtain r w where rw: "pick t 0 = Some r" "pick (fd_open t r (Read_End n) True) 0 = Some w"
    "p = \<lparr>pipe_read = int r, pipe_write = int w, pipe_done = False, pipe_got = []\<rparr>"
    "t' = fd_open (fd_open t r (Read_End n) True) w (Write_End n) True"
    by (auto simp: pipe_new_def Let_def split: option.splits)
  have "t r = None" by (rule descriptors.pick_free [OF assms(1) rw(1)])
  moreover have "fd_open t r (Read_End n) True w = None"
    by (rule descriptors.pick_free [OF assms(1) rw(2)])
  then have "t w = None" "r \<noteq> w" by (auto simp: fd_open_def split: if_splits)
  ultimately show thesis using that rw by blast
qed

lemma above_stdio_result:
  assumes "descriptors pick" "above_stdio pick t fd = Some (w, t')" "t fd = Some (f, True)"
  shows "2 < w \<and> t' w = Some (f, True) \<and> (\<forall>k. k \<noteq> w \<longrightarrow> t' k = t k) \<and> (w = fd \<or> t w = None)"
  using assms(2,3) descriptors.pick_free [OF assms(1), of t 3 w]
    descriptors.pick_least [OF assms(1), of t 3 w]
  by (auto simp: above_stdio_def fd_open_def split: if_splits option.splits prod.splits)

text \<open>The child's shuffle, from a table where the standard descriptors are taken and the two write ends are
  open and closed across \<open>exec\<close>.\<close>

lemma child_setup_result:
  assumes d: "descriptors pick"
    and run: "child_setup pick dup_ok ow ew t = Some t'"
    and o: "t ow = Some (fo, True)" and e: "t ew = Some (fe, True)"
    and std: "\<And>k. k < 3 \<Longrightarrow> t k \<noteq> None"
  shows "fd_exec t' 0 = Some Null_Device \<and> fd_exec t' 1 = Some fo \<and> fd_exec t' 2 = Some fe
    \<and> (\<forall>k. 2 < k \<longrightarrow> fd_exec t' k = fd_exec t k)"
proof -
  from run obtain out_w t1 err_w t2 null where
    a: "above_stdio pick t ow = Some (out_w, t1)" and b: "above_stdio pick t1 ew = Some (err_w, t2)"
    and n: "pick t2 0 = Some null"
    and t': "t' = fd_dup2 (fd_dup2 (fd_close (fd_dup2 (fd_open t2 null Null_Device False) null 0) null) out_w 1) err_w 2"
    by (auto simp: child_setup_def Let_def split: option.splits prod.splits if_splits)
  note A = above_stdio_result [OF d a o]
  have "t1 ew = Some (fe, True)"
  proof (cases "ew = out_w")
    case True
    with A e o show ?thesis by auto
  next
    case False
    with A e show ?thesis by simp
  qed
  note B = above_stdio_result [OF d b this]
  have t2: "t2 k \<noteq> None" if "k < 3" for k
    using std [OF that] A B that by (metis not_less_eq numeral_3_eq_3 less_trans_Suc option.distinct(1))
  have free: "t2 null = None" by (rule descriptors.pick_free [OF d n])
  then have null: "2 < null" using t2 [of null] by (metis not_less_eq numeral_2_eq_2 numeral_3_eq_3)
  have ow: "t2 out_w = Some (fo, True)"
  proof (cases "out_w = err_w")
    case True
    then have "ew = out_w" using A B by auto
    with A B e o True show ?thesis by auto
  next
    case False
    with A B show ?thesis by auto
  qed
  have ne: "out_w \<noteq> null" "err_w \<noteq> null" using free ow B by auto
  have keep: "fd_exec t2 k = fd_exec t k" if "2 < k" for k
    using A B o e by (cases "k = err_w"; cases "k = out_w") (auto simp: fd_exec_def split: option.splits)
  show ?thesis
    using A B null ne ow free keep
    by (auto simp: t' fd_dup2_def fd_close_def fd_open_def fd_exec_def)
qed

section \<open>Properties\<close>

lemma spawned_streams:
  assumes "descriptors pick"
    and "pipe_new pick 0 t = Some (out, t1)" "pipe_new pick 1 t1 = Some (errs, t2)"
    and "child_setup pick dup_ok (nat (pipe_write out)) (nat (pipe_write errs)) t2 = Some t'"
  shows "fd_exec t' 0 = Some Null_Device \<and> fd_exec t' 1 = Some (Write_End 0)
    \<and> fd_exec t' 2 = Some (Write_End 1) \<and> (\<forall>k. 2 < k \<longrightarrow> fd_exec t' k = fd_exec t k)"
proof -
  from pipe_new_result [OF assms(1,2)] obtain r w where
    o: "nat (pipe_write out) = w" "pick t 0 = Some r" "pick (fd_open t r (Read_End 0) True) 0 = Some w"
      "t1 = fd_open (fd_open t r (Read_End 0) True) w (Write_End 0) True"
      "t r = None" "t w = None" "r \<noteq> w"
    by (metis nat_int pipe.select_convs(2))
  from pipe_new_result [OF assms(1,3)] obtain r' w' where
    e: "nat (pipe_write errs) = w'" "pick t1 0 = Some r'" "pick (fd_open t1 r' (Read_End 1) True) 0 = Some w'"
      "t2 = fd_open (fd_open t1 r' (Read_End 1) True) w' (Write_End 1) True"
      "t1 r' = None" "t1 w' = None" "r' \<noteq> w'"
    by (metis nat_int pipe.select_convs(2))
  have d: "r' \<noteq> w" "w' \<noteq> w" using o(4) e(5,6) by (auto simp: fd_open_def)
  have three: "fd_open t1 r' (Read_End 1) True k \<noteq> None" if "k < 3" for k
    using descriptors.three_opened [OF assms(1) o(2,3) _ that] o(4) e(2) by simp
  have "t2 k \<noteq> None" if "k < 3" for k
    using three [OF that] e(4) by (auto simp: fd_open_def)
  moreover have "t2 w = Some (Write_End 0, True)" "t2 w' = Some (Write_End 1, True)"
    using o(4) e(4) d by (auto simp: fd_open_def)
  ultimately have c: "fd_exec t' 0 = Some Null_Device \<and> fd_exec t' 1 = Some (Write_End 0)
      \<and> fd_exec t' 2 = Some (Write_End 1) \<and> (\<forall>k. 2 < k \<longrightarrow> fd_exec t' k = fd_exec t2 k)"
    using child_setup_result [OF assms(1,4)] o(1) e(1) by blast
  moreover have "fd_exec t2 k = fd_exec t k" for k
    using o(4-7) e(4-7) by (auto simp: fd_exec_def fd_open_def split: if_splits)
  ultimately show ?thesis by simp
qed

lemma spawned_inherits:
  assumes "descriptors pick" "pipe_new pick 0 t = Some (out, t1)" "pipe_new pick 1 t1 = Some (errs, t2)"
    and "child_setup pick dup_ok (nat (pipe_write out)) (nat (pipe_write errs)) t2 = Some t'" "2 < k"
  shows "fd_exec t' k = fd_exec t k"
  using spawned_streams [OF assms(1-4)] assms(5) by blast

text \<open>C10 (safety). Whichever of the standard descriptors the parent has closed, and whichever numbers the
  pipes were given, the program the child becomes finds \<open>/dev/null\<close> on 0, the stdout pipe on 1 and
  the stderr pipe on 2, and of everything above exactly what the parent had open to be inherited: no
  end of either pipe, which would keep the reader from its end of file.\<close>

theorem child_streams_are_right:
  assumes "descriptors pick"
    and "pipe_new pick 0 t = Some (out, t1)" "pipe_new pick 1 t1 = Some (errs, t2)"
    and "child_setup pick dup_ok (nat (pipe_write out)) (nat (pipe_write errs)) t2 = Some t'"
  shows "fd_exec t' 0 = Some Null_Device \<and> fd_exec t' 1 = Some (Write_End 0)
    \<and> fd_exec t' 2 = Some (Write_End 1) \<and> (\<forall>k. 2 < k \<longrightarrow> fd_exec t' k = fd_exec t k)"
  using spawned_streams [OF assms] .

text \<open>A parent that has closed its own stdout and stderr, as a daemon may have.\<close>

definition daemon_table :: "open_file table" where
  "daemon_table = (\<lambda>_. None)(0 \<mapsto> (Inherited 0, False), 5 \<mapsto> (Inherited 5, False))"

lemma first_free_upto:
  "n < 1024 \<Longrightarrow> t n = None \<Longrightarrow> \<forall>k<n. m \<le> k \<longrightarrow> t k \<noteq> None \<Longrightarrow> m \<le> n \<Longrightarrow> first_free t m = Some n"
  unfolding first_free_def find_Some_iff by (intro exI [of _ "n - m"]) auto

abbreviation fresh_pipe :: "int \<Rightarrow> int \<Rightarrow> pipe" where
  "fresh_pipe r w \<equiv> \<lparr>pipe_read = r, pipe_write = w, pipe_done = False, pipe_got = []\<rparr>"

definition daemon_one_pipe :: "open_file table" where
  "daemon_one_pipe = fd_open (fd_open daemon_table 1 (Read_End 0) True) 2 (Write_End 0) True"

definition daemon_two_pipes :: "open_file table" where
  "daemon_two_pipes = fd_open (fd_open daemon_one_pipe 3 (Read_End 1) True) 4 (Write_End 1) True"

lemmas daemon_tables_defs = daemon_table_def daemon_one_pipe_def daemon_two_pipes_def fd_open_def

lemma daemon_pipes:
  "pipe_new first_free 0 daemon_table = Some (fresh_pipe 1 2, daemon_one_pipe)"
  "pipe_new first_free 1 daemon_one_pipe = Some (fresh_pipe 3 4, daemon_two_pipes)"
proof -
  have less: "k < (2 :: nat) \<longleftrightarrow> k = 0 \<or> k = 1" "k < (3 :: nat) \<longleftrightarrow> k = 0 \<or> k = 1 \<or> k = 2"
    "k < (4 :: nat) \<longleftrightarrow> k = 0 \<or> k = 1 \<or> k = 2 \<or> k = 3" for k by auto
  have free: "first_free daemon_table 0 = Some 1"
    "first_free (fd_open daemon_table 1 (Read_End 0) True) 0 = Some 2"
    "first_free daemon_one_pipe 0 = Some 3"
    "first_free (fd_open daemon_one_pipe 3 (Read_End 1) True) 0 = Some 4"
    by (rule first_free_upto, auto simp: daemon_tables_defs less)+
  then show "pipe_new first_free 0 daemon_table = Some (fresh_pipe 1 2, daemon_one_pipe)"
    "pipe_new first_free 1 daemon_one_pipe = Some (fresh_pipe 3 4, daemon_two_pipes)"
    by (simp_all add: pipe_new_def daemon_one_pipe_def daemon_two_pipes_def Let_def)
qed

lemma daemon_child: "\<exists>t'. child_setup first_free (\<lambda>_. True) 2 4 daemon_two_pipes = Some t'"
proof -
  let ?t3 = "fd_open daemon_two_pipes 6 (Write_End 0) True"
  have "first_free daemon_two_pipes 3 = Some 6"
    by (rule first_free_upto) (auto simp: daemon_tables_defs less_Suc_eq numeral_eq_Suc)
  moreover have "first_free ?t3 0 = Some 7"
    by (rule first_free_upto) (auto simp: daemon_tables_defs less_Suc_eq numeral_eq_Suc)
  moreover have "daemon_two_pipes 2 = Some (Write_End 0, True)" by (simp add: daemon_tables_defs)
  ultimately show ?thesis by (simp add: child_setup_def above_stdio_def Let_def)
qed

theorem child_streams_are_right_witness:
  "\<exists>t'. child_setup first_free (\<lambda>_. True) 2 4 daemon_two_pipes = Some t'
     \<and> fd_exec t' 1 = Some (Write_End 0) \<and> fd_exec t' 2 = Some (Write_End 1) \<and> fd_exec t' 5 = Some (Inherited 5)"
proof -
  obtain t' where t': "child_setup first_free (\<lambda>_. True) 2 4 daemon_two_pipes = Some t'"
    using daemon_child by blast
  have "fd_exec daemon_table 5 = Some (Inherited 5)" by (simp add: fd_exec_def daemon_table_def)
  with child_streams_are_right [OF first_free.descriptors_axioms daemon_pipes, of "\<lambda>_. True" t'] t'
  show ?thesis by auto
qed

lemma close_pair:
  "t r = None \<Longrightarrow> t w = None \<Longrightarrow> fd_close (fd_close (fd_open (fd_open t r f x) w g y) r) w = t"
  by (auto simp: fd_close_def fd_open_def)

text \<open>C32 (error). A \<open>spawn\<close> that gives no child leaves the parent's descriptors as they were, whether the
  first pipe, the second, the candidates or the \<open>fork\<close> failed; one that gives a child leaves it the
  two read ends and no write end of either pipe.\<close>

theorem spawn_leaks_nothing:
  assumes "descriptors pick" "inherited_only t" "spawn pick tries forked t = (c, t')"
  shows "case c of
      None \<Rightarrow> t' = t
    | Some ch \<Rightarrow> file_at t' (nat (pipe_read (ch_out ch))) = Some (Read_End 0)
        \<and> file_at t' (nat (pipe_read (ch_err ch))) = Some (Read_End 1)
        \<and> (\<forall>k n. file_at t' k \<noteq> Some (Write_End n))"
proof (cases "pipe_new pick 0 t")
  case None
  with assms(3) show ?thesis by (auto simp: spawn_def)
next
  case (Some a)
  then obtain out t1 where o: "pipe_new pick 0 t = Some (out, t1)" by (cases a) auto
  from pipe_new_result [OF assms(1) o] obtain r w where
    out: "out = \<lparr>pipe_read = int r, pipe_write = int w, pipe_done = False, pipe_got = []\<rparr>"
      "t1 = fd_open (fd_open t r (Read_End 0) True) w (Write_End 0) True" "t r = None" "t w = None" "r \<noteq> w"
    by metis
  have undo: "fd_close (fd_close t1 r) w = t" using out by (simp add: close_pair)
  show ?thesis
  proof (cases "pipe_new pick 1 t1")
    case None
    with assms(3) o out(1) undo show ?thesis by (auto simp: spawn_def drop_pipe_def close_all_def)
  next
    case (Some b)
    then obtain errp t2 where e: "pipe_new pick 1 t1 = Some (errp, t2)" by (cases b) auto
    from pipe_new_result [OF assms(1) e] obtain r' w' where
      errp: "errp = \<lparr>pipe_read = int r', pipe_write = int w', pipe_done = False, pipe_got = []\<rparr>"
        "t2 = fd_open (fd_open t1 r' (Read_End 1) True) w' (Write_End 1) True" "t1 r' = None" "t1 w' = None" "r' \<noteq> w'"
      by metis
    have undo': "fd_close (fd_close t2 r') w' = t1" using errp by (simp add: close_pair)
    show ?thesis
    proof (cases "tries = [] \<or> forked = None")
      case True
      with assms(3) o e out(1) errp(1) undo undo' show ?thesis
        by (auto simp: spawn_def drop_pipe_def close_all_def split: list.splits option.splits)
    next
      case False
      then obtain pid where c: "c = Some \<lparr>ch_pid = pid, ch_out = out\<lparr>pipe_write := -1\<rparr>,
          ch_err = errp\<lparr>pipe_write := -1\<rparr>, ch_status = None\<rparr>" "t' = fd_close (fd_close t2 w) w'"
        using assms(3) o e out(1) errp(1)
        by (cases tries) (auto simp: spawn_def close_write_def close_all_def)
      have "w \<noteq> r'" "w \<noteq> w'" "r \<noteq> r'" "r \<noteq> w'" using out(2,5) errp(3,4) by (auto simp: fd_open_def)
      moreover have "file_at t k \<noteq> Some (Write_End n)" for k n
        using assms(2) by (fastforce simp: inherited_only_def file_at_def)
      ultimately show ?thesis using out errp c
        by (auto simp: file_at_def fd_close_def fd_open_def)
    qed
  qed
qed

theorem spawn_leaks_nothing_witness:
  "snd (spawn first_free [] (Some 100) daemon_table) = daemon_table"
proof -
  have "inherited_only daemon_table" by (auto simp: inherited_only_def daemon_table_def split: if_splits)
  moreover obtain c t' where r: "spawn first_free [] (Some 100) daemon_table = (c, t')" by fastforce
  moreover have "c = None" using r by (auto simp: spawn_def split: option.splits prod.splits)
  ultimately show ?thesis using spawn_leaks_nothing [OF first_free.descriptors_axioms _ r] by simp
qed

text \<open>A program named without a slash while \<open>PATH\<close> is unset has no candidates, and \<open>spawn\<close> gives
  nothing, which its documentation keeps for a failed \<open>fork\<close> or pipe.\<close>

lemma no_path_no_child:
  "fst (spawn pick (candidates (\<lambda>_ _. None) e (bstr ''cc'')) forked t) = None"
proof -
  have "candidates (\<lambda>_ _. None) e (bstr ''cc'') = []"
    by (simp add: candidates_def var_os_def split_paths_def bstr_def)
  then show ?thesis by (auto simp: spawn_def split: option.splits prod.splits)
qed

end
