(* ===== verification/Pumping.thy ===== *)
theory Pumping
  imports Commands
begin

text \<open>
  \<open>Command::output\<close> against a program that writes to both of its streams: the loop over
  \<open>Child::read_ready\<close>, the two pipes with their bounded buffers, and the program, which blocks when
  a pipe is full. A program is the list of its writes; a write may be taken in pieces. The loop's
  reads interleave with the program's steps, between any two of them.
\<close>

section \<open>The program and the pipes\<close>

text \<open>Streams are \<open>False\<close> for stdout and \<open>True\<close> for stderr. \<open>pm_todo\<close> are the writes still to make.\<close>

record pump =
  pm_bufs :: "bool \<Rightarrow> bytes"
  pm_todo :: "(bool \<times> bytes) list"
  pm_ended :: bool
  pm_parent :: child

text \<open>The program writes what there is room for, goes on to the next write, and exits, which closes its
  ends of both pipes.\<close>

inductive program_step :: "nat \<Rightarrow> pump \<Rightarrow> pump \<Rightarrow> bool" for cap :: nat where
  writes: "pm_todo s = (b, bs) # ws \<Longrightarrow> 0 < k \<Longrightarrow> k \<le> length bs \<Longrightarrow> length (pm_bufs s b) + k \<le> cap \<Longrightarrow>
    program_step cap s (s\<lparr>pm_bufs := (pm_bufs s)(b := pm_bufs s b @ take k bs), pm_todo := (b, drop k bs) # ws\<rparr>)"
| written: "pm_todo s = (b, []) # ws \<Longrightarrow> program_step cap s (s\<lparr>pm_todo := ws\<rparr>)"
| exits: "pm_todo s = [] \<Longrightarrow> \<not> pm_ended s \<Longrightarrow> program_step cap s (s\<lparr>pm_ended := True\<rparr>)"

text \<open>The answers of the system to a run of reads on one pipe, up to the first that finds nothing: a piece
  of what is buffered, an interruption, the end of file once the program is gone, \<open>EAGAIN\<close> while it is
  not; and the program going on in between.\<close>

inductive served :: "libc \<Rightarrow> nat \<Rightarrow> bool \<Rightarrow> pump \<Rightarrow> read_ans list \<Rightarrow> pump \<Rightarrow> bool"
  for L :: libc and cap :: nat and b :: bool where
  piece: "0 < k \<Longrightarrow> k \<le> length (pm_bufs s b) \<Longrightarrow>
    served L cap b (s\<lparr>pm_bufs := (pm_bufs s)(b := drop k (pm_bufs s b))\<rparr>) script s' \<Longrightarrow>
    served L cap b s (RData (take k (pm_bufs s b)) # script) s'"
| eof: "pm_bufs s b = [] \<Longrightarrow> pm_ended s \<Longrightarrow> served L cap b s [RData []] s"
| again: "pm_bufs s b = [] \<Longrightarrow> \<not> pm_ended s \<Longrightarrow> served L cap b s [RErr (EAGAIN L)] s"
| interrupted: "served L cap b s script s' \<Longrightarrow> served L cap b s (RErr (EINTR L) # script) s'"
| meanwhile: "program_step cap s t \<Longrightarrow> served L cap b t script s' \<Longrightarrow> served L cap b s script s'"

section \<open>The loop\<close>

definition pipe_of :: "bool \<Rightarrow> child \<Rightarrow> pipe" where
  "pipe_of b c = (if b then ch_err c else ch_out c)"

definition watched :: "child \<Rightarrow> bool list" where
  "watched c = filter (\<lambda>b. \<not> pipe_done (pipe_of b c)) [False, True]"

text \<open>What \<open>poll\<close> finds on a pipe: something to read, or its end.\<close>

definition readable :: "pump \<Rightarrow> bool \<Rightarrow> bool" where
  "readable s b \<longleftrightarrow> pm_bufs s b \<noteq> [] \<or> pm_ended s"

definition serves :: "libc \<Rightarrow> nat \<Rightarrow> bool \<Rightarrow> bool \<Rightarrow> pump \<Rightarrow> read_ans list \<Rightarrow> pump \<Rightarrow> bool" where
  "serves L cap asked b s script s' \<longleftrightarrow> (if asked then served L cap b s script s' else script = [] \<and> s' = s)"

text \<open>A turn of the loop in \<open>output\<close>: \<open>poll\<close> waits until one of the pipes it watches is readable, and
  \<open>read_ready\<close> reads those that were.\<close>

inductive pump_step :: "libc \<Rightarrow> nat \<Rightarrow> pump \<Rightarrow> pump \<Rightarrow> bool" for L :: libc and cap :: nat where
  program: "program_step cap s s' \<Longrightarrow> pump_step L cap s s'"
| turn: "b \<in> set (watched (pm_parent s)) \<Longrightarrow> readable s b \<Longrightarrow>
    serves L cap (\<not> pipe_done (ch_out (pm_parent s)) \<and> readable s False) False s outs s1 \<Longrightarrow>
    serves L cap (\<not> pipe_done (ch_err (pm_parent s)) \<and> readable s True) True s1 errs s2 \<Longrightarrow>
    read_ready L (PollReady (map (readable s) (watched (pm_parent s)))) (pm_parent s, outs, errs)
      = Some (c, [], []) \<Longrightarrow>
    pump_step L cap s (s2\<lparr>pm_parent := c\<rparr>)"

text \<open>The start: nothing written, nothing read.\<close>

definition pump_init :: "(bool \<times> bytes) list \<Rightarrow> pump \<Rightarrow> bool" where
  "pump_init prog s \<longleftrightarrow> pm_bufs s = (\<lambda>_. []) \<and> pm_todo s = prog \<and> \<not> pm_ended s
     \<and> (\<forall>b. \<not> pipe_done (pipe_of b (pm_parent s)) \<and> pipe_got (pipe_of b (pm_parent s)) = [])"

text \<open>What a list of writes puts on a stream.\<close>

definition written_to :: "bool \<Rightarrow> (bool \<times> bytes) list \<Rightarrow> bytes" where
  "written_to b ws = concat (map snd (filter (\<lambda>w. fst w = b) ws))"

lemma written_to_simps [simp]:
  "written_to b [] = []"
  "written_to b ((b', bs) # ws) = (if b' = b then bs @ written_to b ws else written_to b ws)"
  by (simp_all add: written_to_def)

section \<open>What the steps keep\<close>

text \<open>On its way: in the pipe, or still to be written.\<close>

definition on_the_way :: "pump \<Rightarrow> bool \<Rightarrow> bytes" where
  "on_the_way s b = pm_bufs s b @ written_to b (pm_todo s)"

definition orderly :: "nat \<Rightarrow> pump \<Rightarrow> bool" where
  "orderly cap s \<longleftrightarrow> (pm_ended s \<longrightarrow> pm_todo s = []) \<and> (\<forall>b. length (pm_bufs s b) \<le> cap)"

text \<open>What is left to do: every byte is written and then read, every write, the exit.\<close>

definition work :: "pump \<Rightarrow> nat" where
  "work s = 2 * length (concat (map snd (pm_todo s))) + length (pm_todo s)
     + length (pm_bufs s False) + length (pm_bufs s True) + (if pm_ended s then 0 else 1)"

lemma program_keeps:
  assumes "program_step cap s s'"
  shows "pm_parent s' = pm_parent s" "on_the_way s' b = on_the_way s b" "orderly cap s \<Longrightarrow> orderly cap s'"
    "work s' < work s" "pm_bufs s b \<noteq> [] \<Longrightarrow> pm_bufs s' b \<noteq> []" "pm_ended s \<Longrightarrow> pm_ended s'"
  using assms by (cases; auto simp: on_the_way_def orderly_def work_def split: if_splits)+

text \<open>A run of reads, as \<open>take_ready\<close> sees it: what it has got grows by what left the pipe, it is done when
  the program is gone and the pipe empty, and the other pipe is not touched.\<close>

definition took :: "nat \<Rightarrow> bool \<Rightarrow> pump \<Rightarrow> pump \<Rightarrow> pipe \<Rightarrow> pipe \<Rightarrow> bool" where
  "took cap b s s' p p' \<longleftrightarrow>
     pm_parent s' = pm_parent s \<and> (orderly cap s \<longrightarrow> orderly cap s')
     \<and> pipe_got p' @ on_the_way s' b = pipe_got p @ on_the_way s b
     \<and> on_the_way s' (\<not> b) = on_the_way s (\<not> b)
     \<and> (pm_bufs s (\<not> b) \<noteq> [] \<longrightarrow> pm_bufs s' (\<not> b) \<noteq> [])
     \<and> (pm_ended s \<longrightarrow> pm_ended s') \<and> work s' \<le> work s
     \<and> (pipe_done p' \<longrightarrow> pipe_done p \<or> pm_ended s' \<and> pm_bufs s' b = [])
     \<and> (pipe_done p \<longrightarrow> pipe_done p') \<and> (readable s b \<longrightarrow> work s' < work s \<or> pipe_done p')"

lemma took_program:
  assumes "program_step cap s u" "took cap b u s' p p'"
  shows "took cap b s s' p p'"
  using program_keeps [OF assms(1)] assms(2) unfolding took_def readable_def
  by (metis dual_order.strict_trans1 less_imp_le_nat order.trans order_less_le_trans)

lemma work_piece:
  "k \<le> length (pm_bufs s b) \<Longrightarrow> work (s\<lparr>pm_bufs := (pm_bufs s)(b := drop k (pm_bufs s b))\<rparr>) + k = work s"
  by (cases b) (simp_all add: work_def)

lemma took_piece:
  assumes "0 < k" "k \<le> length (pm_bufs s b)"
    and "took cap b (s\<lparr>pm_bufs := (pm_bufs s)(b := drop k (pm_bufs s b))\<rparr>) s'
      (p\<lparr>pipe_got := pipe_got p @ take k (pm_bufs s b)\<rparr>) p'"
  shows "took cap b s s' p p'"
proof -
  let ?t = "s\<lparr>pm_bufs := (pm_bufs s)(b := drop k (pm_bufs s b))\<rparr>"
  have w: "work ?t < work s" using work_piece [OF assms(2)] assms(1) by linarith
  moreover have "orderly cap s \<longrightarrow> orderly cap ?t" by (auto simp: orderly_def) (meson diff_le_self le_trans)+
  moreover have "take k (pm_bufs s b) @ on_the_way ?t b = on_the_way s b"
    by (simp add: on_the_way_def flip: append_assoc)
  moreover have "on_the_way ?t (\<not> b) = on_the_way s (\<not> b)" by (simp add: on_the_way_def)
  ultimately show ?thesis using assms(3) by (auto simp: took_def)
qed

lemma served_take_ready:
  assumes "served L cap b s script s'" "posix_errnos L"
  shows "\<exists>p'. take_ready L script p = Some (p', []) \<and> took cap b s s' p p'"
  using assms(1)
proof (induction arbitrary: p)
  case (piece k s script s')
  from piece.IH [of "p\<lparr>pipe_got := pipe_got p @ take k (pm_bufs s b)\<rparr>"] piece.hyps show ?case
    using took_piece [OF piece.hyps(1,2)] by auto
next
  case (eof s)
  then show ?case by (auto simp: took_def)
next
  case (again s)
  then show ?case using assms(2) by (auto simp: took_def posix_errnos_def readable_def)
next
  case (meanwhile s t script s')
  then show ?case using took_program by blast
qed simp

lemma read_ready_streams:
  assumes "b \<in> set (watched c)"
  shows "read_ready L (PollReady (map f (watched c))) (c, outs, errs) =
    (case (if \<not> pipe_done (ch_out c) \<and> f False
           then map_option (\<lambda>(p, rest). (c\<lparr>ch_out := p\<rparr>, rest)) (take_ready L outs (ch_out c))
           else Some (c, outs)) of
       None \<Rightarrow> None
     | Some (c', outs') \<Rightarrow>
         if \<not> pipe_done (ch_err c) \<and> f True
         then map_option (\<lambda>(p, rest). (c'\<lparr>ch_err := p\<rparr>, outs', rest)) (take_ready L errs (ch_err c'))
         else Some (c', outs', errs))"
  using assms
  by (cases "pipe_done (ch_out c)"; cases "pipe_done (ch_err c)")
     (auto simp: read_ready_def watched_def pipe_of_def Let_def split: option.split)

text \<open>One turn: each pipe's share.\<close>

definition share :: "nat \<Rightarrow> bool \<Rightarrow> bool \<Rightarrow> pump \<Rightarrow> pump \<Rightarrow> pipe \<Rightarrow> pipe \<Rightarrow> bool" where
  "share cap asked b s s' p p' \<longleftrightarrow> (if asked then took cap b s s' p p' else s' = s \<and> p' = p)"

lemma serves_share:
  assumes "serves L cap asked b s script s'" "posix_errnos L"
  shows "\<exists>p'. (if asked then take_ready L script p else Some (p, script)) = Some (p', [])
    \<and> share cap asked b s s' p p'"
  using assms served_take_ready [of L cap b s script s' p]
  by (auto simp: serves_def share_def split: if_splits)

lemma turn_shares:
  assumes "b \<in> set (watched (pm_parent s))" "posix_errnos L"
    and "serves L cap (\<not> pipe_done (ch_out (pm_parent s)) \<and> readable s False) False s outs s1"
    and "serves L cap (\<not> pipe_done (ch_err (pm_parent s)) \<and> readable s True) True s1 errs s2"
  obtains p q where
    "read_ready L (PollReady (map (readable s) (watched (pm_parent s)))) (pm_parent s, outs, errs)
      = Some (pm_parent s\<lparr>ch_out := p, ch_err := q\<rparr>, [], [])"
    "share cap (\<not> pipe_done (ch_out (pm_parent s)) \<and> readable s False) False s s1 (ch_out (pm_parent s)) p"
    "share cap (\<not> pipe_done (ch_err (pm_parent s)) \<and> readable s True) True s1 s2 (ch_err (pm_parent s)) q"
proof -
  obtain p where p: "(if \<not> pipe_done (ch_out (pm_parent s)) \<and> readable s False
      then take_ready L outs (ch_out (pm_parent s)) else Some (ch_out (pm_parent s), outs)) = Some (p, [])"
    "share cap (\<not> pipe_done (ch_out (pm_parent s)) \<and> readable s False) False s s1 (ch_out (pm_parent s)) p"
    using serves_share [OF assms(3,2)] by blast
  obtain q where q: "(if \<not> pipe_done (ch_err (pm_parent s)) \<and> readable s True
      then take_ready L errs (ch_err (pm_parent s)) else Some (ch_err (pm_parent s), errs)) = Some (q, [])"
    "share cap (\<not> pipe_done (ch_err (pm_parent s)) \<and> readable s True) True s1 s2 (ch_err (pm_parent s)) q"
    using serves_share [OF assms(4,2)] by blast
  have "read_ready L (PollReady (map (readable s) (watched (pm_parent s)))) (pm_parent s, outs, errs)
      = Some (pm_parent s\<lparr>ch_out := p, ch_err := q\<rparr>, [], [])"
    using p(1) q(1) by (auto simp: read_ready_streams [OF assms(1)] split: if_splits)
  then show thesis using p(2) q(2) that by blast
qed

section \<open>The invariant\<close>

definition pump_inv :: "nat \<Rightarrow> (bool \<times> bytes) list \<Rightarrow> pump \<Rightarrow> bool" where
  "pump_inv cap prog s \<longleftrightarrow> orderly cap s
     \<and> (\<forall>b. pipe_got (pipe_of b (pm_parent s)) @ on_the_way s b = written_to b prog)
     \<and> (\<forall>b. pipe_done (pipe_of b (pm_parent s)) \<longrightarrow> pm_ended s \<and> pm_bufs s b = [])"

definition to_do :: "pump \<Rightarrow> nat" where
  "to_do s = work s + length (watched (pm_parent s))"

lemma share_other:
  assumes "share cap asked b s s' p p'"
  shows "on_the_way s' (\<not> b) = on_the_way s (\<not> b)" "pm_parent s' = pm_parent s"
    "orderly cap s \<Longrightarrow> orderly cap s'" "pm_ended s \<Longrightarrow> pm_ended s'" "work s' \<le> work s"
    "pipe_got p' @ on_the_way s' b = pipe_got p @ on_the_way s b"
    "pipe_done p' \<Longrightarrow> pipe_done p \<or> pm_ended s' \<and> pm_bufs s' b = []" "pipe_done p \<Longrightarrow> pipe_done p'"
    "asked \<Longrightarrow> readable s b \<Longrightarrow> work s' < work s \<or> pipe_done p'"
  using assms by (auto simp: share_def took_def split: if_splits)

lemma ended_empty:
  "orderly cap s \<Longrightarrow> pm_ended s \<Longrightarrow> on_the_way s b = [] \<longleftrightarrow> pm_bufs s b = []"
  by (simp add: on_the_way_def orderly_def)

lemma share_readable:
  assumes "share cap asked b s s' p p'" "readable s (\<not> b)"
  shows "readable s' (\<not> b)"
  using assms by (auto simp: share_def took_def readable_def split: if_splits)

lemma done_stays_empty:
  assumes "orderly cap s" "pm_ended s" "pm_bufs s b = []" "pm_ended s'" "orderly cap s'"
    "on_the_way s' b = on_the_way s b"
  shows "pm_bufs s' b = []"
  using assms ended_empty by metis

lemma pump_inv_program:
  assumes "pump_inv cap prog s" "program_step cap s s'"
  shows "pump_inv cap prog s'" "to_do s' < to_do s"
proof -
  note k = program_keeps [OF assms(2)]
  have "pm_bufs s' b = []" if "pipe_done (pipe_of b (pm_parent s))" for b
    using that assms(1) k(2,3,6) done_stays_empty [of cap s b s'] by (auto simp: pump_inv_def)
  then show "pump_inv cap prog s'" using assms(1) k by (auto simp: pump_inv_def)
  show "to_do s' < to_do s" using k(1,4) by (simp add: to_do_def)
qed

lemma both_streams: "(\<forall>b. P b) \<longleftrightarrow> P False \<and> P True"
  by (metis (full_types))

lemma pump_inv_turn:
  assumes inv: "pump_inv cap prog s"
    and a: "share cap (\<not> pipe_done (ch_out (pm_parent s)) \<and> readable s False) False s s1 (ch_out (pm_parent s)) p"
    and b: "share cap (\<not> pipe_done (ch_err (pm_parent s)) \<and> readable s True) True s1 s2 (ch_err (pm_parent s)) q"
  shows "pump_inv cap prog (s2\<lparr>pm_parent := pm_parent s\<lparr>ch_out := p, ch_err := q\<rparr>\<rparr>)"
proof -
  note A = share_other [OF a, simplified] and B = share_other [OF b, simplified]
  have o: "orderly cap s" "orderly cap s1" "orderly cap s2"
    using inv A(3) B(3) by (simp_all add: pump_inv_def)
  have got: "pipe_got p @ on_the_way s2 False = written_to False prog"
    "pipe_got q @ on_the_way s2 True = written_to True prog"
    using inv A(1,6) B(1,6) by (auto simp: pump_inv_def pipe_of_def both_streams)
  have "pm_ended s2 \<and> pm_bufs s2 False = []" if "pipe_done p"
  proof -
    have "pm_ended s1 \<and> pm_bufs s1 False = []"
    proof (cases "pipe_done (ch_out (pm_parent s))")
      case True
      then have "s1 = s" using a by (simp add: share_def)
      with True inv show ?thesis by (simp add: pump_inv_def pipe_of_def both_streams)
    qed (use that A(7) in simp)
    then show ?thesis using B(1,4) done_stays_empty [OF o(2) _ _ _ o(3), of False] by simp
  qed
  moreover have "pm_ended s2 \<and> pm_bufs s2 True = []" if "pipe_done q"
  proof (cases "pipe_done (ch_err (pm_parent s))")
    case True
    then have "s2 = s1" using b by (simp add: share_def)
    moreover have "pm_ended s \<and> pm_bufs s True = []"
      using True inv by (simp add: pump_inv_def pipe_of_def both_streams)
    ultimately show ?thesis using A(1,4) done_stays_empty [OF o(1) _ _ _ o(2), of True] by simp
  qed (use that B(7) in simp)
  ultimately show ?thesis using got o
    by (auto simp: pump_inv_def pipe_of_def both_streams orderly_def on_the_way_def)
qed

lemma to_do_turn:
  assumes a: "share cap (\<not> pipe_done (ch_out (pm_parent s)) \<and> readable s False) False s s1 (ch_out (pm_parent s)) p"
    and b: "share cap (\<not> pipe_done (ch_err (pm_parent s)) \<and> readable s True) True s1 s2 (ch_err (pm_parent s)) q"
    and r: "r \<in> set (watched (pm_parent s))" "readable s r"
  shows "to_do (s2\<lparr>pm_parent := pm_parent s\<lparr>ch_out := p, ch_err := q\<rparr>\<rparr>) < to_do s"
proof -
  note A = share_other [OF a, simplified] and B = share_other [OF b, simplified]
  let ?c = "pm_parent s\<lparr>ch_out := p, ch_err := q\<rparr>"
  have w: "length (watched c) = (if pipe_done (ch_out c) then 0 else 1) + (if pipe_done (ch_err c) then 0 else 1)" for c
    by (simp add: watched_def pipe_of_def)
  have "work s2 < work s \<or> length (watched ?c) < length (watched (pm_parent s))"
  proof (cases r)
    case False
    with r have "\<not> pipe_done (ch_out (pm_parent s)) \<and> readable s False"
      by (auto simp: watched_def pipe_of_def split: if_splits)
    with A(9) B(5,8) show ?thesis by (auto simp: w)
  next
    case True
    with r have t: "\<not> pipe_done (ch_err (pm_parent s)) \<and> readable s True"
      by (auto simp: watched_def pipe_of_def split: if_splits)
    then have "readable s1 True" using share_readable [OF a] by simp
    with t A(5,8) B(9) show ?thesis by (auto simp: w)
  qed
  moreover have "work s2 \<le> work s" using A(5) B(5) by linarith
  moreover have "length (watched ?c) \<le> length (watched (pm_parent s))" using A(8) B(8) by (auto simp: w)
  moreover have "to_do (s2\<lparr>pm_parent := ?c\<rparr>) = work s2 + length (watched ?c)"
    by (simp add: to_do_def work_def)
  ultimately show ?thesis by (auto simp: to_do_def)
qed

lemma pump_step_keeps:
  assumes "pump_inv cap prog s" "pump_step L cap s s'" "posix_errnos L"
  shows "pump_inv cap prog s'" "to_do s' < to_do s"
proof -
  have "pump_inv cap prog s' \<and> to_do s' < to_do s"
    using assms(2)
  proof cases
    case program
    then show ?thesis using pump_inv_program [OF assms(1)] by simp
  next
    case (turn b outs s1 errs s2 c)
    from turn_shares [OF turn(2) assms(3) turn(4,5)] obtain p q where r:
      "read_ready L (PollReady (map (readable s) (watched (pm_parent s)))) (pm_parent s, outs, errs)
         = Some (pm_parent s\<lparr>ch_out := p, ch_err := q\<rparr>, [], [])"
      "share cap (\<not> pipe_done (ch_out (pm_parent s)) \<and> readable s False) False s s1 (ch_out (pm_parent s)) p"
      "share cap (\<not> pipe_done (ch_err (pm_parent s)) \<and> readable s True) True s1 s2 (ch_err (pm_parent s)) q"
      by blast
    then have "c = pm_parent s\<lparr>ch_out := p, ch_err := q\<rparr>" using turn(6) by simp
    then show ?thesis
      using pump_inv_turn [OF assms(1) r(2,3)] to_do_turn [OF r(2,3) turn(2,3)] turn(1) by simp
  qed
  then show "pump_inv cap prog s'" "to_do s' < to_do s" by simp_all
qed

lemma pump_init_inv: "pump_init prog s \<Longrightarrow> pump_inv cap prog s"
  by (simp add: pump_init_def pump_inv_def orderly_def on_the_way_def)

lemma pump_system:
  "posix_errnos L \<Longrightarrow> transition_system (pump_init prog) (pump_step L cap) (pump_inv cap prog)"
  by unfold_locales (auto intro: pump_init_inv pump_step_keeps)

section \<open>Something can always happen\<close>

lemma served_exists: "\<exists>script s'. served L cap b s script s'"
proof -
  let ?t = "s\<lparr>pm_bufs := (pm_bufs s)(b := [])\<rparr>"
  have e: "\<exists>script. served L cap b t script t" if "pm_bufs t b = []" for t
    using served.eof [of t b] served.again [of t b] that by (cases "pm_ended t") auto
  show ?thesis
  proof (cases "pm_bufs s b = []")
    case False
    from e [of ?t] obtain script where "served L cap b ?t script ?t" by auto
    then have "served L cap b s (RData (take (length (pm_bufs s b)) (pm_bufs s b)) # script) ?t"
      using False by (intro served.piece) simp_all
    then show ?thesis by blast
  qed (use e in blast)
qed

lemma turn_exists:
  assumes "posix_errnos L" "b \<in> set (watched (pm_parent s))" "readable s b"
  shows "\<exists>s'. pump_step L cap s s'"
proof -
  have sv: "\<exists>script u'. serves L cap asked b' u script u'" for asked b' u
    using served_exists [of L cap b' u] by (auto simp: serves_def)
  obtain outs s1 where 1:
    "serves L cap (\<not> pipe_done (ch_out (pm_parent s)) \<and> readable s False) False s outs s1"
    using sv by blast
  obtain errs s2 where 2:
    "serves L cap (\<not> pipe_done (ch_err (pm_parent s)) \<and> readable s True) True s1 errs s2"
    using sv by blast
  from turn_shares [OF assms(2,1) 1 2] show ?thesis
    using pump_step.turn [OF assms(2,3) 1 2] by metis
qed

lemma watched_mem: "b \<in> set (watched c) \<longleftrightarrow> \<not> pipe_done (pipe_of b c)"
  by (cases b) (simp_all add: watched_def)

lemma drained_iff: "drained c \<longleftrightarrow> (\<forall>b. pipe_done (pipe_of b c))"
  by (simp add: drained_def pipe_of_def both_streams)

lemma pump_progress:
  assumes "posix_errnos L" "0 < cap" "pump_inv cap prog s" "\<not> drained (pm_parent s)"
  shows "\<exists>s'. pump_step L cap s s'"
proof -
  from assms(4) obtain b where b: "b \<in> set (watched (pm_parent s))"
    by (auto simp: drained_iff watched_mem)
  show ?thesis
  proof (cases "pm_todo s")
    case Nil
    then show ?thesis using turn_exists [OF assms(1) b] exits [of s cap] program [of cap s]
      by (cases "pm_ended s") (auto simp: readable_def)
  next
    case (Cons w ws)
    obtain d bs where w: "w = (d, bs)" by (cases w)
    consider "bs = []" | "bs \<noteq> []" "length (pm_bufs s d) < cap" | "cap \<le> length (pm_bufs s d)" by linarith
    then show ?thesis
    proof cases
      case 1
      then show ?thesis using written [of s d ws cap] program [of cap s] Cons w by blast
    next
      case 2
      then have "program_step cap s (s\<lparr>pm_bufs := (pm_bufs s)(d := pm_bufs s d @ take 1 bs),
          pm_todo := (d, drop 1 bs) # ws\<rparr>)"
        using Cons w by (intro writes) (auto simp: Suc_le_eq)
      then show ?thesis using program by blast
    next
      case 3
      then have "pm_bufs s d \<noteq> []" using assms(2) by auto
      moreover have "\<not> pm_ended s" using assms(3) Cons by (auto simp: pump_inv_def orderly_def)
      then have "d \<in> set (watched (pm_parent s))"
        using assms(3) by (auto simp: pump_inv_def watched_mem)
      ultimately show ?thesis using turn_exists [OF assms(1)] by (simp add: readable_def)
    qed
  qed
qed

section \<open>Properties\<close>

text \<open>C13 (liveness). \<open>output\<close> never blocks for ever and never loses anything, whatever a program writes to its
  two streams, in whatever order, and however small the pipes are: as long as one of them has not ended
  some step is possible, for the program or for the loop; every step takes from what is left to do, so
  the loop ends; and when it does, stdout and stderr are all the program wrote to each.\<close>

theorem output_never_blocks:
  assumes "posix_errnos L" "0 < cap" "reach (pump_init prog) (pump_step L cap) s"
  shows "(\<not> drained (pm_parent s) \<longrightarrow> (\<exists>s'. pump_step L cap s s'))
    \<and> (\<forall>s'. pump_step L cap s s' \<longrightarrow> to_do s' < to_do s)
    \<and> (drained (pm_parent s) \<longrightarrow> into_output (pm_parent s) code
         = \<lparr>out_code = code, out_stdout = written_to False prog, out_stderr = written_to True prog\<rparr>)"
proof -
  have inv: "pump_inv cap prog s"
    by (rule transition_system.reachable_inv [OF pump_system [OF assms(1)] assms(3)])
  have "pipe_got (pipe_of b (pm_parent s)) = written_to b prog" if "drained (pm_parent s)" for b
  proof -
    have "pipe_done (pipe_of b (pm_parent s))" using that by (simp add: drained_def pipe_of_def)
    then have "on_the_way s b = []" using inv ended_empty [of cap s b] by (auto simp: pump_inv_def)
    then show ?thesis using inv by (simp add: pump_inv_def) (metis append_Nil2)
  qed
  from this [of False] this [of True] show ?thesis
    using pump_progress [OF assms(1,2) inv] pump_step_keeps(2) [OF inv _ assms(1)]
    by (auto simp: into_output_def pipe_of_def)
qed

text \<open>A program that fills stderr before it has written anything to stdout: it is stuck, and so is a reader
  of stdout alone; \<open>read_ready\<close> has something to read.\<close>

definition fills_stderr :: "(bool \<times> bytes) list" where
  "fills_stderr = [(True, [1, 2, 3]), (False, [4])]"

definition empty_pipe :: pipe where
  "empty_pipe = \<lparr>pipe_read = 4, pipe_write = -1, pipe_done = False, pipe_got = []\<rparr>"

definition at_start :: pump where
  "at_start = \<lparr>pm_bufs = (\<lambda>_. []), pm_todo = fills_stderr, pm_ended = False,
     pm_parent = \<lparr>ch_pid = 100, ch_out = empty_pipe, ch_err = empty_pipe, ch_status = None\<rparr>\<rparr>"

definition stderr_full :: pump where
  "stderr_full = at_start\<lparr>pm_bufs := (\<lambda>_. [])(True := [1, 2]), pm_todo := [(True, [3]), (False, [4])]\<rparr>"

lemma stderr_full_reached: "reach (pump_init fills_stderr) (pump_step L 2) stderr_full"
proof -
  have "pump_init fills_stderr at_start"
    by (simp add: pump_init_def at_start_def pipe_of_def empty_pipe_def)
  moreover have "program_step 2 at_start (at_start\<lparr>pm_bufs := (pm_bufs at_start)(True := pm_bufs at_start True @ take 2 [1, 2, 3]),
      pm_todo := (True, drop 2 [1, 2, 3]) # [(False, [4])]\<rparr>)"
    by (rule writes) (simp_all add: at_start_def fills_stderr_def)
  ultimately show ?thesis
    by (intro reach_step [OF reach_init]) (auto intro: program simp: stderr_full_def at_start_def)
qed

lemma reading_stdout_first_deadlocks:
  "\<not> (\<exists>s'. program_step 2 stderr_full s') \<and> \<not> readable stderr_full False"
  by (auto simp: stderr_full_def at_start_def readable_def elim: program_step.cases)

theorem output_never_blocks_witness: "\<exists>s'. pump_step linux_libc 2 stderr_full s'"
  using output_never_blocks [OF posix_errnos_linux _ stderr_full_reached]
  by (simp add: drained_def stderr_full_def at_start_def empty_pipe_def)

end
