(* ===== verification/Command_Runs.thy ===== *)
theory Command_Runs
  imports Spawn
begin

text \<open>
  A command from its builder to the program that runs (\<open>src/command.rs\<close>): what \<open>Command::spawn\<close> hands to
  \<open>execve\<close> in the child, which candidate becomes the program, and what that program finds, read the way
  \<open>src/env.rs\<close> reads its own arguments and environment. Which files can be executed is a parameter,
  \<open>runs\<close>, as are the environment of this process and the choices of the theory Spawn.
\<close>

section \<open>The child at \<open>execve\<close>\<close>

text \<open>A program as \<open>execve\<close> starts it.\<close>

record image =
  im_path :: bytes
  im_argv :: "bytes list"
  im_envp :: "bytes list"
  im_files :: "nat \<Rightarrow> open_file option"

datatype fate = Exits nat | Runs image

text \<open>The candidates in turn; \<open>execve\<close> comes back only when it has failed.\<close>

fun exec_tries :: "(bytes \<Rightarrow> bool) \<Rightarrow> bytes list \<Rightarrow> bytes list \<Rightarrow> open_file table \<Rightarrow> bytes list \<Rightarrow> fate" where
  "exec_tries runs args envp t [] = Exits 127"
| "exec_tries runs args envp t (try_path # tries) =
     (if runs try_path
      then Runs \<lparr>im_path = try_path, im_argv = args, im_envp = envp, im_files = fd_exec t\<rparr>
      else exec_tries runs args envp t tries)"

text \<open>The child's side of \<open>spawn\<close>: the descriptors, then \<open>execve\<close>.\<close>

definition child_side ::
  "open_file chooser \<Rightarrow> (nat \<Rightarrow> bool) \<Rightarrow> (bytes \<Rightarrow> bool) \<Rightarrow> bytes list \<Rightarrow> bytes list \<Rightarrow> bytes list
    \<Rightarrow> pipe \<Rightarrow> pipe \<Rightarrow> open_file table \<Rightarrow> fate"
where
  "child_side pick dup_ok runs tries args envp out errp t =
     (case child_setup pick dup_ok (nat (pipe_write out)) (nat (pipe_write errp)) t of
        None \<Rightarrow> Exits 127
      | Some t' \<Rightarrow> exec_tries runs args envp t' tries)"

text \<open>\<open>spawn\<close> on a command: what the parent gets, and what becomes of the child there is. Everything the
  child uses is built before the \<open>fork\<close>.\<close>

definition command_spawn ::
  "open_file chooser \<Rightarrow> (nat \<Rightarrow> bool) \<Rightarrow> (bytes \<Rightarrow> bool) \<Rightarrow> 'e getenv \<Rightarrow> 'e \<Rightarrow> bytes list \<Rightarrow> int option
    \<Rightarrow> command \<Rightarrow> open_file table \<Rightarrow> (child option \<times> open_file table) \<times> fate option"
where
  "command_spawn pick dup_ok runs getenv e inherited forked c t =
     (let tries = candidates getenv e (cmd_program c) in
      (spawn pick tries forked t,
       case pipe_new pick 0 t of
         None \<Rightarrow> None
       | Some (out, t1) \<Rightarrow>
           (case pipe_new pick 1 t1 of
              None \<Rightarrow> None
            | Some (errp, t2) \<Rightarrow>
                if tries = [] \<or> forked = None then None
                else Some (child_side pick dup_ok runs tries (argv c) (environment inherited c) out errp t2))))"

text \<open>A command as a caller builds it: the program, then its arguments, then its variables.\<close>

definition built :: "path \<Rightarrow> bytes list \<Rightarrow> (bytes \<times> bytes) list \<Rightarrow> command" where
  "built program as kvs = foldl (\<lambda>c (k, v). cmd_env c k v) (cmd_add_args (command_new program) as) kvs"

text \<open>A vector of C strings, as the system hands it to a program: pointers, and a null one.\<close>

definition vector :: "bytes list \<Rightarrow> bytes option list option" where
  "vector bufs = Some (map Some bufs @ [None])"

section \<open>What the program finds\<close>

lemma built_fields:
  "cmd_program (built program as kvs) = program"
  "cmd_args (built program as kvs) = as"
  "cmd_overrides (built program as kvs) = map entry_of kvs"
proof -
  have args: "cmd_args (cmd_add_args c as) = cmd_args c @ as \<and> cmd_program (cmd_add_args c as) = cmd_program c
      \<and> cmd_overrides (cmd_add_args c as) = cmd_overrides c" for c
    by (induction as arbitrary: c) simp_all
  have env: "cmd_program (foldl (\<lambda>c (k, v). cmd_env c k v) c kvs) = cmd_program c
      \<and> cmd_args (foldl (\<lambda>c (k, v). cmd_env c k v) c kvs) = cmd_args c" for c
    by (induction kvs arbitrary: c) (auto simp: cmd_env_def)
  show "cmd_program (built program as kvs) = program" "cmd_args (built program as kvs) = as"
    "cmd_overrides (built program as kvs) = map entry_of kvs"
    using args [of "command_new program"] env [of "cmd_add_args (command_new program) as"]
      cmd_env_overrides [of "cmd_add_args (command_new program) as" kvs]
    by (simp_all add: built_def command_new_def)
qed

lemma exec_tries_first:
  "exec_tries runs args envp t tries =
     (case find runs tries of
        None \<Rightarrow> Exits 127
      | Some p \<Rightarrow> Runs \<lparr>im_path = p, im_argv = args, im_envp = envp, im_files = fd_exec t\<rparr>)"
  by (induction tries) simp_all

lemma read_c_no_nul: "read_c buf = Some s \<Longrightarrow> NUL \<notin> set s"
  by (auto simp: read_c_c_string c_string_def split: if_splits dest: set_takeWhileD)

lemma environ_loop_no_nul: "environ_loop ps = Some es \<Longrightarrow> \<forall>s \<in> set es. NUL \<notin> set s"
proof (induction ps arbitrary: es rule: environ_loop.induct)
  case (3 p ps)
  then obtain s es' where s: "read_c p = Some s" "environ_loop ps = Some es'" "es = s # es'"
    by (auto split: option.splits)
  with 3(1) [OF s(1,2)] read_c_no_nul [OF s(1)] show ?case by simp
qed simp_all

lemma environ_no_nul: "environ envp = Some es \<Longrightarrow> \<forall>s \<in> set es. NUL \<notin> set s"
  by (cases envp) (auto simp: environ_def dest: environ_loop_no_nul)

lemma overrides_subset: "set (apply_overrides es overrides) \<subseteq> set es \<union> set overrides"
  by (induction es overrides rule: apply_overrides.induct) auto

lemma vector_args:
  assumes "\<forall>s \<in> set strs. NUL \<notin> set s"
  shows "args_macos (int (length strs)) (vector (map nul_terminated strs)) = Some strs"
  using args_entries [of strs "[]" "[None]"] assms
  by (simp add: args_macos_def vector_def nul_terminated_def comp_def)

lemma vector_environ:
  assumes "\<forall>s \<in> set strs. NUL \<notin> set s"
  shows "environ (vector (map nul_terminated strs)) = Some strs"
  using environ_entries [of strs "[]" "[]"] assms
  by (simp add: environ_def vector_def nul_terminated_def comp_def)

section \<open>Properties\<close>

text \<open>C14 (functional). What runs when a command has been built and spawned, wherever this process got its
  environment from: the first of the candidates that can be executed, or, when none can or a descriptor
  could not be set up, an exit with 127; a program that reads its arguments and environment as \<open>env.rs\<close>
  does finds the program's name and the arguments given to the builder, in order, and an environment in
  which each key set with \<open>env\<close> has its last value and every other key what this process has; its
  standard streams are \<open>/dev/null\<close> and the two pipes, and above them it has what this process had open
  for it and nothing else.\<close>

theorem command_runs_as_built:
  assumes "descriptors pick"
    and "NUL \<notin> set program" "\<forall>a \<in> set as. NUL \<notin> set a"
    and "\<forall>(k, v) \<in> set kvs. NUL \<notin> set k \<and> NUL \<notin> set v \<and> EQUALS \<notin> set k"
    and "environ ptrs = Some inherited"
    and "command_spawn pick dup_ok runs getenv e inherited forked (built program as kvs) t = ((Some ch, t'), fate)"
  shows "case fate of
      None \<Rightarrow> False
    | Some (Exits code) \<Rightarrow> code = 127
    | Some (Runs im) \<Rightarrow>
        find runs (candidates getenv e program) = Some (im_path im)
        \<and> args_macos (int (length (im_argv im))) (vector (im_argv im)) = Some (program # as)
        \<and> (\<exists>es. environ (vector (im_envp im)) = Some es
            \<and> (\<forall>k. EQUALS \<notin> set k \<longrightarrow> entries_for k es =
                 (case map_of (rev kvs) k of Some v \<Rightarrow> [(k @ [EQUALS]) @ v] | None \<Rightarrow> entries_for k inherited)))
        \<and> im_files im 0 = Some Null_Device \<and> im_files im 1 = Some (Write_End 0)
        \<and> im_files im 2 = Some (Write_End 1) \<and> (\<forall>fd > 2. im_files im fd = fd_exec t fd)"
proof -
  let ?c = "built program as kvs" and ?es = "apply_overrides inherited (map entry_of kvs)"
  let ?tries = "candidates getenv e program"
  have sp: "spawn pick ?tries forked t = (Some ch, t')" using assms(6) by (simp add: command_spawn_def built_fields Let_def)
  then obtain out t1 where o: "pipe_new pick 0 t = Some (out, t1)" by (auto simp: spawn_def split: option.splits)
  with sp obtain errp t2 where r: "pipe_new pick 1 t1 = Some (errp, t2)" by (auto simp: spawn_def split: option.splits)
  have ok: "\<not> (?tries = [] \<or> forked = None)"
    using sp o r by (auto simp: spawn_def split: list.splits option.splits)
  have av: "argv ?c = map nul_terminated (program # as)" by (simp add: argv_def built_fields)
  have ev: "environment inherited ?c = map nul_terminated ?es" by (simp add: environment_def built_fields)
  have fate: "fate = Some (child_side pick dup_ok runs ?tries (argv ?c) (environment inherited ?c) out errp t2)"
    using assms(6) sp o r ok by (auto simp: command_spawn_def built_fields Let_def)
  have as: "\<forall>s \<in> set (program # as). NUL \<notin> set s" using assms(2,3) by simp
  have es: "\<forall>s \<in> set ?es. NUL \<notin> set s"
    using overrides_subset [of inherited "map entry_of kvs"] environ_no_nul [OF assms(5)] assms(4)
    by (fastforce simp: entry_of_def)
  have keys: "\<forall>kv \<in> set kvs. EQUALS \<notin> set (fst kv)" using assms(4) by auto
  show ?thesis
  proof (cases "child_setup pick dup_ok (nat (pipe_write out)) (nat (pipe_write errp)) t2")
    case None
    with fate show ?thesis by (simp add: child_side_def)
  next
    case (Some t3)
    note files = spawned_streams [OF assms(1) o r Some]
    show ?thesis
      using fate Some files vector_args [OF as] vector_environ [OF es] apply_overrides_entries [OF keys, of _ inherited]
      by (simp add: child_side_def exec_tries_first av ev entry_of_def split: option.split)
  qed
qed

text \<open>A shell with one argument and one variable, set twice, from a process without standard output.\<close>

theorem command_runs_as_built_witness:
  "\<exists>im. snd (command_spawn first_free (\<lambda>_. True) (\<lambda>_. True) (\<lambda>_ _. None) () [bstr ''A=0''] (Some 100)
       (built (bstr ''/sh'') [bstr ''-c''] [(bstr ''A'', bstr ''1''), (bstr ''A'', bstr ''2'')]) daemon_table) = Some (Runs im)
     \<and> args_macos (int (length (im_argv im))) (vector (im_argv im)) = Some [bstr ''/sh'', bstr ''-c'']
     \<and> im_files im 1 = Some (Write_End 0)"
proof -
  let ?kvs = "[(bstr ''A'', bstr ''1''), (bstr ''A'', bstr ''2'')]"
  let ?run = "command_spawn first_free (\<lambda>_. True) (\<lambda>_. True) (\<lambda>_ _. None) () [bstr ''A=0''] (Some 100)
     (built (bstr ''/sh'') [bstr ''-c''] ?kvs) daemon_table"
  have cand: "candidates (\<lambda>_ _. None) () (bstr ''/sh'') = [nul_terminated (bstr ''/sh'')]"
    by (simp add: candidates_def bstr_def)
  obtain u where u: "child_setup first_free (\<lambda>_. True) 2 4 daemon_two_pipes = Some u" using daemon_child by blast
  have "\<exists>ch t'. spawn first_free [nul_terminated (bstr ''/sh'')] (Some 100) daemon_table = (Some ch, t')"
    using daemon_pipes by (simp add: spawn_def Let_def split: prod.split)
  moreover have "\<exists>im. child_side first_free (\<lambda>_. True) (\<lambda>_. True) [nul_terminated (bstr ''/sh'')] args envp
      (fresh_pipe 1 2) (fresh_pipe 3 4) daemon_two_pipes = Runs im" for args envp
    using u by (simp add: child_side_def)
  ultimately obtain ch t' im where run: "?run = ((Some ch, t'), Some (Runs im))"
    using daemon_pipes unfolding command_spawn_def built_fields cand Let_def by fastforce
  have "environ (Some [Some (bstr ''A=0'' @ [0]), None]) = Some [bstr ''A=0'']" by code_simp
  moreover have "NUL \<notin> set (bstr ''/sh'')" "\<forall>a \<in> set [bstr ''-c'']. NUL \<notin> set a"
    "\<forall>(k, v) \<in> set ?kvs. NUL \<notin> set k \<and> NUL \<notin> set v \<and> EQUALS \<notin> set k" by code_simp+
  ultimately show ?thesis
    using command_runs_as_built [OF first_free.descriptors_axioms _ _ _ _ run] run by auto
qed

end
