(* ===== verification/Pid_Files.thy ===== *)
theory Pid_Files
  imports Errors Descriptors
begin

text \<open>
  The parts of \<open>src/daemonize.rs\<close> that a daemon runs on its own: its errors, the decimal text of a pid
  built backwards in a buffer of 24 bytes, the pid file with its lock, contended for by any number
  of processes, and the redirection of the standard streams. What a system call returns, and the
  \<open>errno\<close> it leaves, are arguments; the lock is granted as \<open>flock\<close> documents: to one open file at a
  time, until the process that holds it ends.
\<close>

section \<open>Errors\<close>

datatype daemonize_error =
    Pipe_Failed errno | Fork_Failed errno | SetSid errno | Chdir errno | DevNull errno
  | PidFileLocked | PidFile errno

definition display_daemonize_error :: "(errno \<Rightarrow> int \<times> bytes) \<Rightarrow> daemonize_error \<Rightarrow> bytes" where
  "display_daemonize_error strerror_r failed =
     (case failed of
        Pipe_Failed e \<Rightarrow> bstr ''could not open the readiness pipe: '' @ display_errno strerror_r e
      | Fork_Failed e \<Rightarrow> bstr ''could not fork: '' @ display_errno strerror_r e
      | SetSid e \<Rightarrow> bstr ''could not start a new session: '' @ display_errno strerror_r e
      | Chdir e \<Rightarrow> bstr ''could not change to /: '' @ display_errno strerror_r e
      | DevNull e \<Rightarrow> bstr ''could not redirect to /dev/null: '' @ display_errno strerror_r e
      | PidFileLocked \<Rightarrow> bstr ''another server holds the pid file; stop it first''
      | PidFile e \<Rightarrow> bstr ''could not write the pid file: '' @ display_errno strerror_r e)"

section \<open>The text of a pid\<close>

type_synonym pid = "32 word"

text \<open>The loop: the digits go in from the end of the buffer; an index out of the buffer is a panic, \<open>None\<close>.\<close>

fun pid_digits :: "nat \<Rightarrow> nat \<Rightarrow> bytes \<Rightarrow> (nat \<times> bytes) option" where
  "pid_digits n i buf =
     (if n = 0 then Some (i, buf)
      else if i = 0 \<or> length buf < i then None
      else pid_digits (n div 10) (i - 1) (buf[i - 1 := 48 + of_nat (n mod 10)]))"

declare pid_digits.simps [simp del]

lemma pid_digits_0 [simp]: "pid_digits 0 i buf = Some (i, buf)"
  by (subst pid_digits.simps) simp

definition format_pid :: "pid \<Rightarrow> bytes option" where
  "format_pid pid =
     (let n = (if sint pid < 0 then 0 else nat (sint pid));
          buf = replicate 24 0;
          i = length buf;
          (i, buf) = (if n = 0 then (i - 1, buf[i - 1 := 48]) else (i, buf)) in
      case pid_digits n i buf of
        None \<Rightarrow> None
      | Some (i, buf) \<Rightarrow>
          (let buf = buf[length buf - 1 := buf ! (length buf - 1)] in Some (drop i buf)))"

lemma digits_length: "n < 10 ^ Suc k \<Longrightarrow> length (dec_nat n) \<le> Suc k"
proof (induction k arbitrary: n)
  case 0
  then show ?case by (subst dec_nat.simps) simp
next
  case (Suc k)
  show ?case
  proof (cases "n < 10")
    case True
    then show ?thesis by (subst dec_nat.simps) simp
  next
    case False
    have "n div 10 < 10 ^ Suc k" using Suc.prems by (simp add: less_mult_imp_div_less mult.commute)
    from Suc.IH [OF this] False show ?thesis by (subst dec_nat.simps) simp
  qed
qed

text \<open>While the digits fit below \<open>i\<close>, the loop writes them there and nothing else.\<close>

lemma pid_digits_text:
  "0 < n \<Longrightarrow> length (dec_nat n) \<le> i \<Longrightarrow> i \<le> length buf \<Longrightarrow>
    pid_digits n i buf =
      Some (i - length (dec_nat n), take (i - length (dec_nat n)) buf @ dec_nat n @ drop i buf)"
proof (induction n arbitrary: i buf rule: less_induct)
  case (less n)
  let ?d = "48 + of_nat (n mod 10) :: u8"
  have i: "0 < i" using less.prems(2) dec_nat_length [of n] by (cases i) auto
  have upd: "take (i - 1) buf @ ?d # drop i buf = buf[i - 1 := ?d]"
    using i less.prems(3) by (simp add: upd_conv_take_nth_drop)
  show ?case
  proof (cases "n < 10")
    case True
    then have "dec_nat n = [?d]" by (subst dec_nat.simps) simp
    then show ?thesis using less.prems i True upd
      by (subst pid_digits.simps) auto
  next
    case False
    then have d: "dec_nat n = dec_nat (n div 10) @ [?d]" by (subst dec_nat.simps) simp
    let ?buf = "buf[i - 1 := ?d]"
    have "pid_digits (n div 10) (i - 1) ?buf =
        Some (i - 1 - length (dec_nat (n div 10)),
              take (i - 1 - length (dec_nat (n div 10))) ?buf @ dec_nat (n div 10) @ drop (i - 1) ?buf)"
      using False less.prems i d by (intro less.IH) auto
    moreover have "drop (i - 1) ?buf = ?d # drop i buf"
      using i less.prems(3) Cons_nth_drop_Suc [of "i - 1" ?buf] by simp
    ultimately show ?thesis using less.prems i d
      by (subst pid_digits.simps) auto
  qed
qed

lemma format_pid_text: "format_pid pid = Some (dec_nat (nat (sint pid)))"
proof (cases "nat (sint pid) = 0")
  case True
  then have "sint pid \<le> 0" by simp
  moreover have "dec_nat 0 = [48]" by (subst dec_nat.simps) simp
  moreover have "drop 23 ((replicate 24 0)[23 := 48]) = [48 :: u8]"
    by (simp add: upd_conv_take_nth_drop)
  ultimately show ?thesis using True
    by (simp add: format_pid_def Let_def)
next
  case False
  let ?n = "nat (sint pid)"
  have "sint pid < 2 ^ 31" using sint_lt [of pid] by simp
  then have "?n < 10 ^ Suc 23" by simp
  note len = digits_length [OF this]
  have "pid_digits ?n 24 (replicate 24 0) =
      Some (24 - length (dec_nat ?n), take (24 - length (dec_nat ?n)) (replicate 24 0) @ dec_nat ?n)"
    using False len pid_digits_text [of ?n 24 "replicate 24 0"] by simp
  then show ?thesis using False by (simp add: format_pid_def Let_def)
qed

section \<open>The pid file\<close>

text \<open>
  Where a process is in \<open>write_pid_file\<close>: before the \<open>open\<close>; with the file open; with its lock; with the
  file emptied; returned with \<open>Ok\<close>, having written so many bytes; refused with an error, without the
  lock, or (the descriptor is not closed there) with it; ended.
\<close>

datatype pid_place =
    Not_Opened | Opened | Locked | Emptied | Claimed nat
  | Refused daemonize_error | Stuck daemonize_error | Ended

record pid_system =
  pf_content :: "bytes option"
  pf_lock :: "pid option"
  pf_place :: "pid \<Rightarrow> pid_place"

definition pid_at :: "pid \<Rightarrow> pid_place \<Rightarrow> pid_system \<Rightarrow> pid_system" where
  "pid_at p x s = s\<lparr>pf_place := (pf_place s)(p := x)\<rparr>"

text \<open>The process ends, for whatever reason; the system closes its files and frees the lock.\<close>

definition pid_ends :: "pid \<Rightarrow> pid_system \<Rightarrow> pid_system" where
  "pid_ends p s = (pid_at p Ended s)\<lparr>pf_lock := (if pf_lock s = Some p then None else pf_lock s)\<rparr>"

text \<open>The next call of \<open>write_pid_file\<close> in the process \<open>p\<close>, which returns \<open>r\<close>, with \<open>e\<close> in \<open>errno\<close>: \<open>open\<close>
  without \<open>O_TRUNC\<close>, \<open>flock\<close>, \<open>ftruncate\<close>, \<open>write\<close> at the start of the file.\<close>

definition write_pid_file :: "pid \<Rightarrow> int \<Rightarrow> errno \<Rightarrow> pid_system \<Rightarrow> pid_system" where
  "write_pid_file p r e s =
     (case pf_place s p of
        Not_Opened \<Rightarrow>
          (case checked e r of
             Inl e \<Rightarrow> pid_at p (Refused (PidFile e)) s
           | Inr fd \<Rightarrow> (pid_at p Opened s)
               \<lparr>pf_content := Some (case pf_content s of None \<Rightarrow> [] | Some c \<Rightarrow> c)\<rparr>)
      | Opened \<Rightarrow>
          if r = -1 then pid_at p (Refused PidFileLocked) s
          else (pid_at p Locked s)\<lparr>pf_lock := Some p\<rparr>
      | Locked \<Rightarrow>
          (case checked e r of
             Inl e \<Rightarrow> pid_at p (Stuck (PidFile e)) s
           | Inr _ \<Rightarrow> (pid_at p Emptied s)\<lparr>pf_content := Some []\<rparr>)
      | Emptied \<Rightarrow>
          (case format_pid p of
             None \<Rightarrow> pid_ends p s
           | Some text \<Rightarrow>
               if r < 0 then pid_at p (Stuck (PidFile e)) s
               else (pid_at p (Claimed (nat r)) s)
                 \<lparr>pf_content := map_option (\<lambda>old. take (nat r) text @ drop (nat r) old) (pf_content s)\<rparr>)
      | _ \<Rightarrow> s)"

text \<open>What the system does: the lock is granted when nobody has it, a write takes at most what it is
  given, and a pid may be used again.\<close>

inductive pid_step :: "pid_system \<Rightarrow> pid_system \<Rightarrow> bool" where
  opens: "pf_place s p = Not_Opened \<Longrightarrow> pid_step s (write_pid_file p r e s)"
| locks: "pf_place s p = Opened \<Longrightarrow> r = -1 \<or> pf_lock s = None \<Longrightarrow> pid_step s (write_pid_file p r e s)"
| empties: "pf_place s p = Locked \<Longrightarrow> pid_step s (write_pid_file p r e s)"
| writes: "pf_place s p = Emptied \<Longrightarrow> pid_step s (write_pid_file p r e s)"
| ends: "pid_step s (pid_ends p s)"
| starts: "pf_place s p = Ended \<Longrightarrow> pid_step s (pid_at p Not_Opened s)"

inductive_simps pid_step_simps: "pid_step s t"

definition pid_init :: "pid_system \<Rightarrow> bool" where
  "pid_init s \<longleftrightarrow> pf_lock s = None \<and> (\<forall>p. pf_place s p = Not_Opened)"

fun has_lock :: "pid_place \<Rightarrow> bool" where
  "has_lock Locked = True" | "has_lock Emptied = True" | "has_lock (Claimed _) = True"
| "has_lock (Stuck _) = True" | "has_lock _ = False"

text \<open>The invariant: the lock is with the process that is past \<open>flock\<close>, and it alone says what the file
  holds.\<close>

fun content_ok :: "pid \<Rightarrow> pid_place \<Rightarrow> bytes option \<Rightarrow> bool" where
  "content_ok p Emptied c = (c = Some [])"
| "content_ok p (Claimed n) c = (c = Some (take n (dec_nat (nat (sint p)))))"
| "content_ok p Opened c = (c \<noteq> None)"
| "content_ok p Locked c = (c \<noteq> None)"
| "content_ok p _ c = True"

definition pid_inv :: "pid_system \<Rightarrow> bool" where
  "pid_inv s \<longleftrightarrow>
     (\<forall>p. has_lock (pf_place s p) \<longleftrightarrow> pf_lock s = Some p)
     \<and> (\<forall>p. content_ok p (pf_place s p) (pf_content s))"

lemma pid_at_simps [simp]:
  "pf_place (pid_at p x s) = (pf_place s)(p := x)" "pf_content (pid_at p x s) = pf_content s"
  "pf_lock (pid_at p x s) = pf_lock s"
  by (simp_all add: pid_at_def)

lemma content_ok_other:
  assumes "pid_inv s" "q \<noteq> p"
    and "c = pf_content s \<or> pf_lock s = Some p \<and> c \<noteq> None \<or> pf_content s = None \<and> c \<noteq> None"
  shows "content_ok q (pf_place s q) c"
proof -
  have lock: "has_lock (pf_place s q) \<longleftrightarrow> pf_lock s = Some q"
    and cont: "content_ok q (pf_place s q) (pf_content s)"
    using assms(1) by (simp_all add: pid_inv_def)
  show ?thesis using lock cont assms(2,3) by (cases "pf_place s q") auto
qed

lemma pid_inv_move:
  assumes "pid_inv s" "content_ok p x (pf_content t)"
    and "pf_place t = (pf_place s)(p := x)"
    and "pf_lock t = (if has_lock x then Some p else if pf_lock s = Some p then None else pf_lock s)"
    and "has_lock x \<longrightarrow> pf_lock s = None \<or> pf_lock s = Some p"
    and "pf_content t = pf_content s \<or> pf_lock s = Some p \<and> pf_content t \<noteq> None
      \<or> pf_content s = None \<and> pf_content t \<noteq> None"
  shows "pid_inv t"
proof -
  have "has_lock (pf_place t q) \<longleftrightarrow> pf_lock t = Some q" for q
  proof (cases "q = p")
    case True
    then show ?thesis using assms(3,4) by auto
  next
    case False
    moreover have "has_lock (pf_place s q) \<longleftrightarrow> pf_lock s = Some q"
      using assms(1) by (simp add: pid_inv_def)
    ultimately show ?thesis using assms(3-5) by (cases "has_lock x") auto
  qed
  moreover have "content_ok q (pf_place t q) (pf_content t)" for q
    using content_ok_other [OF assms(1) _ assms(6), of q] assms(2,3) by (cases "q = p") auto
  ultimately show ?thesis by (simp add: pid_inv_def)
qed

lemma pid_inv_at:
  assumes "pid_inv s"
  shows "has_lock (pf_place s p) \<longleftrightarrow> pf_lock s = Some p" "content_ok p (pf_place s p) (pf_content s)"
  using assms by (simp_all add: pid_inv_def)

lemma pid_inv_step:
  assumes "pid_inv s" "pid_step s t"
  shows "pid_inv t"
  using assms(2)
proof cases
  case (opens p r e)
  show ?thesis
  proof (cases "r = -1")
    case True
    with opens pid_inv_at [OF assms(1), of p] show ?thesis
      by (intro pid_inv_move [OF assms(1), of p "Refused (PidFile e)"])
         (auto simp: write_pid_file_def checked_def)
  next
    case False
    with opens pid_inv_at [OF assms(1), of p] show ?thesis
      by (intro pid_inv_move [OF assms(1), of p Opened])
         (auto simp: write_pid_file_def checked_def split: option.splits)
  qed
next
  case (locks p r e)
  with pid_inv_at [OF assms(1), of p] show ?thesis
    by (cases "r = -1"; intro pid_inv_move [OF assms(1), of p "if r = -1 then Refused PidFileLocked else Locked"])
       (auto simp: write_pid_file_def)
next
  case (empties p r e)
  with pid_inv_at [OF assms(1), of p] show ?thesis
    by (cases "r = -1"; intro pid_inv_move [OF assms(1), of p "if r = -1 then Stuck (PidFile e) else Emptied"])
       (auto simp: write_pid_file_def checked_def)
next
  case (writes p r e)
  with pid_inv_at [OF assms(1), of p] show ?thesis
    by (cases "r < 0"; intro pid_inv_move [OF assms(1), of p "if r < 0 then Stuck (PidFile e) else Claimed (nat r)"])
       (auto simp: write_pid_file_def format_pid_text)
next
  case (ends p)
  with pid_inv_at [OF assms(1), of p] show ?thesis
    by (intro pid_inv_move [OF assms(1), of p Ended]) (auto simp: pid_ends_def)
next
  case (starts p)
  with pid_inv_at [OF assms(1), of p] show ?thesis
    by (intro pid_inv_move [OF assms(1), of p Not_Opened]) auto
qed

interpretation pid_files: transition_system pid_init pid_step pid_inv
proof unfold_locales
  fix s
  assume "pid_init s"
  then show "pid_inv s" by (auto simp: pid_init_def pid_inv_def)
qed (rule pid_inv_step)

section \<open>The standard streams\<close>

text \<open>\<open>redirect_standard_streams\<close> on the descriptor table, with \<open>null\<close> for \<open>/dev/null\<close>; \<open>pick\<close> chooses the
  new descriptor, \<open>dup_ok\<close> says whether the \<open>dup2\<close> onto a descriptor succeeds, \<open>e\<close> is the \<open>errno\<close>
  of the call that fails.\<close>

fun redirect_loop :: "(nat \<Rightarrow> bool) \<Rightarrow> nat \<Rightarrow> nat list \<Rightarrow> 'f table \<Rightarrow> bool \<times> 'f table" where
  "redirect_loop dup_ok devnull [] t = (True, t)"
| "redirect_loop dup_ok devnull (fd # fds) t =
     (if dup_ok fd then redirect_loop dup_ok devnull fds (fd_dup2 t devnull fd) else (False, t))"

definition redirect_standard_streams ::
  "'f chooser \<Rightarrow> (nat \<Rightarrow> bool) \<Rightarrow> errno \<Rightarrow> 'f \<Rightarrow> 'f table \<Rightarrow> (daemonize_error + unit) \<times> 'f table"
where
  "redirect_standard_streams pick dup_ok e null t =
     (case pick t 0 of
        None \<Rightarrow> (Err (DevNull e), t)
      | Some devnull \<Rightarrow>
          (case redirect_loop dup_ok devnull [0, 1, 2] (fd_open t devnull null False) of
             (False, t) \<Rightarrow> (Err (DevNull e), t)
           | (True, t) \<Rightarrow> (Ok (), if devnull > 2 then fd_close t devnull else t)))"

section \<open>Properties\<close>

text \<open>C38 (bounds). The text of a pid is its decimal representation, for every 32-bit value: the loop that
  fills the buffer from its end never runs out of its 24 bytes, and zero is not lost. A negative
  pid is written as zero.\<close>

theorem format_pid_is_decimal:
  "format_pid pid = Some (dec_nat (nat (sint pid))) \<and> length (dec_nat (nat (sint pid))) \<le> 10"
proof -
  have "sint pid < 2 ^ 31" using sint_lt [of pid] by simp
  then have "nat (sint pid) < 10 ^ Suc 9" by simp
  from digits_length [OF this] show ?thesis by (simp add: format_pid_text)
qed

text \<open>C17 (safety). Of the processes that use one pid file, however their calls interleave and wherever they
  die, at most one is running with an \<open>Ok\<close> from \<open>write_pid_file\<close>, and the file then holds its pid, as
  far as its \<open>write\<close> went; a process that is refused, or is still waiting for the lock, has changed
  nothing in it.\<close>

theorem pid_file_has_one_owner:
  assumes "reach pid_init pid_step s" and "pf_place s p = Claimed n"
  shows "pf_content s = Some (take n (dec_nat (nat (sint p))))
    \<and> (\<forall>q m. pf_place s q = Claimed m \<longrightarrow> q = p)
    \<and> (\<forall>q r e. q \<noteq> p \<longrightarrow> pf_content (write_pid_file q r e s) = pf_content s)"
proof -
  have inv: "pid_inv s" by (rule pid_files.reachable_inv [OF assms(1)])
  note at = pid_inv_at [OF inv]
  have c: "pf_content s = Some (take n (dec_nat (nat (sint p))))" and l: "pf_lock s = Some p"
    using at [of p] assms(2) by auto
  have "pf_content (write_pid_file q r e s) = pf_content s" if "q \<noteq> p" for q r e
    using at(1) [of q] l c that
    by (cases "pf_place s q") (auto simp: write_pid_file_def checked_def)
  moreover have "q = p" if "pf_place s q = Claimed m" for q m using at(1) [of q] l that by simp
  ultimately show ?thesis using c by blast
qed

definition pid_start :: "bytes option \<Rightarrow> pid_system" where
  "pid_start c = \<lparr>pf_content = c, pf_lock = None, pf_place = (\<lambda>_. Not_Opened)\<rparr>"

text \<open>A stale file with a longer pid in it: emptied, then written.\<close>

theorem pid_file_has_one_owner_witness:
  "let s = fold (\<lambda>r. write_pid_file 42 r 0) [3, 0, 0, 2] (pid_start (Some (bstr ''31337'')))
   in pf_place s 42 = Claimed 2 \<and> pf_content s = Some (take 2 (dec_nat 42))"
proof -
  let ?s0 = "pid_start (Some (bstr ''31337''))"
  let ?s1 = "write_pid_file 42 3 0 ?s0"
  let ?s2 = "write_pid_file 42 0 0 ?s1"
  let ?s3 = "write_pid_file 42 0 0 ?s2"
  let ?s4 = "write_pid_file 42 2 0 ?s3"
  note defs = pid_start_def write_pid_file_def checked_def format_pid_text
  have "reach pid_init pid_step ?s0" by (rule reach_init) (simp add: pid_init_def pid_start_def)
  moreover have "pid_step ?s0 ?s1" by (rule opens) (simp add: defs)
  moreover have "pid_step ?s1 ?s2" by (rule locks) (simp_all add: defs)
  moreover have "pid_step ?s2 ?s3" by (rule empties) (simp add: defs)
  moreover have "pid_step ?s3 ?s4" by (rule writes) (simp add: defs)
  ultimately have r: "reach pid_init pid_step ?s4" by (meson reach_step)
  have "pf_place ?s4 42 = Claimed 2" by (simp add: defs)
  with pid_file_has_one_owner [OF r this] show ?thesis by simp
qed

lemma streams_null:
  assumes "descriptors pick" and "redirect_standard_streams pick dup_ok e null t = (Ok (), t')"
  shows "t' 0 = Some (null, False) \<and> t' 1 = Some (null, False) \<and> t' 2 = Some (null, False)
    \<and> (\<forall>fd > 2. t' fd = t fd)"
proof -
  from assms(2) obtain d where d: "pick t 0 = Some d" "dup_ok 0" "dup_ok 1" "dup_ok 2" and
    t': "t' = (let u = fd_dup2 (fd_dup2 (fd_dup2 (fd_open t d null False) d 0) d 1) d 2
               in if 2 < d then fd_close u d else u)"
    by (auto simp: redirect_standard_streams_def split: option.splits prod.splits bool.splits if_splits)
  have "t d = None" by (rule descriptors.pick_free [OF assms(1) d(1)])
  then show ?thesis unfolding t' by (auto simp: Let_def fd_dup2_def fd_open_def fd_close_def)
qed

text \<open>After a successful \<open>redirect_standard_streams\<close> the three standard descriptors are
  \<open>/dev/null\<close>, survive an \<open>exec\<close>, and every other descriptor is what it was: the extra one is
  closed again, and not when it is itself one of the three.\<close>

theorem streams_go_to_null:
  assumes "descriptors pick" and "redirect_standard_streams pick dup_ok e null t = (Ok (), t')"
  shows "t' 0 = Some (null, False) \<and> t' 1 = Some (null, False) \<and> t' 2 = Some (null, False)
    \<and> (\<forall>fd > 2. t' fd = t fd)"
  by (rule streams_null [OF assms])

theorem streams_go_to_null_witness:
  "\<exists>t'. redirect_standard_streams first_free (\<lambda>_. True) 0 True ((\<lambda>_. None)(0 \<mapsto> (False, False))) = (Ok (), t')
     \<and> t' 2 = Some (True, False)"
proof -
  let ?t = "(\<lambda>_. None)(0 \<mapsto> (False, False)) :: bool table"
  have "first_free ?t 0 = Some 1"
    unfolding first_free_def find_Some_iff by (intro exI [of _ 1]) simp
  then obtain t' where r: "redirect_standard_streams first_free (\<lambda>_. True) 0 True ?t = (Ok (), t')"
    by (simp add: redirect_standard_streams_def)
  with streams_go_to_null [OF first_free.descriptors_axioms r] show ?thesis by blast
qed

end
