(* ===== verification/Daemons.thy ===== *)
theory Daemons
  imports Pid_Files
begin

text \<open>
  The readiness protocol of \<open>src/daemonize.rs\<close>: \<open>daemonize\<close> as it runs in the launcher, in the first
  child and in the daemon, and \<open>Ready\<close>. Each process's next call is one operation, given what the call
  returns (\<open>r\<close>, with \<open>e\<close> in \<open>errno\<close>); the step relation interleaves them and says what the system may
  answer. The pipe counts the bytes in it; who holds which end follows from where the processes are.
\<close>

section \<open>Where the processes are\<close>

text \<open>The launcher: before \<open>pipe\<close>; before \<open>fork\<close>; with both ends; with the read end, in the \<open>read\<close>;
  exited; returned with an error, before the pipe was there or (nothing closes it) after.\<close>

datatype launcher_place =
    L_Pipe | L_Fork | L_Both | L_Reading | L_Exited int
  | L_Error daemonize_error | L_Error_Piped daemonize_error

text \<open>The first child: not there; with both ends; before \<open>setsid\<close>; before the second \<open>fork\<close>; exited,
  or returned with an error, its pipe end open.\<close>

datatype first_place = F_None | F_Both | F_SetSid | F_Fork | F_Exited | F_Error daemonize_error

text \<open>The daemon: not there; before \<open>chdir\<close>; before the pid file; before the redirection; returned with
  \<open>Ready\<close>; past \<open>signal\<close>; past the drop of \<open>Ready\<close>; returned with an error, its pipe end open; ended.\<close>

datatype daemon_place =
    D_None | D_Chdir | D_Pid_File | D_Streams | D_Ready | D_Serving | D_Dropped
  | D_Error daemonize_error | D_Ended

record launch =
  launcher :: launcher_place
  first_child :: first_place
  daemon :: daemon_place
  in_pipe :: nat
  got_ready :: bool
  got_interrupted :: bool

fun launcher_writes :: "launcher_place \<Rightarrow> bool" where
  "launcher_writes L_Fork = True" | "launcher_writes L_Both = True"
| "launcher_writes (L_Error_Piped _) = True" | "launcher_writes _ = False"

fun launcher_reads :: "launcher_place \<Rightarrow> bool" where
  "launcher_reads L_Reading = True" | "launcher_reads p = launcher_writes p"

fun first_writes :: "first_place \<Rightarrow> bool" where
  "first_writes F_None = False" | "first_writes F_Exited = False" | "first_writes _ = True"

fun daemon_writes :: "daemon_place \<Rightarrow> bool" where
  "daemon_writes D_None = False" | "daemon_writes D_Serving = False"
| "daemon_writes D_Dropped = False" | "daemon_writes D_Ended = False" | "daemon_writes _ = True"

definition write_held :: "launch \<Rightarrow> bool" where
  "write_held s \<longleftrightarrow> launcher_writes (launcher s) \<or> first_writes (first_child s) \<or> daemon_writes (daemon s)"

definition read_held :: "launch \<Rightarrow> bool" where
  "read_held s \<longleftrightarrow> launcher_reads (launcher s) \<or> first_child s = F_Both"

section \<open>The operations\<close>

text \<open>\<open>fork\<close>: -1 is an error, 0 the child, anything else the parent.\<close>

datatype forked = Parent | Child

definition fork :: "errno \<Rightarrow> int \<Rightarrow> daemonize_error + forked" where
  "fork e r = (if r = -1 then Err (Fork_Failed e) else if r = 0 then Ok Child else Ok Parent)"

text \<open>\<open>daemonize\<close> in the launcher. Where \<open>fork\<close> gives a child, the child is there as well.\<close>

definition daemonize_launcher :: "int \<Rightarrow> errno \<Rightarrow> launch \<Rightarrow> launch" where
  "daemonize_launcher r e s =
     (case launcher s of
        L_Pipe \<Rightarrow>
          (case checked e r of
             Inl e \<Rightarrow> s\<lparr>launcher := L_Error (Pipe_Failed e)\<rparr>
           | Inr _ \<Rightarrow> s\<lparr>launcher := L_Fork\<rparr>)
      | L_Fork \<Rightarrow>
          (case fork e r of
             Inl er \<Rightarrow> s\<lparr>launcher := L_Error_Piped er\<rparr>
           | Inr _ \<Rightarrow> s\<lparr>launcher := L_Both, first_child := F_Both\<rparr>)
      | L_Both \<Rightarrow> s\<lparr>launcher := L_Reading\<rparr>
      | L_Reading \<Rightarrow>
          s\<lparr>launcher := L_Exited (if r = 1 then 0 else 1),
            in_pipe := (if r = 1 then in_pipe s - 1 else in_pipe s),
            got_interrupted := (r = -1)\<rparr>
      | _ \<Rightarrow> s)"

text \<open>\<open>daemonize\<close> in the first child, up to its \<open>exit(0)\<close>.\<close>

definition daemonize_first :: "int \<Rightarrow> errno \<Rightarrow> launch \<Rightarrow> launch" where
  "daemonize_first r e s =
     (case first_child s of
        F_Both \<Rightarrow> s\<lparr>first_child := F_SetSid\<rparr>
      | F_SetSid \<Rightarrow>
          (case checked e r of
             Inl e \<Rightarrow> s\<lparr>first_child := F_Error (SetSid e)\<rparr>
           | Inr _ \<Rightarrow> s\<lparr>first_child := F_Fork\<rparr>)
      | F_Fork \<Rightarrow>
          (case fork e r of
             Inl er \<Rightarrow> s\<lparr>first_child := F_Error er\<rparr>
           | Inr _ \<Rightarrow> s\<lparr>first_child := F_Exited, daemon := D_Chdir\<rparr>)
      | _ \<Rightarrow> s)"

text \<open>\<open>daemonize\<close> in the daemon, given what \<open>write_pid_file\<close> and \<open>redirect_standard_streams\<close> gave (\<open>Pid_Files\<close>).\<close>

definition daemonize_daemon :: "int \<Rightarrow> errno \<Rightarrow> daemonize_error + unit \<Rightarrow> launch \<Rightarrow> launch" where
  "daemonize_daemon r e answer s =
     (case daemon s of
        D_Chdir \<Rightarrow>
          (case checked e r of
             Inl e \<Rightarrow> s\<lparr>daemon := D_Error (Chdir e)\<rparr>
           | Inr _ \<Rightarrow> s\<lparr>daemon := D_Pid_File\<rparr>)
      | D_Pid_File \<Rightarrow>
          (case answer of Inl er \<Rightarrow> s\<lparr>daemon := D_Error er\<rparr> | Inr _ \<Rightarrow> s\<lparr>daemon := D_Streams\<rparr>)
      | D_Streams \<Rightarrow>
          (case answer of Inl er \<Rightarrow> s\<lparr>daemon := D_Error er\<rparr> | Inr _ \<Rightarrow> s\<lparr>daemon := D_Ready\<rparr>)
      | _ \<Rightarrow> s)"

text \<open>\<open>Ready::signal\<close>: one byte, and the end closed; with nobody left to read, the \<open>write\<close> fails, or the
  signal it raises ends the process unless that is ignored. And the \<open>Drop\<close> of \<open>Ready\<close>.\<close>

definition ready_signal :: "bool \<Rightarrow> launch \<Rightarrow> launch" where
  "ready_signal sigpipe_ignored s =
     (if read_held s then s\<lparr>daemon := D_Serving, in_pipe := in_pipe s + 1, got_ready := True\<rparr>
      else if sigpipe_ignored then s\<lparr>daemon := D_Serving, got_ready := True\<rparr>
      else s\<lparr>daemon := D_Ended\<rparr>)"

definition ready_drop :: "launch \<Rightarrow> launch" where
  "ready_drop s = s\<lparr>daemon := D_Dropped\<rparr>"

section \<open>The steps\<close>

text \<open>The \<open>read\<close> gives a byte when there is one, nothing when no write end is left, and may be interrupted.\<close>

definition read_answer :: "launch \<Rightarrow> int \<Rightarrow> bool" where
  "read_answer s r \<longleftrightarrow> r = -1 \<or> r = 1 \<and> 0 < in_pipe s \<or> r = 0 \<and> in_pipe s = 0 \<and> \<not> write_held s"

text \<open>The calls the program itself makes: no interruption, and no process that ends of its own accord.\<close>

inductive call_step :: "bool \<Rightarrow> launch \<Rightarrow> launch \<Rightarrow> bool" for ign where
  launcher_calls: "launcher s \<in> {L_Pipe, L_Fork, L_Both} \<Longrightarrow> call_step ign s (daemonize_launcher r e s)"
| launcher_reads: "launcher s = L_Reading \<Longrightarrow> read_answer s r \<Longrightarrow> r \<noteq> -1 \<Longrightarrow> call_step ign s (daemonize_launcher r e s)"
| first_calls: "first_child s \<in> {F_Both, F_SetSid, F_Fork} \<Longrightarrow> call_step ign s (daemonize_first r e s)"
| daemon_calls: "daemon s \<in> {D_Chdir, D_Pid_File, D_Streams} \<Longrightarrow> call_step ign s (daemonize_daemon r e a s)"
| daemon_signals: "daemon s = D_Ready \<Longrightarrow> call_step ign s (ready_signal ign s)"
| daemon_drops: "daemon s = D_Ready \<Longrightarrow> call_step ign s (ready_drop s)"

text \<open>With what else may happen: the launcher's \<open>read\<close> is interrupted, a child that came back with an error
  ends when it likes, and a daemon at any time.\<close>

inductive launch_step :: "bool \<Rightarrow> launch \<Rightarrow> launch \<Rightarrow> bool" for ign where
  called: "call_step ign s t \<Longrightarrow> launch_step ign s t"
| launcher_interrupted: "launcher s = L_Reading \<Longrightarrow> launch_step ign s (daemonize_launcher (-1) e s)"
| first_gives_up: "first_child s = F_Error er \<Longrightarrow> launch_step ign s (s\<lparr>first_child := F_Exited\<rparr>)"
| daemon_ends: "daemon s \<notin> {D_None, D_Ended} \<Longrightarrow> launch_step ign s (s\<lparr>daemon := D_Ended\<rparr>)"

lemmas launcher_turn = launcher_calls [THEN called]
lemmas launcher_answered = launcher_reads [THEN called]
lemmas first_turn = first_calls [THEN called]
lemmas daemon_turn = daemon_calls [THEN called]
lemmas daemon_dropped = daemon_drops [THEN called]

text \<open>A child or a daemon whose \<open>daemonize\<close> came back with an error, and which lives on.\<close>

definition came_back :: "launch \<Rightarrow> bool" where
  "came_back s \<longleftrightarrow> (case first_child s of F_Error _ \<Rightarrow> True | _ \<Rightarrow> False) \<or> (case daemon s of D_Error _ \<Rightarrow> True | _ \<Rightarrow> False)"

definition launch_start :: launch where
  "launch_start = \<lparr>launcher = L_Pipe, first_child = F_None, daemon = D_None, in_pipe = 0,
     got_ready = False, got_interrupted = False\<rparr>"

section \<open>The invariant\<close>

definition launch_inv :: "launch \<Rightarrow> bool" where
  "launch_inv s \<longleftrightarrow>
     (launcher s \<in> {L_Both, L_Reading} \<or> (\<exists>n. launcher s = L_Exited n) \<or> first_child s = F_None)
     \<and> (launcher s \<in> {L_Both, L_Reading} \<longrightarrow> first_child s \<noteq> F_None)
     \<and> (daemon s \<noteq> D_None \<longrightarrow> first_child s = F_Exited)
     \<and> (got_ready s \<longrightarrow> daemon s = D_Serving \<or> daemon s = D_Ended)
     \<and> (daemon s = D_Serving \<longrightarrow> got_ready s)
     \<and> (launcher s \<in> {L_Both, L_Reading} \<longrightarrow> in_pipe s = (if got_ready s then 1 else 0))
     \<and> (in_pipe s > 0 \<longrightarrow> got_ready s)
     \<and> (\<forall>n. launcher s = L_Exited n \<longrightarrow>
          n = 0 \<and> got_ready s \<or> n = 1 \<and> (got_interrupted s \<or> \<not> got_ready s \<and> \<not> write_held s))"

lemmas launch_turns = daemonize_launcher_def daemonize_first_def daemonize_daemon_def ready_signal_def
  ready_drop_def checked_def fork_def

lemma first_writes_iff: "first_writes f \<longleftrightarrow> f \<noteq> F_None \<and> f \<noteq> F_Exited"
  by (cases f) auto

lemma daemon_writes_iff: "daemon_writes d \<longleftrightarrow> d \<noteq> D_None \<and> d \<noteq> D_Serving \<and> d \<noteq> D_Dropped \<and> d \<noteq> D_Ended"
  by (cases d) auto

lemmas holders = write_held_def read_held_def first_writes_iff daemon_writes_iff



lemma launch_inv_launcher:
  assumes "launch_inv s" "launcher s \<in> {L_Pipe, L_Fork, L_Both} \<or> launcher s = L_Reading \<and> read_answer s r"
  shows "launch_inv (daemonize_launcher r e s)"
  using assms
  by (cases "launcher s"; simp; cases "daemon s"; cases "got_ready s"; cases "first_child s")
    (auto simp: launch_turns launch_inv_def holders read_answer_def)

lemma launch_inv_first:
  assumes "launch_inv s" "first_child s \<in> {F_Both, F_SetSid, F_Fork}"
  shows "launch_inv (daemonize_first r e s)"
  using assms
  by (cases "first_child s"; simp; cases "daemon s"; cases "got_ready s"; cases "launcher s")
    (auto simp: launch_turns launch_inv_def holders)

lemma launch_inv_daemon:
  assumes "launch_inv s" "daemon s \<in> {D_Chdir, D_Pid_File, D_Streams}"
  shows "launch_inv (daemonize_daemon r e a s)"
  using assms
  by (cases "daemon s"; simp; cases "first_child s"; cases "got_ready s"; cases "launcher s")
    (auto simp: launch_turns launch_inv_def holders split: sum.splits)

lemma launch_inv_ready:
  assumes "launch_inv s" "daemon s = D_Ready"
  shows "launch_inv (ready_signal ign s)" "launch_inv (ready_drop s)"
  using assms
  by (cases "first_child s"; cases "got_ready s"; cases "launcher s";
      auto simp: launch_turns launch_inv_def holders)+

lemma launch_inv_first_ends:
  assumes "launch_inv s" "first_child s = F_Error er"
  shows "launch_inv (s\<lparr>first_child := F_Exited\<rparr>)"
  using assms
  by (cases "got_ready s"; cases "launcher s"; cases "daemon s") (auto simp: launch_inv_def holders)

lemma launch_inv_daemon_ends:
  assumes "launch_inv s" "daemon s \<notin> {D_None, D_Ended}"
  shows "launch_inv (s\<lparr>daemon := D_Ended\<rparr>)"
  using assms
  by (cases "daemon s"; simp; cases "got_ready s"; cases "launcher s"; cases "first_child s")
    (auto simp: launch_inv_def holders)

lemmas launch_inv_moves = launch_inv_launcher launch_inv_first launch_inv_daemon launch_inv_ready
  launch_inv_first_ends launch_inv_daemon_ends

lemma launch_inv_call: "launch_inv s \<Longrightarrow> call_step ign s t \<Longrightarrow> launch_inv t"
  by (erule call_step.cases; simp only:) (rule launch_inv_moves; (assumption | simp))+

lemma launch_inv_step: "launch_inv s \<Longrightarrow> launch_step ign s t \<Longrightarrow> launch_inv t"
  by (erule launch_step.cases; simp only:)
    (erule (1) launch_inv_call, (rule launch_inv_moves; (assumption | simp add: read_answer_def))+)

interpretation launching: transition_system "\<lambda>s. s = launch_start" "launch_step ign" launch_inv for ign
proof unfold_locales
  fix s
  assume "s = launch_start"
  then show "launch_inv s" by (simp add: launch_inv_def launch_start_def)
qed (rule launch_inv_step)

text \<open>What is left to do, at most; every step does some of it.\<close>

fun launcher_rank :: "launcher_place \<Rightarrow> nat" where
  "launcher_rank L_Pipe = 22" | "launcher_rank L_Fork = 21" | "launcher_rank L_Both = 2"
| "launcher_rank L_Reading = 1" | "launcher_rank _ = 0"

fun first_rank :: "first_place \<Rightarrow> nat" where
  "first_rank F_Both = 14" | "first_rank F_SetSid = 13" | "first_rank F_Fork = 12"
| "first_rank (F_Error _) = 1" | "first_rank _ = 0"

fun daemon_rank :: "daemon_place \<Rightarrow> nat" where
  "daemon_rank D_Chdir = 6" | "daemon_rank D_Pid_File = 5" | "daemon_rank D_Streams = 4"
| "daemon_rank D_Ready = 3" | "daemon_rank D_None = 0" | "daemon_rank D_Ended = 0" | "daemon_rank _ = 1"

definition launch_rank :: "launch \<Rightarrow> nat" where
  "launch_rank s = launcher_rank (launcher s) + first_rank (first_child s) + daemon_rank (daemon s)"

lemma launch_inv_absent:
  "launch_inv s \<Longrightarrow> launcher s = L_Fork \<Longrightarrow> first_child s = F_None"
  "launch_inv s \<Longrightarrow> first_child s \<noteq> F_Exited \<Longrightarrow> daemon s = D_None"
  by (simp_all add: launch_inv_def)

lemma launch_inv_byte:
  "launch_inv s \<Longrightarrow> launcher s = L_Reading \<Longrightarrow> in_pipe s = (if got_ready s then 1 else 0)"
  unfolding launch_inv_def by blast

lemma launch_rank_call:
  assumes "launch_inv s" "call_step ign s t"
  shows "launch_rank t < launch_rank s"
  using assms(2)
proof cases
  case (launcher_calls r e)
  with launch_inv_absent(1) [OF assms(1)] show ?thesis
    by (cases "launcher s") (auto simp: launch_rank_def launch_turns)
next
  case (first_calls r e)
  with launch_inv_absent(2) [OF assms(1)] show ?thesis
    by (cases "first_child s") (auto simp: launch_rank_def launch_turns)
next
  case (daemon_calls r e a)
  then show ?thesis by (cases "daemon s") (auto simp: launch_rank_def launch_turns split: sum.splits)
qed (simp_all add: launch_rank_def launch_turns)

lemma launch_rank_step:
  assumes "launch_inv s" "launch_step ign s t"
  shows "launch_rank t < launch_rank s"
  using assms(2)
proof cases
  case called
  with assms(1) show ?thesis by (rule launch_rank_call)
next
  case daemon_ends
  then show ?thesis by (cases "daemon s") (simp_all add: launch_rank_def)
qed (simp_all add: launch_rank_def launch_turns)

text \<open>A launcher in its \<open>read\<close> gets an answer, or one of the others has a call to make, unless what holds
  the write end is a process that came back with an error.\<close>

lemma reading_goes_on:
  assumes "launch_inv s" "launcher s = L_Reading" "\<not> came_back s"
  shows "\<exists>t. call_step ign s t
    \<and> (if write_held s then launcher t = L_Reading else launcher t = L_Exited (if got_ready s then 0 else 1))"
proof (cases "write_held s")
  case True
  then consider "first_child s \<in> {F_Both, F_SetSid, F_Fork}" | "daemon s \<in> {D_Chdir, D_Pid_File, D_Streams}"
    | "daemon s = D_Ready"
    using assms(2, 3) by (cases "first_child s"; cases "daemon s") (auto simp: holders came_back_def)
  then obtain t where "call_step ign s t" "launcher t = launcher s"
  proof cases
    case 1
    have "launcher (daemonize_first (-1) 0 s) = launcher s"
      by (cases "first_child s") (simp_all add: launch_turns)
    with that first_calls [OF 1] show ?thesis by blast
  next
    case 2
    have "launcher (daemonize_daemon (-1) 0 (Ok ()) s) = launcher s"
      by (cases "daemon s") (simp_all add: launch_turns)
    with that daemon_calls [OF 2] show ?thesis by blast
  next
    case 3
    have "launcher (ready_drop s) = launcher s" by (simp add: ready_drop_def)
    with that daemon_drops [OF 3] show ?thesis by blast
  qed
  then show ?thesis using True assms(2) by auto
next
  case False
  let ?r = "if got_ready s then 1 else 0 :: int"
  have "read_answer s ?r" using launch_inv_byte [OF assms(1, 2)] False by (simp add: read_answer_def)
  then have "call_step ign s (daemonize_launcher ?r 0 s)" by (rule launcher_reads [OF assms(2)]) simp
  moreover have "launcher (daemonize_launcher ?r 0 s) = L_Exited (if got_ready s then 0 else 1)"
    using assms(2) by (simp add: launch_turns)
  ultimately show ?thesis using False by auto
qed

text \<open>The end of a process that came back is the end of the last write end.\<close>

lemma end_closes:
  assumes "launch_inv s" "launcher s = L_Reading" "came_back s"
  shows "\<exists>t. launch_step ign s t \<and> launcher t = L_Reading \<and> \<not> write_held t"
proof (cases "first_child s = F_Exited")
  case True
  with assms(3) have "daemon s \<notin> {D_None, D_Ended}" by (auto simp: came_back_def)
  then have "launch_step ign s (s\<lparr>daemon := D_Ended\<rparr>)" by (rule daemon_ends)
  moreover have "\<not> write_held (s\<lparr>daemon := D_Ended\<rparr>)" using True assms(2) by (simp add: holders)
  ultimately show ?thesis using assms(2) by auto
next
  case False
  then have none: "daemon s = D_None" by (rule launch_inv_absent(2) [OF assms(1)])
  with assms(3) obtain er where "first_child s = F_Error er"
    by (auto simp: came_back_def split: first_place.splits)
  then have "launch_step ign s (s\<lparr>first_child := F_Exited\<rparr>)" by (rule first_gives_up)
  moreover have "\<not> write_held (s\<lparr>first_child := F_Exited\<rparr>)" using none assms(2) by (simp add: holders)
  ultimately show ?thesis using assms(2) by auto
qed

lemma ready_gone_closes:
  assumes "launch_inv s" "launcher s = L_Reading" "daemon s \<in> {D_Serving, D_Dropped, D_Ended}"
  shows "\<not> write_held s"
  using assms by (cases "first_child s = F_Exited") (auto simp: holders launch_inv_absent(2))

section \<open>Properties\<close>

text \<open>C8 (safety). The launcher's exit status does not lie: it exits 0 only if the daemon has called
  \<open>signal\<close>; and if it exits 1 without its \<open>read\<close> having been interrupted, no daemon has signalled and
  none can any more, as every write end is closed.\<close>

theorem launcher_reports_readiness:
  assumes "reach (\<lambda>s. s = launch_start) (launch_step ign) s" and "launcher s = L_Exited n"
  shows "n = 0 \<and> got_ready s
    \<or> n = 1 \<and> (got_interrupted s \<or> \<not> got_ready s \<and> \<not> write_held s \<and> daemon s \<noteq> D_Ready \<and> daemon s \<noteq> D_Serving)"
proof -
  have "launch_inv s" by (rule launching.reachable_inv [OF assms(1)])
  then show ?thesis using assms(2) by (auto simp: launch_inv_def holders)
qed


definition at_pid_file :: launch where
  "at_pid_file = launch_start\<lparr>launcher := L_Reading, first_child := F_Exited, daemon := D_Pid_File\<rparr>"

lemma at_pid_file_reached: "reach (\<lambda>s. s = launch_start) (launch_step ign) at_pid_file"
proof -
  let ?reach = "reach (\<lambda>s. s = launch_start) (launch_step ign)"
  let ?s1 = "daemonize_launcher 0 0 launch_start"
  let ?s2 = "daemonize_launcher 7 0 ?s1"
  let ?s3 = "daemonize_launcher 0 0 ?s2"
  let ?s4 = "daemonize_first 0 0 ?s3"
  let ?s5 = "daemonize_first 0 0 ?s4"
  let ?s6 = "daemonize_first 8 0 ?s5"
  let ?s7 = "daemonize_daemon 0 0 (Ok ()) ?s6"
  note defs = launch_start_def launch_turns
  have "?reach launch_start" by (simp add: reach_init)
  then have "?reach ?s1" by (rule reach_step) (rule launcher_turn, simp_all add: defs)
  then have "?reach ?s2" by (rule reach_step) (rule launcher_turn, simp_all add: defs)
  then have "?reach ?s3" by (rule reach_step) (rule launcher_turn, simp_all add: defs)
  then have "?reach ?s4" by (rule reach_step) (rule first_turn, simp_all add: defs)
  then have "?reach ?s5" by (rule reach_step) (rule first_turn, simp_all add: defs)
  then have "?reach ?s6" by (rule reach_step) (rule first_turn, simp_all add: defs)
  then have "?reach ?s7" by (rule reach_step) (rule daemon_turn, simp_all add: defs)
  moreover have "?s7 = at_pid_file" by (simp add: defs at_pid_file_def)
  ultimately show ?thesis by simp
qed

lemma ready_reached:
  "reach (\<lambda>s. s = launch_start) (launch_step ign)
     (daemonize_daemon 0 0 (Ok ()) (daemonize_daemon 0 0 (Ok ()) at_pid_file))"
  by (rule reach_step, rule reach_step, rule at_pid_file_reached)
    (rule daemon_turn, simp add: at_pid_file_def launch_start_def launch_turns)+

text \<open>The witness: the daemon drops its \<open>Ready\<close>, and the launcher exits 1.\<close>

theorem launcher_reports_readiness_witness:
  "let s = daemonize_launcher 0 0 (ready_drop (daemonize_daemon 0 0 (Ok ()) (daemonize_daemon 0 0 (Ok ()) at_pid_file)))
   in launcher s = L_Exited 1 \<and> \<not> got_ready s \<and> \<not> write_held s"
proof -
  let ?s1 = "daemonize_daemon 0 0 (Ok ()) at_pid_file"
  let ?s2 = "daemonize_daemon 0 0 (Ok ()) ?s1"
  let ?s3 = "ready_drop ?s2"
  let ?s4 = "daemonize_launcher 0 0 ?s3"
  note defs = at_pid_file_def launch_start_def launch_turns
  have "reach (\<lambda>s. s = launch_start) (launch_step False) ?s2" by (rule ready_reached)
  then have "reach (\<lambda>s. s = launch_start) (launch_step False) ?s3"
    by (rule reach_step) (rule daemon_dropped, simp_all add: defs)
  then have r: "reach (\<lambda>s. s = launch_start) (launch_step False) ?s4"
    by (rule reach_step) (rule launcher_answered, simp_all add: defs read_answer_def holders)
  have "launcher ?s4 = L_Exited 1" "\<not> got_interrupted ?s4" by (simp_all add: defs)
  with launcher_reports_readiness [OF r this(1)] show ?thesis by simp
qed

text \<open>C9 (liveness). The launcher in its \<open>read\<close> is not left waiting: as long as no process whose \<open>daemonize\<close> came
  back with an error lives on, there is always a call to be made, nobody having to die for it: by the
  first child or the daemon (up to signalling or dropping \<open>Ready\<close>) while a write end is held, and by the
  launcher itself, which exits with the right status, as soon as none is. Past \<open>signal\<close> or the drop of
  \<open>Ready\<close> none is held any more. Where a process did come back with an error, its end closes the last
  one. And every step of any process takes away from what is left to do.\<close>

theorem launcher_is_released:
  assumes "reach (\<lambda>s. s = launch_start) (launch_step ign) s" and "launcher s = L_Reading"
  shows "(came_back s \<or> (\<exists>t. call_step ign s t
      \<and> (if write_held s then launcher t = L_Reading else launcher t = L_Exited (if got_ready s then 0 else 1))))
    \<and> (daemon s \<notin> {D_Serving, D_Dropped, D_Ended} \<or> \<not> write_held s)
    \<and> (\<not> came_back s \<or> (\<exists>t. launch_step ign s t \<and> launcher t = L_Reading \<and> \<not> write_held t))
    \<and> (\<forall>t. launch_step ign s t \<longrightarrow> launch_rank t < launch_rank s)"
proof -
  have inv: "launch_inv s" by (rule launching.reachable_inv [OF assms(1)])
  show ?thesis
    using launch_rank_step [OF inv] reading_goes_on [OF inv assms(2), of ign]
      ready_gone_closes [OF inv assms(2)] end_closes [OF inv assms(2), of ign] by blast
qed

text \<open>The witness: a daemon that dropped its \<open>Ready\<close>, and a launcher that exits 1 for it.\<close>

theorem launcher_is_released_witness:
  "let s = ready_drop (daemonize_daemon 0 0 (Ok ()) (daemonize_daemon 0 0 (Ok ()) at_pid_file))
   in \<not> write_held s \<and> (\<exists>t. call_step False s t \<and> launcher t = L_Exited 1)"
proof -
  let ?s2 = "daemonize_daemon 0 0 (Ok ()) (daemonize_daemon 0 0 (Ok ()) at_pid_file)"
  note defs = at_pid_file_def launch_start_def launch_turns
  have r: "reach (\<lambda>s. s = launch_start) (launch_step False) (ready_drop ?s2)"
    by (rule reach_step, rule ready_reached) (rule daemon_dropped, simp add: defs)
  have at: "launcher (ready_drop ?s2) = L_Reading" "daemon (ready_drop ?s2) = D_Dropped"
    "\<not> came_back (ready_drop ?s2)" "\<not> got_ready (ready_drop ?s2)" by (simp_all add: defs came_back_def)
  with launcher_is_released [OF r at(1)] show ?thesis by (auto simp: Let_def)
qed

text \<open>A daemon refused by the pid file still has its write end open: until the process itself ends, the
  launcher's \<open>read\<close> gets no answer. \<open>Ready\<close>, whose drop is said to close that end, is not there yet.\<close>

lemma failed_daemon_holds_launcher:
  "\<exists>s. reach (\<lambda>s. s = launch_start) (launch_step ign) s \<and> launcher s = L_Reading
     \<and> daemon s = D_Error PidFileLocked \<and> (\<forall>r. read_answer s r \<longleftrightarrow> r = -1)"
proof -
  let ?s = "daemonize_daemon 0 0 (Err PidFileLocked) at_pid_file"
  have "launch_step ign at_pid_file ?s" by (rule daemon_turn) (simp add: at_pid_file_def)
  then have "reach (\<lambda>s. s = launch_start) (launch_step ign) ?s"
    by (rule reach_step [OF at_pid_file_reached])
  moreover have "launcher ?s = L_Reading" "daemon ?s = D_Error PidFileLocked" "\<forall>r. read_answer ?s r \<longleftrightarrow> r = -1"
    by (simp_all add: at_pid_file_def launch_start_def launch_turns read_answer_def holders)
  ultimately show ?thesis by blast
qed

text \<open>A launcher whose \<open>read\<close> is interrupted reports a failure, and the daemon, with nobody left to read its
  byte, is then ended by its own \<open>signal\<close>, unless the process ignores \<open>SIGPIPE\<close>.\<close>

lemma interrupted_launcher_kills_daemon:
  "\<exists>s. reach (\<lambda>s. s = launch_start) (launch_step False) s \<and> launcher s = L_Exited 1
     \<and> daemon s = D_Ready \<and> daemon (ready_signal False s) = D_Ended"
proof -
  let ?s1 = "daemonize_daemon 0 0 (Ok ()) at_pid_file"
  let ?s2 = "daemonize_daemon 0 0 (Ok ()) ?s1"
  let ?s3 = "daemonize_launcher (-1) 0 ?s2"
  note defs = at_pid_file_def launch_start_def launch_turns
  have "reach (\<lambda>s. s = launch_start) (launch_step False) ?s2" by (rule ready_reached)
  then have "reach (\<lambda>s. s = launch_start) (launch_step False) ?s3"
    by (rule reach_step) (rule launcher_interrupted, simp add: defs)
  moreover have "launcher ?s3 = L_Exited 1" "daemon ?s3 = D_Ready" "daemon (ready_signal False ?s3) = D_Ended"
    by (simp_all add: defs read_held_def)
  ultimately show ?thesis by blast
qed

end
