(* ===== verification/Daemon_Files.thy ===== *)
theory Daemon_Files
  imports Daemons Spawn
begin

text \<open>
  The descriptors of a daemon, through all of \<open>daemonize\<close> (\<open>src/daemonize.rs\<close>): the readiness pipe,
  inherited across both forks, the pid file, which stays open for its lock, and the redirection of the
  standard streams; and what a program inherits that the daemon starts with \<open>Command::spawn\<close>
  (\<open>src/command.rs\<close>).
\<close>

section \<open>From the launcher to the daemon\<close>

text \<open>The readiness pipe, numbered 2, opened with \<open>pipe\<close>: neither end is closed across \<open>exec\<close>.\<close>

definition ready_pipe :: "open_file chooser \<Rightarrow> open_file table \<Rightarrow> (nat \<times> nat \<times> open_file table) option" where
  "ready_pipe pick t =
     (case pick t 0 of
        None \<Rightarrow> None
      | Some r \<Rightarrow>
          let t1 = fd_open t r (Read_End 2) False in
          (case pick t1 0 of
             None \<Rightarrow> None
           | Some w \<Rightarrow> Some (r, w, fd_open t1 w (Write_End 2) False)))"

text \<open>The launcher keeps the read end while it waits.\<close>

definition launcher_files :: "open_file chooser \<Rightarrow> open_file table \<Rightarrow> open_file table option" where
  "launcher_files pick t =
     (case ready_pipe pick t of None \<Rightarrow> None | Some (r, w, t1) \<Rightarrow> Some (fd_close t1 w))"

text \<open>\<open>write_pid_file\<close>, as far as descriptors go: \<open>locked\<close> says whether \<open>flock\<close> and \<open>rest\<close> whether what
  follows it succeed.\<close>

definition pid_file_opened ::
  "open_file chooser \<Rightarrow> errno \<Rightarrow> bool \<Rightarrow> bool \<Rightarrow> open_file table \<Rightarrow> (daemonize_error + unit) \<times> open_file table"
where
  "pid_file_opened pick e locked rest t =
     (case pick t 0 of
        None \<Rightarrow> (Err (PidFile e), t)
      | Some fd \<Rightarrow>
          let t1 = fd_open t fd Lock_File False in
          if \<not> locked then (Err PidFileLocked, fd_close t1 fd)
          else if rest then (Ok (), t1) else (Err (PidFile e), t1))"

text \<open>The table of the daemon when \<open>daemonize\<close> returns, with the write end that \<open>Ready\<close> holds; \<open>fork\<close>,
  \<open>setsid\<close> and \<open>chdir\<close> succeed and leave it as it is.\<close>

definition daemon_files ::
  "open_file chooser \<Rightarrow> (nat \<Rightarrow> bool) \<Rightarrow> errno \<Rightarrow> (bool \<times> bool) option \<Rightarrow> open_file table
    \<Rightarrow> (daemonize_error + nat) \<times> open_file table"
where
  "daemon_files pick dup_ok e pid_file t =
     (case ready_pipe pick t of
        None \<Rightarrow> (Err (Pipe_Failed e), t)
      | Some (r, w, t1) \<Rightarrow>
          let t2 = fd_close t1 r in
          (case (case pid_file of
                   None \<Rightarrow> (Ok (), t2)
                 | Some (locked, rest) \<Rightarrow> pid_file_opened pick e locked rest t2) of
             (Inl er, t3) \<Rightarrow> (Err er, t3)
           | (Inr _, t3) \<Rightarrow>
               (case redirect_standard_streams pick dup_ok e Null_Device t3 of
                  (Inl er, t4) \<Rightarrow> (Err er, t4)
                | (Inr _, t4) \<Rightarrow> (Ok w, t4))))"

text \<open>Open standard streams, as a shell starts a program with.\<close>

definition std_open :: "open_file table \<Rightarrow> bool" where
  "std_open t \<longleftrightarrow> t 0 \<noteq> None \<and> t 1 \<noteq> None \<and> t 2 \<noteq> None"

lemma above_std: "std_open t \<Longrightarrow> t fd = None \<Longrightarrow> 2 < fd"
  by (cases "fd = 0 \<or> fd = 1 \<or> fd = 2") (auto simp: std_open_def)

lemma ready_pipe_result:
  assumes "descriptors pick" "ready_pipe pick t = Some (r, w, t1)"
  shows "t1 = fd_open (fd_open t r (Read_End 2) False) w (Write_End 2) False"
    "t r = None" "t w = None" "r \<noteq> w"
proof -
  from assms(2) have rw: "pick t 0 = Some r" "pick (fd_open t r (Read_End 2) False) 0 = Some w"
    and t1: "t1 = fd_open (fd_open t r (Read_End 2) False) w (Write_End 2) False"
    by (auto simp: ready_pipe_def Let_def split: option.splits)
  show "t1 = fd_open (fd_open t r (Read_End 2) False) w (Write_End 2) False" by (rule t1)
  show "t r = None" by (rule descriptors.pick_free [OF assms(1) rw(1)])
  have "fd_open t r (Read_End 2) False w = None" by (rule descriptors.pick_free [OF assms(1) rw(2)])
  then show "t w = None" "r \<noteq> w" by (auto simp: fd_open_def split: if_splits)
qed

lemma daemon_files_steps:
  assumes "descriptors pick" "daemon_files pick dup_ok e pid_file t = (Ok w, t')"
  obtains r t2 t3 where "ready_pipe pick t = Some (r, w, fd_open t2 r (Read_End 2) False)"
    "t2 = fd_open t w (Write_End 2) False" "t w = None"
    "pid_file = None \<Longrightarrow> t3 = t2"
    "pid_file \<noteq> None \<Longrightarrow> \<exists>p. t2 p = None \<and> t3 = fd_open t2 p Lock_File False"
    "redirect_standard_streams pick dup_ok e Null_Device t3 = (Ok (), t')"
proof -
  from assms(2) obtain r w' t1 where a': "ready_pipe pick t = Some (r, w', t1)"
    by (cases "ready_pipe pick t") (auto simp: daemon_files_def)
  let ?pid = "case pid_file of None \<Rightarrow> (Ok (), fd_close t1 r)
    | Some (locked, rest) \<Rightarrow> pid_file_opened pick e locked rest (fd_close t1 r)"
  obtain res t3 where p: "?pid = (res, t3)" by (cases ?pid)
  have res: "res = Ok ()" using assms(2) a' p by (cases res) (simp_all add: daemon_files_def)
  obtain res' t4 where q: "redirect_standard_streams pick dup_ok e Null_Device t3 = (res', t4)"
    by (cases "redirect_standard_streams pick dup_ok e Null_Device t3")
  have "res' = Ok () \<and> t4 = t' \<and> w' = w"
    using assms(2) a' p q res by (cases res') (simp_all add: daemon_files_def)
  with a' p q res have a: "ready_pipe pick t = Some (r, w, t1)"
    and b: "?pid = (Ok (), t3)"
    and c: "redirect_standard_streams pick dup_ok e Null_Device t3 = (Ok (), t')" by simp_all
  note R = ready_pipe_result [OF assms(1) a]
  let ?t2 = "fd_open t w (Write_End 2) False"
  have t2: "fd_close t1 r = ?t2" using R by (auto simp: fd_close_def fd_open_def)
  have t1: "t1 = fd_open ?t2 r (Read_End 2) False" using R by (auto simp: fd_open_def fun_upd_twist)
  have "\<exists>p. ?t2 p = None \<and> t3 = fd_open ?t2 p Lock_File False" if "pid_file \<noteq> None"
  proof -
    from that obtain locked rest where l: "pid_file = Some (locked, rest)" by auto
    then have o: "pid_file_opened pick e locked rest (fd_close t1 r) = (Ok (), t3)" using b by simp
    then obtain p where p: "pick (fd_close t1 r) 0 = Some p"
      by (cases "pick (fd_close t1 r) 0") (simp_all add: pid_file_opened_def)
    from p o have "t3 = fd_open (fd_close t1 r) p Lock_File False"
      by (simp add: pid_file_opened_def Let_def split: if_splits)
    with descriptors.pick_free [OF assms(1) p] show ?thesis unfolding t2 by blast
  qed
  moreover have "t3 = ?t2" if "pid_file = None" using that b t2 by simp
  ultimately show thesis using a t1 R(3) c by (intro that [of r ?t2 t3]) simp_all
qed

lemma daemon_tables:
  assumes "descriptors pick" "std_open t" "daemon_files pick dup_ok e pid_file t = (Ok w, t')"
  shows "2 < w" "t w = None" "t' w = Some (Write_End 2, False)"
    and "fd < 3 \<Longrightarrow> t' fd = Some (Null_Device, False)"
    and "2 < fd \<Longrightarrow> t fd \<noteq> None \<Longrightarrow> t' fd = t fd"
    and "2 < fd \<Longrightarrow> t fd = None \<Longrightarrow> fd \<noteq> w \<Longrightarrow> t' fd = None \<or> pid_file \<noteq> None \<and> t' fd = Some (Lock_File, False)"
    and "pid_file \<noteq> None \<Longrightarrow> \<exists>p > 2. p \<noteq> w \<and> t' p = Some (Lock_File, False)"
proof -
  from daemon_files_steps [OF assms(1,3)] obtain r t2 t3 where
    t2: "t2 = fd_open t w (Write_End 2) False" and w: "t w = None" and
    no: "pid_file = None \<Longrightarrow> t3 = t2" and
    yes: "pid_file \<noteq> None \<Longrightarrow> \<exists>p. t2 p = None \<and> t3 = fd_open t2 p Lock_File False" and
    rd: "redirect_standard_streams pick dup_ok e Null_Device t3 = (Ok (), t')" by metis
  note null = streams_null [OF assms(1) rd]
  show w2: "2 < w" by (rule above_std [OF assms(2) w])
  show "t w = None" by (rule w)
  have open3: "t3 k = t2 k" if "t2 k \<noteq> None" for k
  proof (cases "pid_file = None")
    case False
    from yes [OF False] obtain p where "t2 p = None" "t3 = fd_open t2 p Lock_File False" by blast
    with that show ?thesis by (auto simp: fd_open_def)
  qed (simp add: no)
  have w_open: "t2 w = Some (Write_End 2, False)" using t2 by (simp add: fd_open_def)
  then have "t3 w = Some (Write_End 2, False)" using open3 [of w] by simp
  then show "t' w = Some (Write_End 2, False)" using null w2 by simp
  show "t' fd = Some (Null_Device, False)" if "fd < 3"
    using that null by (auto simp: less_Suc_eq numeral_eq_Suc)
  show "t' fd = t fd" if "2 < fd" "t fd \<noteq> None"
  proof -
    have "fd \<noteq> w" using that(2) w by auto
    then have "t2 fd = t fd" using t2 by (simp add: fd_open_def)
    with open3 [of fd] that null show ?thesis by simp
  qed
  show "t' fd = None \<or> pid_file \<noteq> None \<and> t' fd = Some (Lock_File, False)" if "2 < fd" "t fd = None" "fd \<noteq> w"
  proof -
    have f: "t2 fd = None" using that t2 by (simp add: fd_open_def)
    show ?thesis
    proof (cases "pid_file = None")
      case True
      with no f null that(1) show ?thesis by simp
    next
      case False
      from yes [OF False] obtain p where "t3 = fd_open t2 p Lock_File False" by blast
      with f null that(1) False show ?thesis by (auto simp: fd_open_def)
    qed
  qed
  show "\<exists>p > 2. p \<noteq> w \<and> t' p = Some (Lock_File, False)" if pid: "pid_file \<noteq> None"
  proof -
    from yes [OF pid] obtain p where p: "t2 p = None" "t3 = fd_open t2 p Lock_File False" by blast
    have "p \<noteq> w" using p(1) w_open by auto
    then have "t p = None" using p(1) t2 by (simp add: fd_open_def)
    then have "2 < p" by (rule above_std [OF assms(2)])
    with null p(2) \<open>p \<noteq> w\<close> show ?thesis by (intro exI [of _ p]) (simp add: fd_open_def)
  qed
qed

lemma launcher_keeps_read_end:
  assumes "descriptors pick" "launcher_files pick t = Some u"
  shows "\<exists>r. t r = None \<and> u = fd_open t r (Read_End 2) False"
proof -
  from assms(2) obtain r w t1 where rp: "ready_pipe pick t = Some (r, w, t1)" and u: "u = fd_close t1 w"
    by (cases "ready_pipe pick t") (auto simp: launcher_files_def)
  note R = ready_pipe_result [OF assms(1) rp]
  have "u = fd_open t r (Read_End 2) False"
    unfolding u R(1) using R(2,3,4) by (auto simp: fd_close_def fd_open_def)
  with R(2) show ?thesis by blast
qed

text \<open>\<open>daemonize.rs\<close> says of the pid file's descriptor that it lives as long as the process. It is not
  closed across \<open>exec\<close>: a program the daemon starts has the pid file open too, and so may hold its lock
  when the daemon has ended.\<close>

lemma spawned_programs_inherit_the_lock:
  assumes "descriptors pick" "std_open t" "daemon_files pick dup_ok e (Some how) t = (Ok w, t')"
    and "pipe_new pick 0 (fd_close t' w) = Some (out, t1)" "pipe_new pick 1 t1 = Some (errs, t2)"
    and "child_setup pick dup_ok (nat (pipe_write out)) (nat (pipe_write errs)) t2 = Some child"
  shows "\<exists>p > 2. fd_exec child p = Some Lock_File"
proof -
  from daemon_tables(7) [OF assms(1-3)] obtain p where p: "2 < p" "p \<noteq> w" "t' p = Some (Lock_File, False)" by auto
  then have "fd_exec (fd_close t' w) p = Some Lock_File" by (simp add: fd_exec_def fd_close_def)
  with spawned_inherits [OF assms(1,4,5,6) p(1)] p(1) show ?thesis by auto
qed

text \<open>The same of the readiness pipe, which has no close-on-exec because \<open>daemonize.rs\<close> execs nothing: a
  program started before \<open>signal\<close> holds the write end, so that its end, too, is what a launcher waits for
  when the daemon fails.\<close>

lemma spawned_before_ready_hold_the_pipe:
  assumes "descriptors pick" "std_open t" "daemon_files pick dup_ok e pid_file t = (Ok w, t')"
    and "pipe_new pick 0 t' = Some (out, t1)" "pipe_new pick 1 t1 = Some (errs, t2)"
    and "child_setup pick dup_ok (nat (pipe_write out)) (nat (pipe_write errs)) t2 = Some child"
  shows "fd_exec child w = Some (Write_End 2)"
  using spawned_inherits [OF assms(1,4,5,6)] daemon_tables(1,3) [OF assms(1-3)] by (simp add: fd_exec_def)

section \<open>Properties\<close>

text \<open>C15 (safety). A process started with its standard streams open that becomes a daemon has, when
  \<open>daemonize\<close> returns, \<open>/dev/null\<close> on all three, the write end of the readiness pipe on the descriptor
  \<open>Ready\<close> holds and on no other, nothing else new but the pid file's descriptor, which is open exactly
  when one was asked for, and every descriptor above 2 that it had before; the launcher that waits has
  the read end of the pipe and, beyond that, only what it had.\<close>

theorem daemon_descriptors:
  assumes "descriptors pick" "std_open t" "daemon_files pick dup_ok e pid_file t = (Ok w, t')"
  shows "file_at t' 0 = Some Null_Device \<and> file_at t' 1 = Some Null_Device \<and> file_at t' 2 = Some Null_Device
    \<and> 2 < w \<and> t w = None \<and> file_at t' w = Some (Write_End 2)
    \<and> (\<forall>fd > 2. t fd \<noteq> None \<longrightarrow> t' fd = t fd)
    \<and> (\<forall>fd > 2. t fd = None \<longrightarrow> fd \<noteq> w \<longrightarrow> t' fd = None \<or> pid_file \<noteq> None \<and> file_at t' fd = Some Lock_File)
    \<and> (pid_file \<noteq> None \<longrightarrow> (\<exists>p > 2. file_at t' p = Some Lock_File))
    \<and> (\<forall>u. launcher_files pick t = Some u \<longrightarrow> (\<exists>r. t r = None \<and> u = fd_open t r (Read_End 2) False))"
proof -
  note T = daemon_tables [OF assms]
  have "\<exists>p > 2. file_at t' p = Some Lock_File" if "pid_file \<noteq> None"
    using T(7) [OF that] by (auto simp: file_at_def)
  moreover have "t' fd = None \<or> pid_file \<noteq> None \<and> file_at t' fd = Some Lock_File"
    if "2 < fd" "t fd = None" "fd \<noteq> w" for fd
    using T(6) [OF that] by (auto simp: file_at_def)
  ultimately show ?thesis
    using T(1,2,3,5) T(4) [of 0] T(4) [of 1] T(4) [of 2] launcher_keeps_read_end [OF assms(1)]
    by (simp add: file_at_def)
qed

text \<open>From a shell: the pipe takes 3 and 4, the pid file the 3 that the child has closed.\<close>

definition shell_table :: "open_file table" where
  "shell_table = (\<lambda>_. None)(0 \<mapsto> (Inherited 0, False), 1 \<mapsto> (Inherited 1, False), 2 \<mapsto> (Inherited 2, False))"

theorem daemon_descriptors_witness:
  "\<exists>t'. daemon_files first_free (\<lambda>_. True) 0 (Some (True, True)) shell_table = (Ok 4, t')
     \<and> file_at t' 2 = Some Null_Device \<and> file_at t' 4 = Some (Write_End 2) \<and> (\<exists>p > 2. file_at t' p = Some Lock_File)"
proof -
  have less: "k < (3 :: nat) \<longleftrightarrow> k = 0 \<or> k = 1 \<or> k = 2"
    "k < (4 :: nat) \<longleftrightarrow> k = 0 \<or> k = 1 \<or> k = 2 \<or> k = 3" for k by auto
  let ?t1 = "fd_open shell_table 3 (Read_End 2) False"
  let ?t2 = "fd_open ?t1 4 (Write_End 2) False"
  let ?t3 = "fd_open (fd_close ?t2 3) 3 Lock_File False"
  have free: "first_free shell_table 0 = Some 3" "first_free ?t1 0 = Some 4"
    "first_free (fd_close ?t2 3) 0 = Some 3"
    by (rule first_free_upto, auto simp: shell_table_def fd_open_def fd_close_def less)+
  have rp: "ready_pipe first_free shell_table = Some (3, 4, ?t2)" using free by (simp add: ready_pipe_def Let_def)
  have "first_free ?t3 0 = Some 5"
    by (rule first_free_upto) (auto simp: shell_table_def fd_open_def fd_close_def less_Suc_eq numeral_eq_Suc)
  then obtain t' where rd: "redirect_standard_streams first_free (\<lambda>_. True) 0 Null_Device ?t3 = (Ok (), t')"
    by (simp add: redirect_standard_streams_def)
  have run: "daemon_files first_free (\<lambda>_. True) 0 (Some (True, True)) shell_table = (Ok 4, t')"
    using rp free(3) rd by (simp add: daemon_files_def pid_file_opened_def Let_def)
  have "std_open shell_table" by (simp add: std_open_def shell_table_def)
  from daemon_descriptors [OF first_free.descriptors_axioms this run] run show ?thesis by blast
qed

end
