(* ===== verification/Sockets.thy ===== *)
theory Sockets
  imports Streams
begin

unbundle bit_operations_syntax

text \<open>
  \<open>src/socket.rs\<close>, but for its loops (theory Streams) and its line reader (theory Line_Readers): the
  owned descriptor, the address of a Unix socket, binding, connecting and accepting. A system call is
  given by what it returns and the \<open>errno\<close> it leaves; an operation gives the descriptors its \<open>Drop\<close>s
  closed on the way beside its result.
\<close>

section \<open>Descriptors\<close>

text \<open>\<open>Fd\<close>; \<open>Listener\<close> and \<open>Stream\<close> are one each.\<close>

record owned_fd = fd_raw :: int

definition drop_fd :: "owned_fd \<Rightarrow> int list" where
  "drop_fd fd = [fd_raw fd]"

definition map_ok :: "('a \<Rightarrow> 'b) \<Rightarrow> 'e + 'a \<Rightarrow> 'e + 'b" where
  "map_ok f r = (case r of Inl e \<Rightarrow> Err e | Inr x \<Rightarrow> Ok (f x))"

definition duplicate :: "(int \<Rightarrow> int \<times> errno) \<Rightarrow> owned_fd \<Rightarrow> errno + owned_fd" where
  "duplicate dup fd = (let (r, e) = dup (fd_raw fd) in map_ok (\<lambda>n. \<lparr>fd_raw = n\<rparr>) (checked e r))"

definition socket_fd :: "int \<times> errno \<Rightarrow> errno + owned_fd" where
  "socket_fd answer = (let (r, e) = answer in map_ok (\<lambda>n. \<lparr>fd_raw = n\<rparr>) (checked e r))"

text \<open>\<open>set_nonblocking\<close>: \<open>getfl\<close> and \<open>setfl\<close> are \<open>fcntl\<close> with \<open>F_GETFL\<close> and \<open>F_SETFL\<close>.\<close>

definition set_nonblocking ::
  "32 word \<Rightarrow> (int \<Rightarrow> errno + 32 word) \<Rightarrow> (int \<Rightarrow> 32 word \<Rightarrow> errno option) \<Rightarrow> int \<Rightarrow> bool \<Rightarrow> errno + unit"
where
  "set_nonblocking O_NONBLOCK getfl setfl fd on =
     (case getfl fd of
        Inl e \<Rightarrow> Err e
      | Inr flags \<Rightarrow>
          (let next' = (if on then flags OR O_NONBLOCK else flags AND NOT O_NONBLOCK) in
           case setfl fd next' of Some e \<Rightarrow> Err e | None \<Rightarrow> Ok ()))"

section \<open>Addresses\<close>

text \<open>\<open>address\<close>: the bytes of \<open>sun_path\<close>, zeroed and then filled slot by slot; \<open>room\<close> is its length, 104
  or 108.\<close>

fun fill :: "bytes \<Rightarrow> bytes \<Rightarrow> bytes" where
  "fill (_ # slots) (b # bs) = b # fill slots bs"
| "fill slots _ = slots"

definition address :: "libc \<Rightarrow> nat \<Rightarrow> bytes \<Rightarrow> errno + bytes" where
  "address L room path =
     (let sun_path = replicate room 0 in
      if length sun_path \<le> length path then Err (ENAMETOOLONG L) else Ok (fill sun_path path))"

lemma fill_append: "length path \<le> length slots \<Longrightarrow> fill slots path = path @ drop (length path) slots"
  by (induction slots path rule: fill.induct) auto

section \<open>Binding, connecting, accepting\<close>

text \<open>The calls after \<open>socket\<close>, on the descriptor and the address: -1 is a failure.\<close>

definition bind_listener ::
  "libc \<Rightarrow> nat \<Rightarrow> int \<times> errno \<Rightarrow> (int \<Rightarrow> bytes \<Rightarrow> int \<times> errno) \<Rightarrow> (int \<Rightarrow> int \<Rightarrow> int \<times> errno)
    \<Rightarrow> bytes \<Rightarrow> int \<Rightarrow> (errno + owned_fd) \<times> int list"
where
  "bind_listener L room sock bind listen path backlog =
     (case socket_fd sock of
        Inl e \<Rightarrow> (Err e, [])
      | Inr fd \<Rightarrow>
          (case address L room path of
             Inl e \<Rightarrow> (Err e, drop_fd fd)
           | Inr addr \<Rightarrow>
               (case (let (r, e) = bind (fd_raw fd) addr in checked e r) of
                  Inl e \<Rightarrow> (Err e, drop_fd fd)
                | Inr _ \<Rightarrow>
                    (case (let (r, e) = listen (fd_raw fd) backlog in checked e r) of
                       Inl e \<Rightarrow> (Err e, drop_fd fd)
                     | Inr _ \<Rightarrow> (Ok fd, [])))))"

definition connect_stream ::
  "libc \<Rightarrow> nat \<Rightarrow> int \<times> errno \<Rightarrow> (int \<Rightarrow> bytes \<Rightarrow> int \<times> errno) \<Rightarrow> bytes \<Rightarrow> (errno + owned_fd) \<times> int list"
where
  "connect_stream L room sock connect path =
     (case socket_fd sock of
        Inl e \<Rightarrow> (Err e, [])
      | Inr fd \<Rightarrow>
          (case address L room path of
             Inl e \<Rightarrow> (Err e, drop_fd fd)
           | Inr addr \<Rightarrow>
               (case (let (r, e) = connect (fd_raw fd) addr in checked e r) of
                  Inl e \<Rightarrow> (Err e, drop_fd fd)
                | Inr _ \<Rightarrow> (Ok fd, []))))"

text \<open>\<open>accept\<close>, on the successive answers; \<open>None\<close> while the last call has not returned.\<close>

fun accept_stream :: "libc \<Rightarrow> (int \<times> errno) list \<Rightarrow> (errno + owned_fd) option" where
  "accept_stream L [] = None"
| "accept_stream L ((fd, e) # answers) =
     (if fd = -1 then (if e = EINTR L then accept_stream L answers else Some (Err e))
      else Some (Ok \<lparr>fd_raw = fd\<rparr>))"

lemma accept_skips_interrupts:
  "accept_stream L (replicate n (-1, EINTR L) @ answers) = accept_stream L answers"
  by (induction n) auto

section \<open>Properties\<close>

text \<open>A path that \<open>address\<close> takes is in the address whole: the address has the platform's
  size, always keeps a NUL at its end, and read as a C string it is the path up to its first NUL, the
  path itself when it has none. Only a path with no room for that NUL is refused, never cut.\<close>

theorem address_keeps_path:
  "case address L room path of
     Inl e \<Rightarrow> e = ENAMETOOLONG L \<and> room \<le> length path
   | Inr addr \<Rightarrow> length addr = room \<and> last addr = NUL
       \<and> c_string addr = Some (takeWhile (\<lambda>b. b \<noteq> NUL) path)"
proof (cases "room \<le> length path")
  case True
  then show ?thesis by (simp add: address_def)
next
  case False
  have addr: "address L room path = Ok (path @ replicate (room - length path) 0)"
    using False by (simp add: address_def fill_append)
  obtain k where k: "room - length path = Suc k" using False by (metis Suc_diff_Suc not_le)
  have "takeWhile (\<lambda>b. b \<noteq> NUL) (path @ NUL # replicate k 0) = takeWhile (\<lambda>b. b \<noteq> NUL) path"
    by (induction path) auto
  moreover have "room = Suc (length path + k)" using k by simp
  ultimately show ?thesis using addr by (simp add: c_string_def)
qed

text \<open>The descriptor \<open>socket\<close> opened.\<close>

definition opened :: "int \<times> errno \<Rightarrow> int list" where
  "opened sock = (if fst sock = -1 then [] else [fst sock])"

text \<open>No socket descriptor is lost: when \<open>bind\<close> or \<open>connect\<close> reports an error, whichever of
  its steps failed, the socket it had opened has been closed, once, and when it succeeds the
  descriptor is in the result and open.\<close>

theorem socket_not_leaked:
  "(case bind_listener L room sock bnd lst path backlog of
      (Inl e, closed) \<Rightarrow> closed = opened sock
    | (Inr fd, closed) \<Rightarrow> opened sock = [fd_raw fd] \<and> closed = [])
   \<and> (case connect_stream L room sock bnd path of
      (Inl e, closed) \<Rightarrow> closed = opened sock
    | (Inr fd, closed) \<Rightarrow> opened sock = [fd_raw fd] \<and> closed = [])"
  by (cases sock)
    (auto simp: bind_listener_def connect_stream_def socket_fd_def map_ok_def checked_def drop_fd_def opened_def
      split: sum.split prod.split)

text \<open>\<open>set_nonblocking\<close> changes its own flag and no other.\<close>

lemma set_nonblocking_one_flag:
  assumes "getfl fd = Ok flags"
  shows "set_nonblocking F getfl setfl fd on =
    (case setfl fd (if on then flags OR F else flags AND NOT F) of Some e \<Rightarrow> Err e | None \<Rightarrow> Ok ())"
  using assms by (simp add: set_nonblocking_def Let_def)

lemma nonblocking_flag_bits:
  "bit (flags OR F) i = (bit flags i \<or> bit F i)"
  "bit (flags AND NOT F) i = (bit flags i \<and> \<not> bit F i)" for flags F :: "32 word"
  by (auto simp: bit_or_iff bit_and_iff bit_not_iff dest: bit_imp_le_length)

end
