(* ===== verification/Clocks.thy ===== *)
theory Clocks
  imports Prelude
begin

text \<open>
  \<open>src/time.rs\<close>, \<open>sleep_ms\<close> of \<open>src/lib.rs\<close> and \<open>available_parallelism\<close> of \<open>src/proc.rs\<close>. What
  \<open>clock_gettime\<close> fills in and \<open>sysconf\<close> answers are arguments; the widths are the code's: seconds and
  nanoseconds are signed 64-bit numbers, an \<open>Instant\<close> is 128 bits of nanoseconds, a \<open>Duration\<close> 64 bits of
  seconds and 32 of nanoseconds.
\<close>

type_synonym u128 = "128 word"

record timespec =
  tv_sec :: "64 word"
  tv_nsec :: "64 word"

section \<open>Instants\<close>

record instant = nanos :: u128

text \<open>The order \<open>Instant\<close> derives: that of its field.\<close>

instantiation instant_ext :: (linorder) linorder
begin

definition less_eq_instant_ext :: "'a instant_scheme \<Rightarrow> 'a instant_scheme \<Rightarrow> bool" where
  "less_eq_instant_ext a b \<longleftrightarrow>
     nanos a < nanos b \<or> nanos a = nanos b \<and> instant.more a \<le> instant.more b"

definition less_instant_ext :: "'a instant_scheme \<Rightarrow> 'a instant_scheme \<Rightarrow> bool" where
  "less_instant_ext a b \<longleftrightarrow>
     nanos a < nanos b \<or> nanos a = nanos b \<and> instant.more a < instant.more b"

instance
  by intro_classes (auto simp: less_eq_instant_ext_def less_instant_ext_def)

end

lemma instant_le [simp]: "a \<le> b \<longleftrightarrow> nanos a \<le> nanos b" for a b :: instant
  by (auto simp: less_eq_instant_ext_def)

record time_span =
  dur_secs :: "64 word"
  dur_nanos :: "32 word"

text \<open>\<open>Instant::now\<close>: the casts extend the sign.\<close>

definition now :: "timespec \<Rightarrow> instant" where
  "now ts = \<lparr>nanos = scast (tv_sec ts) * 1000000000 + scast (tv_nsec ts)\<rparr>"

definition saturating_sub :: "u128 \<Rightarrow> u128 \<Rightarrow> u128" where
  "saturating_sub a b = (if b \<le> a then a - b else 0)"

text \<open>\<open>Duration::new\<close> carries whole seconds over; its panic on an overflow of the seconds is \<open>None\<close>.\<close>

definition duration_new :: "64 word \<Rightarrow> 32 word \<Rightarrow> time_span option" where
  "duration_new secs ns =
     (if ns < 1000000000 then Some \<lparr>dur_secs = secs, dur_nanos = ns\<rparr>
      else
        (let carry = ucast (ns div 1000000000) in
         if secs + carry < secs then None
         else Some \<lparr>dur_secs = secs + carry, dur_nanos = ns mod 1000000000\<rparr>))"

definition duration_since :: "instant \<Rightarrow> instant \<Rightarrow> time_span option" where
  "duration_since self earlier =
     (let d = saturating_sub (nanos self) (nanos earlier) in
      duration_new (ucast (d div 1000000000)) (ucast (d mod 1000000000)))"

definition elapsed :: "instant \<Rightarrow> timespec \<Rightarrow> time_span option" where
  "elapsed self ts = duration_since (now ts) self"

definition epoch_secs :: "timespec \<Rightarrow> 64 word" where
  "epoch_secs ts = tv_sec ts"

section \<open>Sleeping, and how many threads\<close>

text \<open>What \<open>nanosleep\<close> is given.\<close>

definition sleep_ms :: "64 word \<Rightarrow> timespec" where
  "sleep_ms ms = \<lparr>tv_sec = ms div 1000, tv_nsec = (ms mod 1000) * 1000000\<rparr>"

definition available_parallelism :: "64 word \<Rightarrow> 64 word" where
  "available_parallelism n = (if n <s 1 then 1 else n)"

section \<open>Properties\<close>

text \<open>A reading the system can give.\<close>

definition reading :: "timespec \<Rightarrow> bool" where
  "reading ts \<longleftrightarrow> 0 \<le>s tv_sec ts \<and> tv_nsec ts < 1000000000"

definition ns_of :: "timespec \<Rightarrow> int" where
  "ns_of ts = uint (tv_sec ts) * 10 ^ 9 + uint (tv_nsec ts)"

lemma sint_nonneg_uint: "0 \<le>s x \<Longrightarrow> sint x = uint x" for x :: "64 word"
proof -
  assume "0 \<le>s x"
  then have "0 \<le> sint x" by (simp add: word_sle_eq)
  moreover have "sint x < 2 ^ 63" using sint_lt [of x] by simp
  ultimately have "take_bit 64 (sint x) = sint x" by (intro take_bit_int_eq_self) simp_all
  moreover have "uint x = take_bit LENGTH(64) (sint x)" by (rule uint_sint)
  ultimately show ?thesis by simp
qed

lemma scast_nonneg: "0 \<le>s x \<Longrightarrow> (scast x :: u128) = ucast x" for x :: "64 word"
  by (simp only: scast_eq ucast_eq sint_nonneg_uint)

lemma reading_bounds:
  assumes "reading ts"
  shows "uint (tv_sec ts) < 2 ^ 63" "uint (tv_nsec ts) < 10 ^ 9" "0 \<le>s tv_nsec ts"
proof -
  have "sint (tv_sec ts) = uint (tv_sec ts)" using assms by (simp add: reading_def sint_nonneg_uint)
  then show "uint (tv_sec ts) < 2 ^ 63" using sint_lt [of "tv_sec ts"] by simp
  show n: "uint (tv_nsec ts) < 10 ^ 9" using assms by (simp add: reading_def word_less_def)
  have "- (2 ^ 63) \<le> uint (tv_nsec ts)" by (rule order.trans [OF _ uint_ge_0]) simp
  with n have "signed_take_bit 63 (uint (tv_nsec ts)) = uint (tv_nsec ts)"
    by (intro signed_take_bit_int_eq_self) simp_all
  then have "sint (tv_nsec ts) = uint (tv_nsec ts)" by (simp add: sint_uint)
  then show "0 \<le>s tv_nsec ts" by (simp add: word_sle_eq)
qed

lemma uint_ucast128: "uint (ucast x :: u128) = uint x" for x :: "64 word"
  using uint_lt2p [of x] by (simp add: unsigned_ucast_eq take_bit_int_eq_self_iff)

lemma now_nanos:
  assumes "reading ts"
  shows "uint (nanos (now ts)) = ns_of ts"
proof -
  note b = reading_bounds [OF assms]
  have "0 \<le>s tv_sec ts" using assms by (simp add: reading_def)
  then have "nanos (now ts) = ucast (tv_sec ts) * 1000000000 + ucast (tv_nsec ts)"
    using b(3) by (simp add: now_def scast_nonneg)
  then have "uint (nanos (now ts)) = ((uint (tv_sec ts) * 1000000000) mod 2 ^ 128 + uint (tv_nsec ts)) mod 2 ^ 128"
    by (simp add: uint_word_ariths uint_ucast128)
  also have "\<dots> = ns_of ts" using b uint_ge_0 [of "tv_sec ts"] uint_ge_0 [of "tv_nsec ts"] by (simp add: ns_of_def)
  finally show ?thesis .
qed

lemma duration_parts:
  fixes d :: u128
  assumes "uint d < 2 ^ 93"
  shows "duration_new (ucast (d div 1000000000)) (ucast (d mod 1000000000)) =
      Some \<lparr>dur_secs = ucast (d div 1000000000), dur_nanos = ucast (d mod 1000000000)\<rparr>"
    and "uint (ucast (d div 1000000000) :: 64 word) = uint d div 1000000000"
    and "uint (ucast (d mod 1000000000) :: 32 word) = uint d mod 1000000000"
proof -
  show n: "uint (ucast (d mod 1000000000) :: 32 word) = uint d mod 1000000000"
    by (simp add: unsigned_ucast_eq uint_mod take_bit_int_eq_self_iff)
  have "uint d div 1000000000 < 2 ^ 64" using assms by simp
  then show "uint (ucast (d div 1000000000) :: 64 word) = uint d div 1000000000"
    using uint_ge_0 [of d] by (simp add: unsigned_ucast_eq uint_div take_bit_int_eq_self_iff pos_imp_zdiv_nonneg_iff)
  have "(ucast (d mod 1000000000) :: 32 word) < 1000000000" by (simp add: word_less_def n)
  then show "duration_new (ucast (d div 1000000000)) (ucast (d mod 1000000000)) =
      Some \<lparr>dur_secs = ucast (d div 1000000000), dur_nanos = ucast (d mod 1000000000)\<rparr>"
    by (simp add: duration_new_def)
qed

lemma ns_of_bound: "reading ts \<Longrightarrow> 0 \<le> ns_of ts \<and> ns_of ts < 2 ^ 93"
  using reading_bounds [of ts] uint_ge_0 [of "tv_sec ts"] uint_ge_0 [of "tv_nsec ts"]
  by (simp add: ns_of_def)

text \<open>C37 (bounds). The time between two readings of the clock is exact to the nanosecond, whatever the
  readings: no product, sum or cast loses anything, the nanoseconds are below a second and the
  \<open>Duration\<close> never overflows; with the readings in the wrong order it is zero, not a panic. Instants
  are ordered as the readings are.\<close>

theorem duration_is_exact:
  assumes "reading a" "reading b"
  shows "\<exists>d. duration_since (now b) (now a) = Some d \<and> uint (dur_nanos d) < 10 ^ 9
    \<and> uint (dur_secs d) * 10 ^ 9 + uint (dur_nanos d) = max 0 (ns_of b - ns_of a)
    \<and> (now a \<le> now b \<longleftrightarrow> ns_of a \<le> ns_of b)"
proof -
  let ?d = "saturating_sub (nanos (now b)) (nanos (now a))"
  note n = now_nanos [OF assms(1)] now_nanos [OF assms(2)] ns_of_bound [OF assms(1)] ns_of_bound [OF assms(2)]
  have d: "uint ?d = max 0 (ns_of b - ns_of a)"
    using n by (auto simp: saturating_sub_def word_le_def uint_sub_if')
  then have "uint ?d < 2 ^ 93" using n by simp
  from duration_parts [OF this] d show ?thesis
    by (simp add: duration_since_def Let_def word_le_def n)
qed

theorem duration_is_exact_witness:
  "\<exists>d. duration_since (now \<lparr>tv_sec = 5, tv_nsec = 1\<rparr>) (now \<lparr>tv_sec = 3, tv_nsec = 999999999\<rparr>) = Some d
     \<and> uint (dur_secs d) * 10 ^ 9 + uint (dur_nanos d) = 1000000002"
proof -
  have a: "reading \<lparr>tv_sec = 3, tv_nsec = 999999999\<rparr>" and b: "reading \<lparr>tv_sec = 5, tv_nsec = 1\<rparr>"
    by (simp_all add: reading_def word_sle_eq)
  from duration_is_exact [OF a b] show ?thesis by (auto simp: ns_of_def)
qed

text \<open>\<open>sleep_ms\<close> asks for exactly the milliseconds it is given, for every 64-bit number of them,
  in a \<open>timespec\<close> the system accepts: the nanoseconds never reach a second.\<close>

theorem sleep_is_exact:
  "reading (sleep_ms ms) \<and> ns_of (sleep_ms ms) = uint ms * 10 ^ 6"
proof -
  have s: "uint (ms div 1000) = uint ms div 1000" by (simp add: uint_div)
  have n: "uint (ms mod 1000 * 1000000) = uint ms mod 1000 * 1000000"
    by (simp add: uint_word_ariths uint_mod)
  have "0 \<le> uint ms div 1000" by (simp add: pos_imp_zdiv_nonneg_iff)
  then have "- (2 ^ 63) \<le> uint ms div 1000" by (rule order.trans [rotated]) simp
  moreover have "uint ms div 1000 < 2 ^ 63" using uint_lt2p [of ms] by simp
  ultimately have "signed_take_bit 63 (uint ms div 1000) = uint ms div 1000"
    by (intro signed_take_bit_int_eq_self)
  then have "sint (ms div 1000) = uint (ms div 1000)" by (simp add: sint_uint s)
  then have "0 \<le>s ms div 1000" by (simp add: word_sle_eq)
  moreover have "uint ms mod 1000 < 1000" by simp
  then have "uint ms mod 1000 * 1000000 < 1000000000" by linarith
  ultimately have "reading (sleep_ms ms)" by (simp add: reading_def sleep_ms_def word_less_def n)
  moreover have "uint ms div 1000 * 1000000000 + uint ms mod 1000 * 1000000 = uint ms * 1000000"
    using div_mult_mod_eq [of "uint ms" 1000] by linarith
  then have "ns_of (sleep_ms ms) = uint ms * 10 ^ 6"
    by (simp add: ns_of_def sleep_ms_def s n)
  ultimately show ?thesis by simp
qed

text \<open>The number of threads is never zero, whatever \<open>sysconf\<close> answers.\<close>

lemma parallelism_positive: "0 < sint (available_parallelism n)"
  by (simp add: available_parallelism_def word_sless_alt)

end
