(* ===== verification/Directories.thy ===== *)
theory Directories
  imports Files Env
begin

text \<open>
  The operations on directories of \<open>src/fs.rs\<close> and \<open>src/file.rs\<close>: creating them with their parents,
  listing them, removing them with what is in them, and \<open>TempDir\<close>. The file system is a state \<open>'s\<close> with
  the calls below as parameters. The recursive removals take fuel, a bound on how deep they go; the
  theorems show that any number above that of the entries in the tree is enough.
\<close>

section \<open>The calls\<close>

text \<open>\<open>mkdir\<close>, \<open>rmdir\<close> and \<open>unlink\<close> give an error or nothing, and the state afterwards; a listing is an
  error of \<open>opendir\<close>, or the entries \<open>readdir\<close> gives one by one and the \<open>errno\<close> it ends with, 0 at
  the end of the directory. The entries are given as one list from the moment the directory is opened;
  \<open>fs::read_dir\<close> collects them before anything else happens, while \<open>file::remove_dir_all\<close> removes each
  as it comes. There the list is of the answers to come: POSIX leaves open whether an entry that is
  removed while the directory is read, before \<open>readdir\<close> has given it, is still given, but the loop
  removes only what it was given already; so, nobody else changing the directory, what comes are entries
  that were there when it was opened, each once, as \<open>list_law\<close> below says.\<close>

record 's fs_calls =
  sys_mkdir :: "'s \<Rightarrow> bytes \<Rightarrow> nat \<Rightarrow> errno option \<times> 's"
  sys_rmdir :: "'s \<Rightarrow> bytes \<Rightarrow> errno option \<times> 's"
  sys_unlink :: "'s \<Rightarrow> bytes \<Rightarrow> errno option \<times> 's"
  sys_list :: "'s \<Rightarrow> bytes \<Rightarrow> errno + bytes list \<times> errno"
  sys_lstat :: "'s \<Rightarrow> bytes \<Rightarrow> errno + file_stat"

section \<open>One name\<close>

text \<open>These take C strings, as the callers in the source do.\<close>

definition unlink :: "'s fs_calls \<Rightarrow> 's \<Rightarrow> bytes \<Rightarrow> 's" where
  "unlink K s c = snd (sys_unlink K s c)"

definition mkdir :: "libc \<Rightarrow> 's fs_calls \<Rightarrow> 's \<Rightarrow> bytes \<Rightarrow> nat \<Rightarrow> (errno + unit) \<times> 's" where
  "mkdir L K s c mode =
     (case sys_mkdir K s c mode of
        (None, s') \<Rightarrow> (Ok (), s')
      | (Some e, s') \<Rightarrow> if e = EEXIST L then (Ok (), s') else (Err e, s'))"

definition rmdir :: "'s fs_calls \<Rightarrow> 's \<Rightarrow> bytes \<Rightarrow> (errno + unit) \<times> 's" where
  "rmdir K s c =
     (case sys_rmdir K s c of (None, s') \<Rightarrow> (Ok (), s') | (Some e, s') \<Rightarrow> (Err e, s'))"

definition fs_exists :: "(bytes \<Rightarrow> int \<times> errno) \<Rightarrow> bytes \<Rightarrow> bool" where
  "fs_exists access c = (let (r, e) = access c in case checked e r of Inl _ \<Rightarrow> False | Inr _ \<Rightarrow> True)"

text \<open>\<open>file::remove_file\<close>.\<close>

definition remove_file :: "'s fs_calls \<Rightarrow> 's \<Rightarrow> path \<Rightarrow> 's" where
  "remove_file K s path = (let c = as_c path in snd (sys_unlink K s c))"

section \<open>Listing\<close>

definition is_dot :: "bytes \<Rightarrow> bool" where
  "is_dot name \<longleftrightarrow> name = [DOT] \<or> name = [DOT, DOT]"

fun entries_loop :: "path \<Rightarrow> bytes list \<Rightarrow> path list" where
  "entries_loop path [] = []"
| "entries_loop path (name # entries) =
     (if is_dot name then entries_loop path entries else join path name # entries_loop path entries)"

definition fs_read_dir :: "libc \<Rightarrow> 's fs_calls \<Rightarrow> 's \<Rightarrow> path \<Rightarrow> file_error + path list" where
  "fs_read_dir L K s path =
     (case sys_list K s (as_c path) of
        Inl e \<Rightarrow> Err (from_errno L e (bstr ''opendir''))
      | Inr (entries, e) \<Rightarrow>
          if e \<noteq> 0 then Err (from_errno L e (bstr ''readdir'')) else Ok (entries_loop path entries))"

text \<open>\<open>file::read_dir\<close> does not ask why the listing ended.\<close>

definition file_read_dir :: "libc \<Rightarrow> 's fs_calls \<Rightarrow> 's \<Rightarrow> path \<Rightarrow> file_error + path list" where
  "file_read_dir L K s path =
     (case sys_list K s (as_c path) of
        Inl e \<Rightarrow> Err (err L e (bstr ''opendir''))
      | Inr (entries, _) \<Rightarrow> Ok (entries_loop path entries))"

section \<open>Creating\<close>

text \<open>\<open>fs::create_dir_all\<close>, with \<open>0o755\<close> for 493.\<close>

fun fs_create_loop :: "libc \<Rightarrow> 's fs_calls \<Rightarrow> 's \<Rightarrow> path \<Rightarrow> bytes list \<Rightarrow> (file_error + unit) \<times> 's" where
  "fs_create_loop L K s so_far [] = (Ok (), s)"
| "fs_create_loop L K s so_far (part # ps) =
     (if part = [] then fs_create_loop L K s so_far ps
      else
        (let so_far = push so_far part in
         case mkdir L K s (as_c so_far) 493 of
           (Inl e, s') \<Rightarrow> (Err (from_errno L e (bstr ''mkdir'')), s')
         | (Inr _, s') \<Rightarrow> fs_create_loop L K s' so_far ps))"

definition fs_create_dir_all :: "libc \<Rightarrow> 's fs_calls \<Rightarrow> 's \<Rightarrow> path \<Rightarrow> (file_error + unit) \<times> 's" where
  "fs_create_dir_all L K s path =
     (let so_far = (if is_absolute path then push [] [SEP] else []) in fs_create_loop L K s so_far (parts path))"

text \<open>\<open>file::create_dir_all\<close>, which puts the separators in by hand.\<close>

fun file_create_loop :: "libc \<Rightarrow> 's fs_calls \<Rightarrow> 's \<Rightarrow> bytes \<Rightarrow> bytes list \<Rightarrow> (file_error + unit) \<times> 's" where
  "file_create_loop L K s at [] = (Ok (), s)"
| "file_create_loop L K s at (part # ps) =
     (let at = (if 1 < length at \<or> length at = 1 \<and> at ! 0 \<noteq> SEP then at @ [SEP] else at);
          at = at @ part;
          c = at @ [0] in
      case sys_mkdir K s c 493 of
        (None, s') \<Rightarrow> file_create_loop L K s' at ps
      | (Some e, s') \<Rightarrow>
          if e \<noteq> EEXIST L then (Err (from_errno L e (bstr ''mkdir'')), s') else file_create_loop L K s' at ps)"

definition file_create_dir_all :: "libc \<Rightarrow> 's fs_calls \<Rightarrow> 's \<Rightarrow> path \<Rightarrow> (file_error + unit) \<times> 's" where
  "file_create_dir_all L K s p =
     (let at = (if is_absolute p then [SEP] else []) in
      file_create_loop L K s at (filter (\<lambda>part. part \<noteq> []) (split_on (\<lambda>b. b = SEP) p)))"

section \<open>Removing\<close>

text \<open>\<open>fs::remove_dir_all\<close>, and its loop over the children.\<close>

fun fs_remove_dir_all :: "libc \<Rightarrow> 's fs_calls \<Rightarrow> nat \<Rightarrow> 's \<Rightarrow> path \<Rightarrow> ((file_error + unit) \<times> 's) option"
  and fs_remove_loop :: "libc \<Rightarrow> 's fs_calls \<Rightarrow> nat \<Rightarrow> 's \<Rightarrow> path list \<Rightarrow> ((file_error + unit) \<times> 's) option"
where
  "fs_remove_dir_all L K 0 s path = None"
| "fs_remove_dir_all L K (Suc fuel) s path =
     (case fs_read_dir L K s path of
        Inl e \<Rightarrow> Some (Err e, s)
      | Inr children \<Rightarrow>
          (case fs_remove_loop L K fuel s children of
             None \<Rightarrow> None
           | Some (Inl e, s') \<Rightarrow> Some (Err e, s')
           | Some (Inr _, s') \<Rightarrow>
               (case rmdir K s' (as_c path) of
                  (Inl e, s'') \<Rightarrow> Some (Err (from_errno L e (bstr ''rmdir'')), s'')
                | (Inr _, s'') \<Rightarrow> Some (Ok (), s''))))"
| "fs_remove_loop L K fuel s [] = Some (Ok (), s)"
| "fs_remove_loop L K fuel s (child # children) =
     (case symlink_metadata L (sys_lstat K s) child of
        Inl e \<Rightarrow> Some (Err e, s)
      | Inr link \<Rightarrow>
          if metadata_is_dir link then
            (case fs_remove_dir_all L K fuel s child of
               None \<Rightarrow> None
             | Some (Inl e, s') \<Rightarrow> Some (Err e, s')
             | Some (Inr _, s') \<Rightarrow> fs_remove_loop L K fuel s' children)
          else fs_remove_loop L K fuel (unlink K s (as_c child)) children)"

text \<open>\<open>file::remove_dir_all\<close>, which goes on whatever fails; \<open>entries\<close> are the answers of \<open>readdir\<close> still to come.\<close>

fun file_remove_dir_all :: "'s fs_calls \<Rightarrow> nat \<Rightarrow> 's \<Rightarrow> path \<Rightarrow> 's option"
  and file_remove_loop :: "'s fs_calls \<Rightarrow> nat \<Rightarrow> 's \<Rightarrow> path \<Rightarrow> bytes list \<Rightarrow> 's option"
where
  "file_remove_dir_all K 0 s path = None"
| "file_remove_dir_all K (Suc fuel) s path =
     (let c = as_c path in
      case sys_list K s c of
        Inl _ \<Rightarrow> Some s
      | Inr (entries, _) \<Rightarrow>
          (case file_remove_loop K fuel s path entries of
             None \<Rightarrow> None
           | Some s' \<Rightarrow> Some (snd (sys_rmdir K s' c))))"
| "file_remove_loop K fuel s path [] = Some s"
| "file_remove_loop K fuel s path (name # entries) =
     (if is_dot name then file_remove_loop K fuel s path entries
      else
        (let child = join path name; cc = as_c child in
         if (case sys_lstat K s cc of Inl _ \<Rightarrow> False | Inr st \<Rightarrow> st_mode st AND S_IFMT = S_IFDIR) then
           (case file_remove_dir_all K fuel s child of
              None \<Rightarrow> None
            | Some s' \<Rightarrow> file_remove_loop K fuel s' path entries)
         else file_remove_loop K fuel (snd (sys_unlink K s cc)) path entries))"

section \<open>Temporary directories\<close>

text \<open>\<open>TempDir::new_in\<close>: \<open>pid\<close> is the process's id, \<open>counter\<close> the static; it gives the path, the counter
  and the state afterwards. \<open>0o700\<close> is 448.\<close>

definition temp_name :: "bytes \<Rightarrow> bytes \<Rightarrow> nat \<Rightarrow> 64 word \<Rightarrow> bytes" where
  "temp_name pre suf pid n = pre @ dec_nat pid @ bstr ''-'' @ dec_nat (unat n) @ suf"

fun temp_dir_loop :: "libc \<Rightarrow> 's fs_calls \<Rightarrow> (64 word \<Rightarrow> bytes) \<Rightarrow> path \<Rightarrow> nat \<Rightarrow> 64 word \<Rightarrow> 's
    \<Rightarrow> (file_error + path) \<times> 64 word \<times> 's" where
  "temp_dir_loop L K name base 0 counter s =
     (Err (from_errno L (EEXIST L) (bstr ''tempdir'')), counter, s)"
| "temp_dir_loop L K name base (Suc tries) counter s =
     (let n = counter; counter = counter + 1; at = join base (name n) in
      case sys_mkdir K s (as_c at) 448 of
        (None, s') \<Rightarrow> (Ok at, counter, s')
      | (Some e, s') \<Rightarrow>
          if e \<noteq> EEXIST L then (Err (from_errno L e (bstr ''mkdir'')), counter, s')
          else temp_dir_loop L K name base tries counter s')"

definition temp_dir_new_in :: "libc \<Rightarrow> 's fs_calls \<Rightarrow> nat \<Rightarrow> path \<Rightarrow> bytes \<Rightarrow> bytes \<Rightarrow> 64 word \<Rightarrow> 's
    \<Rightarrow> (file_error + path) \<times> 64 word \<times> 's" where
  "temp_dir_new_in L K pid dir pre suf counter s =
     temp_dir_loop L K (temp_name pre suf pid) dir 64 counter s"

text \<open>\<open>TempDir::new\<close>: under the directory \<open>env::temp_dir\<close> names.\<close>

definition temp_dir_new :: "libc \<Rightarrow> 's fs_calls \<Rightarrow> 'e getenv \<Rightarrow> 'e \<Rightarrow> nat \<Rightarrow> bytes \<Rightarrow> bytes \<Rightarrow> 64 word \<Rightarrow> 's
    \<Rightarrow> (file_error + path) \<times> 64 word \<times> 's" where
  "temp_dir_new L K getenv e pid pre suf counter s =
     temp_dir_new_in L K pid (temp_dir getenv e) pre suf counter s"

text \<open>\<open>Drop for TempDir\<close>.\<close>

definition temp_dir_drop :: "'s fs_calls \<Rightarrow> nat \<Rightarrow> 's \<Rightarrow> path \<Rightarrow> 's option" where
  "temp_dir_drop K fuel s at = file_remove_dir_all K fuel s at"

section \<open>Both ways of creating are one\<close>

lemma create_loops_agree:
  "\<forall>part \<in> set ps. part \<noteq> [] \<and> SEP \<notin> set part \<Longrightarrow> at = [] \<or> at = [SEP] \<or> last at \<noteq> SEP \<Longrightarrow>
    file_create_loop L K s at ps = fs_create_loop L K s at ps"
proof (induction ps arbitrary: s at)
  case Nil
  then show ?case by simp
next
  case (Cons part ps)
  let ?at = "(if 1 < length at \<or> length at = 1 \<and> at ! 0 \<noteq> SEP then at @ [SEP] else at) @ part"
  have ne: "part \<noteq> []" "SEP \<notin> set part" using Cons.prems(1) by simp_all
  then have "last part \<noteq> SEP" "\<not> is_absolute part"
    using last_in_set [of part] by (metis, cases part) (auto simp: is_absolute_def)
  note part = ne(1) this
  have at: "?at = push at part"
    using Cons.prems(2) part(3)
    by (cases at) (auto simp: push_def slice_ends_with_single length_Suc_conv split: if_splits)
  have "file_create_loop L K s' ?at ps = fs_create_loop L K s' ?at ps" for s'
    using Cons.prems(1) part by (intro Cons.IH) auto
  moreover have "file_create_loop L K s at (part # ps) =
      (let at = ?at in case sys_mkdir K s (as_c at) 493 of
        (None, s') \<Rightarrow> file_create_loop L K s' at ps
      | (Some e, s') \<Rightarrow>
          if e \<noteq> EEXIST L then (Err (from_errno L e (bstr ''mkdir'')), s') else file_create_loop L K s' at ps)"
    by (simp only: file_create_loop.simps Let_def as_c_def)
  ultimately show ?case unfolding at using part(1)
    by (simp add: Let_def mkdir_def split: option.split prod.split)
qed

section \<open>What the system promises of a tree\<close>

text \<open>
  The tree under the directory \<open>base\<close>: \<open>view s ns\<close> is what is found by going down the names \<open>ns\<close> from it,
  \<open>outside s\<close> is everything else in the file system, and \<open>good s\<close> are the states the system is in. Of a
  name that is there, under the path built by joining, POSIX says: a listing gives names of the
  directory, each once; \<open>lstat\<close> says whether the name itself is a directory; \<open>unlink\<close> on what is not a
  directory, and \<open>rmdir\<close> on a directory, remove that name and nothing else, or fail; \<open>unlink\<close> fails on
  a directory, and \<open>rmdir\<close> on one that is not empty. Any of them may fail.
\<close>

datatype entry = Dir_Entry | Other_Entry

definition child_path :: "path \<Rightarrow> bytes list \<Rightarrow> path" where
  "child_path base ns = foldl join base ns"

lemma child_path_snoc: "join (child_path base ns) n = child_path base (ns @ [n])"
  by (simp add: child_path_def)

definition names_law :: "('s \<Rightarrow> bool) \<Rightarrow> ('s \<Rightarrow> bytes list \<Rightarrow> entry option) \<Rightarrow> bool" where
  "names_law good view \<longleftrightarrow>
     (\<forall>s ns n. good s \<longrightarrow> view s (ns @ [n]) \<noteq> None \<longrightarrow> view s ns = Some Dir_Entry \<and> \<not> is_dot n)"

definition list_law :: "'s fs_calls \<Rightarrow> path \<Rightarrow> ('s \<Rightarrow> bool) \<Rightarrow> ('s \<Rightarrow> bytes list \<Rightarrow> entry option) \<Rightarrow> bool" where
  "list_law K base good view \<longleftrightarrow>
     (\<forall>s ns es e. good s \<longrightarrow> view s ns = Some Dir_Entry \<longrightarrow> sys_list K s (as_c (child_path base ns)) = Inr (es, e) \<longrightarrow>
        distinct es \<and> (\<forall>n \<in> set es. \<not> is_dot n \<longrightarrow> view s (ns @ [n]) \<noteq> None))"

definition lstat_law :: "'s fs_calls \<Rightarrow> path \<Rightarrow> ('s \<Rightarrow> bool) \<Rightarrow> ('s \<Rightarrow> bytes list \<Rightarrow> entry option) \<Rightarrow> bool" where
  "lstat_law K base good view \<longleftrightarrow>
     (\<forall>s ns x st. good s \<longrightarrow> view s ns = Some x \<longrightarrow> sys_lstat K s (as_c (child_path base ns)) = Inr st \<longrightarrow>
        metadata_is_dir st = (x = Dir_Entry))"

definition removal_law :: "path \<Rightarrow> ('s \<Rightarrow> bool) \<Rightarrow> ('s \<Rightarrow> bytes list \<Rightarrow> entry option) \<Rightarrow> ('s \<Rightarrow> 'o)
    \<Rightarrow> ('s \<Rightarrow> bytes \<Rightarrow> errno option \<times> 's) \<Rightarrow> entry \<Rightarrow> bool" where
  "removal_law base good view outside call x \<longleftrightarrow>
     (\<forall>s ns r s'. good s \<longrightarrow> view s ns = Some x \<longrightarrow> call s (as_c (child_path base ns)) = (r, s') \<longrightarrow>
        good s' \<and> outside s' = outside s
        \<and> view s' = (if r = None then (view s)(ns := None) else view s)
        \<and> (r = None \<longrightarrow> (\<forall>n. view s (ns @ [n]) = None)))"

definition unlink_dir_law :: "'s fs_calls \<Rightarrow> path \<Rightarrow> ('s \<Rightarrow> bool) \<Rightarrow> ('s \<Rightarrow> bytes list \<Rightarrow> entry option) \<Rightarrow> ('s \<Rightarrow> 'o) \<Rightarrow> bool" where
  "unlink_dir_law K base good view outside \<longleftrightarrow>
     (\<forall>s ns r s'. good s \<longrightarrow> view s ns = Some Dir_Entry \<longrightarrow> sys_unlink K s (as_c (child_path base ns)) = (r, s') \<longrightarrow>
        r \<noteq> None \<and> good s' \<and> outside s' = outside s \<and> view s' = view s)"

definition tree_laws :: "'s fs_calls \<Rightarrow> path \<Rightarrow> ('s \<Rightarrow> bool) \<Rightarrow> ('s \<Rightarrow> bytes list \<Rightarrow> entry option) \<Rightarrow> ('s \<Rightarrow> 'o) \<Rightarrow> bool" where
  "tree_laws K base good view outside \<longleftrightarrow>
     names_law good view \<and> list_law K base good view \<and> lstat_law K base good view
     \<and> unlink_dir_law K base good view outside
     \<and> removal_law base good view outside (sys_unlink K) Other_Entry
     \<and> removal_law base good view outside (sys_rmdir K) Dir_Entry"

text \<open>From \<open>s\<close> to \<open>t\<close> nothing has changed but that names satisfying \<open>P\<close> may be gone.\<close>

definition shrinks :: "('s \<Rightarrow> bool) \<Rightarrow> ('s \<Rightarrow> bytes list \<Rightarrow> entry option) \<Rightarrow> ('s \<Rightarrow> 'o) \<Rightarrow> (bytes list \<Rightarrow> bool)
    \<Rightarrow> 's \<Rightarrow> 's \<Rightarrow> bool" where
  "shrinks good view outside P s t \<longleftrightarrow>
     good t \<and> outside t = outside s \<and> (\<forall>xs. view t xs = view s xs \<or> view t xs = None \<and> P xs)"

lemma shrinks_refl: "good s \<Longrightarrow> shrinks good view outside P s s"
  by (simp add: shrinks_def)

lemma shrinks_trans:
  assumes "shrinks good view outside P s t" "shrinks good view outside Q t u"
    "\<And>xs. P xs \<Longrightarrow> R xs" "\<And>xs. Q xs \<Longrightarrow> R xs"
  shows "shrinks good view outside R s u"
  using assms unfolding shrinks_def by metis

lemma shrinks_mono:
  assumes "shrinks good view outside P s t" "\<And>xs. P xs \<Longrightarrow> Q xs"
  shows "shrinks good view outside Q s t"
  using assms unfolding shrinks_def by metis

lemma shrinks_finite: "shrinks good view outside P s t \<Longrightarrow> finite (dom (view s)) \<Longrightarrow> finite (dom (view t))"
  by (rule finite_subset [of _ "dom (view s)"]) (auto simp: shrinks_def dom_def, metis option.distinct(1))

lemma shrinks_keeps: "shrinks good view outside P s t \<Longrightarrow> \<not> P xs \<Longrightarrow> view t xs = view s xs"
  unfolding shrinks_def by metis

lemma shrinks_removal:
  assumes "removal_law base good view outside call x" "good s" "view s ns = Some x"
    and "call s (as_c (child_path base ns)) = (r, t)"
  shows "shrinks good view outside (prefix ns) s t"
  using assms unfolding removal_law_def shrinks_def by (metis fun_upd_apply prefix_order.order_refl)

definition below :: "('s \<Rightarrow> bytes list \<Rightarrow> entry option) \<Rightarrow> 's \<Rightarrow> bytes list \<Rightarrow> bytes list set" where
  "below view s ns = {xs. prefix ns xs \<and> view s xs \<noteq> None}"

lemma shrinks_unlink:
  assumes "tree_laws K base good view outside" "good s" "view s ns = Some x"
    and u: "sys_unlink K s (as_c (child_path base ns)) = (r, t)"
  shows "shrinks good view outside (prefix ns) s t"
proof (cases x)
  case Dir_Entry
  with assms have "good t \<and> outside t = outside s \<and> view t = view s"
    unfolding tree_laws_def unlink_dir_law_def by blast
  then show ?thesis by (simp add: shrinks_def)
next
  case Other_Entry
  with assms show ?thesis unfolding tree_laws_def by (blast intro: shrinks_removal)
qed

lemma below_child:
  assumes "finite (dom (view s))" "view s ns \<noteq> None" "card (below view s ns) \<le> Suc fuel"
  shows "card (below view s (ns @ [m])) \<le> fuel"
proof -
  have "finite (below view s ns)"
    using assms(1) by (rule finite_subset [rotated]) (auto simp: below_def)
  moreover have "below view s (ns @ [m]) \<subseteq> below view s ns"
    by (auto simp: below_def dest: append_prefixD)
  moreover have "ns \<in> below view s ns" "ns \<notin> below view s (ns @ [m])"
    using assms(2) by (auto simp: below_def)
  then have "below view s (ns @ [m]) \<noteq> below view s ns" by blast
  ultimately have "card (below view s (ns @ [m])) < card (below view s ns)"
    by (intro psubset_card_mono psubsetI)
  with assms(3) show ?thesis by simp
qed

lemma below_shrinks:
  assumes "shrinks good view outside P s t" "finite (dom (view s))"
  shows "card (below view t ns) \<le> card (below view s ns)"
proof (rule card_mono)
  show "finite (below view s ns)" using assms(2) by (rule finite_subset [rotated]) (auto simp: below_def)
  show "below view t ns \<subseteq> below view s ns"
  proof
    fix xs
    assume "xs \<in> below view t ns"
    moreover have "view t xs = view s xs \<or> view t xs = None" using assms(1) by (auto simp: shrinks_def)
    ultimately show "xs \<in> below view s ns" by (auto simp: below_def)
  qed
qed

lemma gone_below:
  assumes "names_law good view" "good t" "view t ns = None"
  shows "view t (ns @ zs) = None"
  using assms(3)
proof (induction zs rule: rev_induct)
  case (snoc z zs)
  then show ?case using assms(1,2) unfolding names_law_def
    by (metis append_assoc option.distinct(1))
qed simp

section \<open>Removing a tree\<close>

lemma entries_loop_map: "entries_loop p es = map (join p) (filter (\<lambda>n. \<not> is_dot n) es)"
  by (induction es) auto

lemma child_strict: "prefix (ns @ [m]) xs \<Longrightarrow> strict_prefix ns xs"
  by (metis append_prefixD not_Cons_self2 append_self_conv prefix_order.le_less
      prefix_order.antisym same_prefix_prefix prefix_bot.extremum_uniqueI)

text \<open>The loop over the children of \<open>ns\<close>, given the removal of each child.\<close>

lemma fs_remove_loop_shrinks:
  assumes laws: "tree_laws K base good view outside"
    and dir: "\<And>s m. good s \<Longrightarrow> finite (dom (view s)) \<Longrightarrow> view s (ns @ [m]) = Some Dir_Entry \<Longrightarrow>
      card (below view s (ns @ [m])) \<le> fuel \<Longrightarrow>
      \<exists>r t. fs_remove_dir_all L K fuel s (child_path base (ns @ [m])) = Some (r, t)
        \<and> shrinks good view outside (prefix (ns @ [m])) s t"
  shows "good s \<Longrightarrow> finite (dom (view s)) \<Longrightarrow> distinct ms \<Longrightarrow>
    \<forall>m \<in> set ms. view s (ns @ [m]) \<noteq> None \<and> card (below view s (ns @ [m])) \<le> fuel \<Longrightarrow>
    \<exists>r t. fs_remove_loop L K fuel s (map (join (child_path base ns)) ms) = Some (r, t)
      \<and> shrinks good view outside (strict_prefix ns) s t"
proof (induction ms arbitrary: s)
  case Nil
  then show ?case by (auto intro: shrinks_refl)
next
  case (Cons m ms)
  let ?c = "child_path base (ns @ [m])"
  have c: "join (child_path base ns) m = ?c" by (rule child_path_snoc)
  have goes_on: "\<exists>r t. fs_remove_loop L K fuel s' (map (join (child_path base ns)) ms) = Some (r, t)
      \<and> shrinks good view outside (strict_prefix ns) s t"
    if sh: "shrinks good view outside (prefix (ns @ [m])) s s'" for s'
  proof -
    have same: "view s' (ns @ [k]) = view s (ns @ [k])" if "k \<in> set ms" for k
      using shrinks_keeps [OF sh, of "ns @ [k]"] that Cons.prems(3) by auto
    have "\<exists>r t. fs_remove_loop L K fuel s' (map (join (child_path base ns)) ms) = Some (r, t)
        \<and> shrinks good view outside (strict_prefix ns) s' t"
    proof (rule Cons.IH)
      show "good s'" using sh by (simp add: shrinks_def)
      show "finite (dom (view s'))" by (rule shrinks_finite [OF sh Cons.prems(2)])
      show "\<forall>k \<in> set ms. view s' (ns @ [k]) \<noteq> None \<and> card (below view s' (ns @ [k])) \<le> fuel"
        using Cons.prems(4) same below_shrinks [OF sh Cons.prems(2)] by (fastforce intro: le_trans)
    qed (use Cons.prems(3) in simp)
    then obtain r t where loop: "fs_remove_loop L K fuel s' (map (join (child_path base ns)) ms) = Some (r, t)"
      and rest: "shrinks good view outside (strict_prefix ns) s' t" by blast
    have "shrinks good view outside (strict_prefix ns) s t"
      by (rule shrinks_trans [OF sh rest]) (auto dest: child_strict)
    with loop show ?thesis by blast
  qed
  obtain x where x: "view s (ns @ [m]) = Some x" using Cons.prems(4) by auto
  show ?case
  proof (cases "sys_lstat K s (as_c ?c)")
    case (Inl e)
    moreover have "shrinks good view outside (strict_prefix ns) s s" by (rule shrinks_refl) (rule Cons.prems)
    ultimately show ?thesis by (auto simp: symlink_metadata_def c)
  next
    case (Inr st)
    then have d: "metadata_is_dir st = (x = Dir_Entry)"
      using laws Cons.prems(1) x unfolding tree_laws_def lstat_law_def by blast
    show ?thesis
    proof (cases x)
      case Dir_Entry
      with x Cons.prems dir [of s m] obtain r s' where
        r: "fs_remove_dir_all L K fuel s ?c = Some (r, s')" and sh: "shrinks good view outside (prefix (ns @ [m])) s s'"
        by auto
      have "shrinks good view outside (strict_prefix ns) s s'"
        by (rule shrinks_mono [OF sh]) (rule child_strict)
      with goes_on [OF sh] r Inr d Dir_Entry show ?thesis
        by (cases r) (auto simp: symlink_metadata_def c)
    next
      case Other_Entry
      obtain a s' where u: "sys_unlink K s (as_c ?c) = (a, s')" by fastforce
      from goes_on [OF shrinks_unlink [OF laws Cons.prems(1) x u]] Inr d Other_Entry u show ?thesis
        by (simp add: symlink_metadata_def c unlink_def)
    qed
  qed
qed

lemma fs_remove_shrinks:
  assumes laws: "tree_laws K base good view outside"
  shows "good s \<Longrightarrow> finite (dom (view s)) \<Longrightarrow> view s ns = Some Dir_Entry \<Longrightarrow> card (below view s ns) \<le> fuel \<Longrightarrow>
    \<exists>r t. fs_remove_dir_all L K fuel s (child_path base ns) = Some (r, t)
      \<and> shrinks good view outside (prefix ns) s t \<and> (r = Ok () \<longrightarrow> (\<forall>zs. view t (ns @ zs) = None))"
proof (induction fuel arbitrary: s ns)
  case 0
  have "finite (below view s ns)" "ns \<in> below view s ns"
    using 0 by (auto simp: below_def intro: finite_subset [rotated])
  then have "card (below view s ns) \<noteq> 0" by auto
  with 0 show ?case by simp
next
  case (Suc fuel)
  let ?p = "child_path base ns"
  show ?case
  proof (cases "fs_read_dir L K s ?p")
    case (Inl e)
    moreover have "shrinks good view outside (prefix ns) s s" by (rule shrinks_refl) (rule Suc.prems)
    ultimately show ?thesis by auto
  next
    case (Inr children)
    then obtain es where es: "sys_list K s (as_c ?p) = Inr (es, 0)" "children = entries_loop ?p es"
      by (auto simp: fs_read_dir_def split: sum.splits if_splits)
    let ?ms = "filter (\<lambda>n. \<not> is_dot n) es"
    have ms: "distinct ?ms" "\<forall>m \<in> set ?ms. view s (ns @ [m]) \<noteq> None \<and> card (below view s (ns @ [m])) \<le> fuel"
      using laws Suc.prems(1,3) es(1) below_child [OF Suc.prems(2) _ Suc.prems(4)]
      unfolding tree_laws_def list_law_def by auto
    have "\<exists>r t. fs_remove_loop L K fuel s (map (join ?p) ?ms) = Some (r, t)
        \<and> shrinks good view outside (strict_prefix ns) s t"
      using Suc.IH by (intro fs_remove_loop_shrinks [OF laws _ Suc.prems(1,2) ms]) blast
    then obtain r s' where loop: "fs_remove_loop L K fuel s children = Some (r, s')"
      and sh: "shrinks good view outside (strict_prefix ns) s s'"
      using es(2) by (auto simp: entries_loop_map)
    obtain a t where rm: "sys_rmdir K s' (as_c ?p) = (a, t)" by fastforce
    have law: "removal_law base good view outside (sys_rmdir K) Dir_Entry" and names: "names_law good view"
      using laws by (simp_all add: tree_laws_def)
    have dir: "view s' ns = Some Dir_Entry" using shrinks_keeps [OF sh, of ns] Suc.prems(3) by simp
    have good': "good s'" using sh by (simp add: shrinks_def)
    note rsh = shrinks_removal [OF law good' dir rm]
    have all: "shrinks good view outside (prefix ns) s t" "shrinks good view outside (prefix ns) s s'"
      using shrinks_trans [OF sh rsh] sh unfolding shrinks_def by (auto simp: strict_prefix_def)
    have "view t (ns @ zs) = None" if "a = None" for zs
    proof (rule gone_below [OF names])
      show "good t" using rsh by (simp add: shrinks_def)
      have "view t = (if a = None then (view s')(ns := None) else view s')"
        using law good' dir rm unfolding removal_law_def by blast
      then show "view t ns = None" using that by simp
    qed
    moreover have "fs_remove_dir_all L K (Suc fuel) s ?p = Some
        (case r of Inl e \<Rightarrow> (Err e, s')
         | Inr _ \<Rightarrow> (case a of Some e \<Rightarrow> Err (from_errno L e (bstr ''rmdir'')) | None \<Rightarrow> Ok (), t))"
      by (simp add: Inr loop rm rmdir_def split: sum.split option.split)
    ultimately show ?thesis using all by (cases r; cases a) simp_all
  qed
qed

text \<open>The same of \<open>file::remove_dir_all\<close>, which skips what fails.\<close>

lemma file_remove_loop_shrinks:
  assumes laws: "tree_laws K base good view outside"
    and dir: "\<And>s m. good s \<Longrightarrow> finite (dom (view s)) \<Longrightarrow> view s (ns @ [m]) = Some Dir_Entry \<Longrightarrow>
      card (below view s (ns @ [m])) \<le> fuel \<Longrightarrow>
      \<exists>t. file_remove_dir_all K fuel s (child_path base (ns @ [m])) = Some t
        \<and> shrinks good view outside (prefix (ns @ [m])) s t"
  shows "good s \<Longrightarrow> finite (dom (view s)) \<Longrightarrow> distinct es \<Longrightarrow>
    \<forall>m \<in> set es. \<not> is_dot m \<longrightarrow> view s (ns @ [m]) \<noteq> None \<and> card (below view s (ns @ [m])) \<le> fuel \<Longrightarrow>
    \<exists>t. file_remove_loop K fuel s (child_path base ns) es = Some t
      \<and> shrinks good view outside (strict_prefix ns) s t"
proof (induction es arbitrary: s)
  case Nil
  then show ?case by (auto intro: shrinks_refl)
next
  case (Cons m es)
  let ?c = "child_path base (ns @ [m])"
  have c: "join (child_path base ns) m = ?c" by (rule child_path_snoc)
  have goes_on: "\<exists>t. file_remove_loop K fuel s' (child_path base ns) es = Some t
      \<and> shrinks good view outside (strict_prefix ns) s t"
    if sh: "shrinks good view outside (prefix (ns @ [m])) s s'" for s'
  proof -
    have same: "view s' (ns @ [k]) = view s (ns @ [k])" if "k \<in> set es" for k
      using shrinks_keeps [OF sh, of "ns @ [k]"] that Cons.prems(3) by auto
    have "\<exists>t. file_remove_loop K fuel s' (child_path base ns) es = Some t
        \<and> shrinks good view outside (strict_prefix ns) s' t"
    proof (rule Cons.IH)
      show "good s'" using sh by (simp add: shrinks_def)
      show "finite (dom (view s'))" by (rule shrinks_finite [OF sh Cons.prems(2)])
      show "\<forall>k \<in> set es. \<not> is_dot k \<longrightarrow> view s' (ns @ [k]) \<noteq> None \<and> card (below view s' (ns @ [k])) \<le> fuel"
        using Cons.prems(4) same below_shrinks [OF sh Cons.prems(2)] by (fastforce intro: le_trans)
    qed (use Cons.prems(3) in simp)
    then obtain t where loop: "file_remove_loop K fuel s' (child_path base ns) es = Some t"
      and rest: "shrinks good view outside (strict_prefix ns) s' t" by blast
    have "shrinks good view outside (strict_prefix ns) s t"
      by (rule shrinks_trans [OF sh rest]) (auto dest: child_strict)
    with loop show ?thesis by blast
  qed
  show ?case
  proof (cases "is_dot m")
    case True
    then show ?thesis using Cons.IH [OF Cons.prems(1,2)] Cons.prems(3,4) by simp
  next
    case False
    then obtain x where x: "view s (ns @ [m]) = Some x" "card (below view s (ns @ [m])) \<le> fuel"
      using Cons.prems(4) by auto
    let ?d = "case sys_lstat K s (as_c ?c) of Inl _ \<Rightarrow> False | Inr st \<Rightarrow> st_mode st AND S_IFMT = S_IFDIR"
    have d: "?d \<Longrightarrow> x = Dir_Entry"
      using laws Cons.prems(1) x unfolding tree_laws_def lstat_law_def
      by (auto simp: metadata_is_dir_def split: sum.splits)
    show ?thesis
    proof (cases ?d)
      case True
      with d x Cons.prems dir [of s m] obtain s' where
        r: "file_remove_dir_all K fuel s ?c = Some s'" and sh: "shrinks good view outside (prefix (ns @ [m])) s s'"
        by auto
      with goes_on [OF sh] True False show ?thesis by (simp add: c Let_def)
    next
      case other: False
      obtain a s' where u: "sys_unlink K s (as_c ?c) = (a, s')" by fastforce
      from goes_on [OF shrinks_unlink [OF laws Cons.prems(1) x(1) u]] u other False show ?thesis
        by (simp only: file_remove_loop.simps Let_def c if_False snd_conv)
    qed
  qed
qed

lemma file_remove_shrinks:
  assumes laws: "tree_laws K base good view outside"
  shows "good s \<Longrightarrow> finite (dom (view s)) \<Longrightarrow> view s ns = Some Dir_Entry \<Longrightarrow> card (below view s ns) \<le> fuel \<Longrightarrow>
    \<exists>t. file_remove_dir_all K fuel s (child_path base ns) = Some t \<and> shrinks good view outside (prefix ns) s t"
proof (induction fuel arbitrary: s ns)
  case 0
  have "finite (below view s ns)" "ns \<in> below view s ns"
    using 0 by (auto simp: below_def intro: finite_subset [rotated])
  then have "card (below view s ns) \<noteq> 0" by auto
  with 0 show ?case by simp
next
  case (Suc fuel)
  let ?p = "child_path base ns"
  show ?case
  proof (cases "sys_list K s (as_c ?p)")
    case (Inl e)
    moreover have "shrinks good view outside (prefix ns) s s" by (rule shrinks_refl) (rule Suc.prems)
    ultimately show ?thesis by auto
  next
    case (Inr listing)
    then obtain es e where es: "sys_list K s (as_c ?p) = Inr (es, e)" by (cases listing) auto
    have ms: "distinct es" "\<forall>m \<in> set es. \<not> is_dot m \<longrightarrow> view s (ns @ [m]) \<noteq> None \<and> card (below view s (ns @ [m])) \<le> fuel"
      using laws Suc.prems(1,3) es below_child [OF Suc.prems(2) _ Suc.prems(4)]
      unfolding tree_laws_def list_law_def by auto
    have "\<exists>t. file_remove_loop K fuel s ?p es = Some t \<and> shrinks good view outside (strict_prefix ns) s t"
      using Suc.IH by (intro file_remove_loop_shrinks [OF laws _ Suc.prems(1,2) ms]) blast
    then obtain s' where loop: "file_remove_loop K fuel s ?p es = Some s'"
      and sh: "shrinks good view outside (strict_prefix ns) s s'" by blast
    obtain a t where rm: "sys_rmdir K s' (as_c ?p) = (a, t)" by fastforce
    have law: "removal_law base good view outside (sys_rmdir K) Dir_Entry" using laws by (simp add: tree_laws_def)
    have dir: "view s' ns = Some Dir_Entry" using shrinks_keeps [OF sh, of ns] Suc.prems(3) by simp
    have good': "good s'" using sh by (simp add: shrinks_def)
    have "shrinks good view outside (prefix ns) s t"
      by (rule shrinks_trans [OF sh shrinks_removal [OF law good' dir rm]]) (auto simp: strict_prefix_def)
    moreover have "file_remove_dir_all K (Suc fuel) s ?p = Some t" by (simp add: es loop rm Let_def)
    ultimately show ?thesis by blast
  qed
qed

section \<open>Properties\<close>

text \<open>C23 (equivalence). The two \<open>create_dir_all\<close> are one function: the bytes \<open>file\<close> puts together by hand are,
  for every path, the ones \<open>fs\<close> gets from \<open>PathBuf::push\<close>, so the same \<open>mkdir\<close>s are made in the same
  order and end in the same result.\<close>

theorem create_dir_all_agree:
  "file_create_dir_all L K s path = fs_create_dir_all L K s path"
proof -
  have ps: "\<forall>part \<in> set (parts path). part \<noteq> [] \<and> SEP \<notin> set part"
    using split_on_pieces [of _ "\<lambda>b. b = SEP" path] by (fastforce simp: parts_def)
  show ?thesis
    using create_loops_agree [OF ps, of "if is_absolute path then [SEP] else []" L K s]
    by (simp add: file_create_dir_all_def fs_create_dir_all_def Let_def parts_def push_def is_absolute_def)
qed

text \<open>C3 (safety). Whatever calls fail, \<open>fs::remove_dir_all\<close> returns, has removed nothing that is not under
  the directory it was given, and nothing it has removed was still needed: what is left is a tree. If
  it returns \<open>Ok\<close> the directory and everything in it is gone. \<open>file::remove_dir_all\<close>, which \<open>TempDir\<close>
  drops with, removes nothing else either.\<close>

theorem remove_dir_all_stays_inside:
  assumes "tree_laws K base good view outside" "good s" "finite (dom (view s))" "view s [] = Some Dir_Entry"
    and "card (dom (view s)) \<le> fuel"
  shows "(\<exists>r t. fs_remove_dir_all L K fuel s base = Some (r, t) \<and> outside t = outside s
        \<and> (\<forall>ns. view t ns = view s ns \<or> view t ns = None) \<and> (r = Ok () \<longrightarrow> (\<forall>ns. view t ns = None)))
    \<and> (\<exists>t. file_remove_dir_all K fuel s base = Some t \<and> outside t = outside s
        \<and> (\<forall>ns. view t ns = view s ns \<or> view t ns = None))"
proof -
  have "below view s [] = dom (view s)" by (auto simp: below_def)
  then have c: "card (below view s []) \<le> fuel" using assms(5) by simp
  have b: "child_path base [] = base" by (simp add: child_path_def)
  from fs_remove_shrinks [OF assms(1-4) c, of L] file_remove_shrinks [OF assms(1-4) c]
  show ?thesis unfolding b shrinks_def by (metis append_Nil)
qed

end
