(* ===== verification/File_Tables.thy ===== *)
theory File_Tables
  imports Directories
begin

text \<open>
  A small file system in which the calls of the theory Directories can be evaluated: a table from the
  names below the root to a directory, a file, or a link to names below the root. It keeps what
  \<open>tree_laws\<close> asks of a system, and shows what the removals do with a link.
\<close>

datatype node = N_Dir | N_File | N_Link "bytes list"

type_synonym file_table = "(bytes list \<times> node) list"

definition node_at :: "file_table \<Rightarrow> bytes list \<Rightarrow> node option" where
  "node_at s xs = (if xs = [] then Some N_Dir else map_of s xs)"

text \<open>From the directory \<open>cur\<close> down the names; a link is followed on the way, not at the end.\<close>

fun walk :: "file_table \<Rightarrow> bytes list \<Rightarrow> bytes list \<Rightarrow> bytes list option" where
  "walk s cur [] = Some cur"
| "walk s cur (n # ns) =
     (case node_at s cur of
        Some N_Dir \<Rightarrow> walk s (cur @ [n]) ns
      | Some (N_Link t) \<Rightarrow> if node_at s t = Some N_Dir then walk s (t @ [n]) ns else None
      | _ \<Rightarrow> None)"

definition resolve :: "file_table \<Rightarrow> bytes \<Rightarrow> bytes list option" where
  "resolve s c = walk s [] (parts (butlast c))"

definition kids :: "file_table \<Rightarrow> bytes list \<Rightarrow> bytes list" where
  "kids s xs = map last (filter (\<lambda>ys. ys \<noteq> [] \<and> butlast ys = xs) (map fst s))"

definition without :: "bytes list \<Rightarrow> file_table \<Rightarrow> file_table" where
  "without xs s = filter (\<lambda>(ys, _). ys \<noteq> xs) s"

definition table_calls :: "file_table fs_calls" where
  "table_calls = \<lparr>
     sys_mkdir = (\<lambda>s c _. case resolve s c of
         None \<Rightarrow> (Some 2, s)
       | Some xs \<Rightarrow> if node_at s xs \<noteq> None then (Some 17, s) else (None, (xs, N_Dir) # s)),
     sys_rmdir = (\<lambda>s c. case resolve s c of
         None \<Rightarrow> (Some 2, s)
       | Some xs \<Rightarrow>
           if node_at s xs \<noteq> Some N_Dir then (Some 20, s)
           else if kids s xs \<noteq> [] then (Some 39, s) else (None, without xs s)),
     sys_unlink = (\<lambda>s c. case resolve s c of
         None \<Rightarrow> (Some 2, s)
       | Some xs \<Rightarrow>
           (case node_at s xs of None \<Rightarrow> (Some 2, s) | Some N_Dir \<Rightarrow> (Some 21, s) | _ \<Rightarrow> (None, without xs s))),
     sys_list = (\<lambda>s c. case resolve s c of
         None \<Rightarrow> Inl 2
       | Some xs \<Rightarrow>
           (let ys = (case node_at s xs of Some (N_Link t) \<Rightarrow> t | _ \<Rightarrow> xs) in
            if node_at s ys = Some N_Dir then Inr ([DOT] # [DOT, DOT] # kids s ys, 0) else Inl 20)),
     sys_lstat = (\<lambda>s c. case resolve s c of
         None \<Rightarrow> Inl 2
       | Some xs \<Rightarrow>
           (case node_at s xs of
              None \<Rightarrow> Inl 2
            | Some n \<Rightarrow> Inr \<lparr>st_mode = (case n of N_Dir \<Rightarrow> S_IFDIR | N_File \<Rightarrow> S_IFREG | N_Link _ \<Rightarrow> S_IFLNK),
                st_size = 0, st_mtime = 0\<rparr>))\<rparr>"

section \<open>It is a system as the laws describe it\<close>

definition proper :: "bytes \<Rightarrow> bool" where
  "proper n \<longleftrightarrow> n \<noteq> [] \<and> SEP \<notin> set n \<and> \<not> is_dot n"

definition table_good :: "file_table \<Rightarrow> bool" where
  "table_good s \<longleftrightarrow> distinct (map fst s)
     \<and> (\<forall>xs \<in> set (map fst s). xs \<noteq> [] \<and> proper (last xs) \<and> node_at s (butlast xs) = Some N_Dir)"

text \<open>The tree under \<open>/t\<close>.\<close>

definition table_view :: "file_table \<Rightarrow> bytes list \<Rightarrow> entry option" where
  "table_view s ns =
     map_option (\<lambda>n. if n = N_Dir then Dir_Entry else Other_Entry) (node_at s (bstr ''t'' # ns))"

definition table_outside :: "file_table \<Rightarrow> file_table" where
  "table_outside s = filter (\<lambda>(xs, _). \<not> prefix [bstr ''t''] xs) s"

lemma parent_there:
  assumes "table_good s" "node_at s (xs @ [n]) \<noteq> None"
  shows "node_at s xs = Some N_Dir" "proper n"
proof -
  have "xs @ [n] \<in> set (map fst s)"
    using assms(2) by (auto simp: node_at_def dest: map_of_SomeD intro: rev_image_eqI)
  with assms(1) show "node_at s xs = Some N_Dir" "proper n"
    unfolding table_good_def by fastforce+
qed

lemma parts_child:
  assumes "\<forall>n \<in> set ns. proper n"
  shows "parts (child_path (bstr ''/t'') ns) = bstr ''t'' # ns
    \<and> child_path (bstr ''/t'') ns \<noteq> [] \<and> last (child_path (bstr ''/t'') ns) \<noteq> SEP"
  using assms
proof (induction ns rule: rev_induct)
  case Nil
  show ?case by (simp add: child_path_def parts_def)
next
  case (snoc n ns)
  let ?p = "child_path (bstr ''/t'') ns"
  have n: "n \<noteq> []" "SEP \<notin> set n" using snoc.prems by (simp_all add: proper_def)
  then have "\<not> is_absolute n" by (cases n) (auto simp: is_absolute_def)
  then have j: "child_path (bstr ''/t'') (ns @ [n]) = ?p @ SEP # n"
    using snoc by (simp add: child_path_snoc [symmetric] join_def push_def slice_ends_with_single)
  have "split_on (\<lambda>b. b = SEP) n = [n]" using n(2) by (intro split_on_none) auto
  moreover have "last n \<noteq> SEP" using n last_in_set [of n] by metis
  ultimately show ?case using j n snoc by (simp add: parts_def split_on_append)
qed

lemma walk_down:
  "(\<forall>k < length ns. node_at s (cur @ take k ns) = Some N_Dir) \<Longrightarrow> walk s cur ns = Some (cur @ ns)"
proof (induction ns arbitrary: cur)
  case (Cons n ns)
  have "node_at s ((cur @ [n]) @ take k ns) = Some N_Dir" if "k < length ns" for k
    using Cons.prems [rule_format, of "Suc k"] that by simp
  then have "walk s (cur @ [n]) ns = Some ((cur @ [n]) @ ns)" by (intro Cons.IH) blast
  with Cons.prems [rule_format, of 0] show ?case by simp
qed simp

lemma ancestors_there:
  assumes "table_good s"
  shows "node_at s xs \<noteq> None \<Longrightarrow> (\<forall>k < length xs. node_at s (take k xs) = Some N_Dir) \<and> (\<forall>n \<in> set xs. proper n)"
proof (induction xs rule: rev_induct)
  case (snoc n xs)
  note p = parent_there [OF assms snoc.prems]
  show ?case
  proof (intro conjI allI impI)
    fix k
    assume "k < length (xs @ [n])"
    then consider "k = length xs" | "k < length xs" by fastforce
    then show "node_at s (take k (xs @ [n])) = Some N_Dir" using p snoc.IH by cases auto
  qed (use p snoc.IH in auto)
qed simp

lemma resolve_child:
  assumes "table_good s" "table_view s ns \<noteq> None"
  shows "resolve s (as_c (child_path (bstr ''/t'') ns)) = Some (bstr ''t'' # ns)"
proof -
  have "node_at s (bstr ''t'' # ns) \<noteq> None" using assms(2) by (auto simp: table_view_def)
  from ancestors_there [OF assms(1) this] show ?thesis
    using parts_child [of ns] walk_down [of "bstr ''t'' # ns" s "[]"] by (simp add: resolve_def as_c_def)
qed

lemma without_simps:
  "node_at (without xs s) ys = (if ys = xs \<and> xs \<noteq> [] then None else node_at s ys)"
  "map fst (without xs s) = filter (\<lambda>ys. ys \<noteq> xs) (map fst s)"
  by (induction s) (auto simp: without_def node_at_def)

lemma good_without:
  assumes "table_good s" "xs \<noteq> []" "kids s xs = []"
  shows "table_good (without xs s)"
proof -
  have "butlast ys \<noteq> xs" if "ys \<in> set (map fst s)" for ys
    using assms(1,3) that by (auto simp: kids_def table_good_def filter_empty_conv)
  then show ?thesis using assms(1,2) unfolding table_good_def without_simps by auto
qed

lemma kids_iff: "n \<in> set (kids s xs) \<longleftrightarrow> node_at s (xs @ [n]) \<noteq> None"
proof -
  have "n \<in> set (kids s xs) \<longleftrightarrow> (\<exists>ys \<in> set (map fst s). ys \<noteq> [] \<and> butlast ys = xs \<and> last ys = n)"
    unfolding kids_def by (simp only: set_map set_filter) blast
  also have "\<dots> \<longleftrightarrow> xs @ [n] \<in> set (map fst s)"
    by (metis append_butlast_last_id butlast_snoc last_snoc snoc_eq_iff_butlast)
  also have "\<dots> \<longleftrightarrow> node_at s (xs @ [n]) \<noteq> None"
    by (auto simp: node_at_def map_of_eq_None_iff)
  finally show ?thesis .
qed

lemma kids_distinct:
  assumes "table_good s"
  shows "distinct (kids s xs)"
proof -
  have "inj_on last {ys. ys \<noteq> [] \<and> butlast ys = xs}"
    by (auto simp: inj_on_def) (metis append_butlast_last_id)
  moreover have "set (filter (\<lambda>ys. ys \<noteq> [] \<and> butlast ys = xs) (map fst s)) \<subseteq> {ys. ys \<noteq> [] \<and> butlast ys = xs}"
    by auto
  ultimately show ?thesis
    using assms unfolding kids_def table_good_def by (auto simp: distinct_map intro: inj_on_subset)
qed

lemma view_simps:
  "table_view s ns = Some Dir_Entry \<longleftrightarrow> node_at s (bstr ''t'' # ns) = Some N_Dir"
  "table_view s ns = Some Other_Entry \<longleftrightarrow> (\<exists>n. node_at s (bstr ''t'' # ns) = Some n \<and> n \<noteq> N_Dir)"
  by (auto simp: table_view_def)

lemma table_removed:
  assumes "table_good s" "kids s (bstr ''t'' # ns) = []"
  shows "table_good (without (bstr ''t'' # ns) s) \<and> table_outside (without (bstr ''t'' # ns) s) = table_outside s
    \<and> table_view (without (bstr ''t'' # ns) s) = (table_view s)(ns := None)
    \<and> (\<forall>n. table_view s (ns @ [n]) = None)"
proof (intro conjI)
  show "table_good (without (bstr ''t'' # ns) s)" using assms by (intro good_without) simp_all
  show "table_outside (without (bstr ''t'' # ns) s) = table_outside s"
    by (induction s) (auto simp: table_outside_def without_def)
  show "table_view (without (bstr ''t'' # ns) s) = (table_view s)(ns := None)"
    by (auto simp: table_view_def without_simps)
  show "\<forall>n. table_view s (ns @ [n]) = None"
    using kids_iff [of _ s "bstr ''t'' # ns"] assms(2) by (simp add: table_view_def)
qed

lemma other_no_kids:
  assumes "table_good s" "node_at s xs = Some n" "n \<noteq> N_Dir"
  shows "kids s xs = []"
  using parent_there(1) [OF assms(1), of xs] assms(2,3) kids_iff [of _ s xs]
  by (metis list.set_intros(1) neq_Nil_conv option.inject)

lemma table_call:
  assumes "table_good s" "node_at s (bstr ''t'' # ns) = Some n"
  shows "n = N_Dir \<Longrightarrow> sys_list table_calls s (as_c (child_path (bstr ''/t'') ns))
      = Inr ([DOT] # [DOT, DOT] # kids s (bstr ''t'' # ns), 0)"
    and "sys_lstat table_calls s (as_c (child_path (bstr ''/t'') ns)) = Inr st \<Longrightarrow>
      metadata_is_dir st = (n = N_Dir)"
    and "sys_unlink table_calls s (as_c (child_path (bstr ''/t'') ns))
      = (if n = N_Dir then (Some 21, s) else (None, without (bstr ''t'' # ns) s))"
    and "n = N_Dir \<Longrightarrow> sys_rmdir table_calls s (as_c (child_path (bstr ''/t'') ns))
      = (if kids s (bstr ''t'' # ns) \<noteq> [] then (Some 39, s) else (None, without (bstr ''t'' # ns) s))"
proof -
  have r: "resolve s (as_c (child_path (bstr ''/t'') ns)) = Some (bstr ''t'' # ns)"
    using assms by (intro resolve_child) (simp_all add: table_view_def)
  show "n = N_Dir \<Longrightarrow> sys_list table_calls s (as_c (child_path (bstr ''/t'') ns))
      = Inr ([DOT] # [DOT, DOT] # kids s (bstr ''t'' # ns), 0)"
    and "sys_unlink table_calls s (as_c (child_path (bstr ''/t'') ns))
      = (if n = N_Dir then (Some 21, s) else (None, without (bstr ''t'' # ns) s))"
    and "n = N_Dir \<Longrightarrow> sys_rmdir table_calls s (as_c (child_path (bstr ''/t'') ns))
      = (if kids s (bstr ''t'' # ns) \<noteq> [] then (Some 39, s) else (None, without (bstr ''t'' # ns) s))"
    using assms(2) r by (simp_all add: table_calls_def Let_def split: node.split)
  show "sys_lstat table_calls s (as_c (child_path (bstr ''/t'') ns)) = Inr st \<Longrightarrow> metadata_is_dir st = (n = N_Dir)"
    using assms(2) r
    by (auto simp: table_calls_def metadata_is_dir_def S_IFMT_def S_IFDIR_def S_IFREG_def S_IFLNK_def split: node.splits)
qed

lemma table_listing:
  assumes "table_good s"
  shows "distinct ([DOT] # [DOT, DOT] # kids s xs)"
proof -
  have "\<not> is_dot n" if "n \<in> set (kids s xs)" for n
    using parent_there(2) [OF assms, of xs n] that by (simp add: kids_iff proper_def)
  then show ?thesis using kids_distinct [OF assms] by (auto simp: is_dot_def)
qed

lemma table_laws: "tree_laws table_calls (bstr ''/t'') table_good table_view table_outside"
  unfolding tree_laws_def
proof (intro conjI)
  show "names_law table_good table_view"
    unfolding names_law_def view_simps
    using parent_there [of _ "bstr ''t'' # ns" for ns] by (auto simp: table_view_def proper_def)
  show "list_law table_calls (bstr ''/t'') table_good table_view"
    unfolding list_law_def
  proof (intro allI impI)
    fix s ns es e
    assume g: "table_good s" and d: "table_view s ns = Some Dir_Entry"
      and l: "sys_list table_calls s (as_c (child_path (bstr ''/t'') ns)) = Inr (es, e)"
    then have es: "es = [DOT] # [DOT, DOT] # kids s (bstr ''t'' # ns)"
      using table_call(1) [OF g] by (auto simp: view_simps)
    have "table_view s (ns @ [n]) \<noteq> None" if "n \<in> set (kids s (bstr ''t'' # ns))" for n
      using that by (simp add: kids_iff table_view_def)
    then show "distinct es \<and> (\<forall>n \<in> set es. \<not> is_dot n \<longrightarrow> table_view s (ns @ [n]) \<noteq> None)"
      using table_listing [OF g] unfolding es by (simp add: is_dot_def)
  qed
  show "lstat_law table_calls (bstr ''/t'') table_good table_view"
    unfolding lstat_law_def using table_call(2) by (auto simp: table_view_def split: if_splits)
  show "unlink_dir_law table_calls (bstr ''/t'') table_good table_view table_outside"
    unfolding unlink_dir_law_def using table_call(3) by (auto simp: view_simps)
  show "removal_law (bstr ''/t'') table_good table_view table_outside (sys_unlink table_calls) Other_Entry"
    unfolding removal_law_def
  proof (intro allI impI)
    fix s ns r s'
    assume g: "table_good s" and d: "table_view s ns = Some Other_Entry"
      and u: "sys_unlink table_calls s (as_c (child_path (bstr ''/t'') ns)) = (r, s')"
    from d obtain n where n: "node_at s (bstr ''t'' # ns) = Some n" "n \<noteq> N_Dir" by (auto simp: view_simps)
    with u table_call(3) [OF g n(1)] have "r = None" "s' = without (bstr ''t'' # ns) s" by auto
    then show "table_good s' \<and> table_outside s' = table_outside s
        \<and> table_view s' = (if r = None then (table_view s)(ns := None) else table_view s)
        \<and> (r = None \<longrightarrow> (\<forall>n. table_view s (ns @ [n]) = None))"
      using table_removed [OF g other_no_kids [OF g n]] by auto
  qed
  show "removal_law (bstr ''/t'') table_good table_view table_outside (sys_rmdir table_calls) Dir_Entry"
    unfolding removal_law_def
  proof (intro allI impI)
    fix s ns r s'
    assume g: "table_good s" and d: "table_view s ns = Some Dir_Entry"
      and u: "sys_rmdir table_calls s (as_c (child_path (bstr ''/t'') ns)) = (r, s')"
    from d have n: "node_at s (bstr ''t'' # ns) = Some N_Dir" by (auto simp: view_simps)
    show "table_good s' \<and> table_outside s' = table_outside s
        \<and> table_view s' = (if r = None then (table_view s)(ns := None) else table_view s)
        \<and> (r = None \<longrightarrow> (\<forall>n. table_view s (ns @ [n]) = None))"
      using u table_call(4) [OF g n] table_removed [OF g, of ns] g by (auto split: if_splits)
  qed
qed

lemma table_finite: "finite (dom (table_view s))"
proof (rule finite_subset)
  show "dom (table_view s) \<subseteq> tl ` insert [bstr ''t''] (set (map fst s))"
  proof
    fix ns
    assume "ns \<in> dom (table_view s)"
    then obtain n where "map_of s (bstr ''t'' # ns) = Some n" by (auto simp: table_view_def node_at_def)
    then have "bstr ''t'' # ns \<in> set (map fst s)" by (auto dest: map_of_SomeD intro: rev_image_eqI)
    then show "ns \<in> tl ` insert [bstr ''t''] (set (map fst s))" by (intro image_eqI [of _ _ "bstr ''t'' # ns"]) simp_all
  qed
qed simp

section \<open>Evaluated\<close>

text \<open>\<open>/t\<close> with a file, a directory, and in it a link to \<open>/h\<close>, which has a file.\<close>

definition scratch_tree :: file_table where
  "scratch_tree =
     [([bstr ''t''], N_Dir), ([bstr ''t'', bstr ''a''], N_File), ([bstr ''t'', bstr ''d''], N_Dir),
      ([bstr ''t'', bstr ''d'', bstr ''l''], N_Link [bstr ''h'']),
      ([bstr ''h''], N_Dir), ([bstr ''h'', bstr ''x''], N_File)]"

theorem remove_dir_all_stays_inside_witness:
  "\<exists>fuel r t. fs_remove_dir_all linux_libc table_calls fuel scratch_tree (bstr ''/t'') = Some (r, t)
     \<and> table_outside t = [([bstr ''h''], N_Dir), ([bstr ''h'', bstr ''x''], N_File)]"
proof -
  have "table_good scratch_tree"
    by (simp add: table_good_def scratch_tree_def proper_def is_dot_def node_at_def)
  moreover have "table_view scratch_tree [] = Some Dir_Entry"
    by (simp add: table_view_def scratch_tree_def node_at_def)
  moreover have "table_outside scratch_tree = [([bstr ''h''], N_Dir), ([bstr ''h'', bstr ''x''], N_File)]"
    by (simp add: table_outside_def scratch_tree_def)
  ultimately show ?thesis
    using remove_dir_all_stays_inside [OF table_laws _ table_finite _ order_refl, of scratch_tree linux_libc]
    by metis
qed

lemma scratch_tree_removed:
  "fs_remove_dir_all linux_libc table_calls 3 scratch_tree (bstr ''/t'')
    = Some (Ok (), [([bstr ''h''], N_Dir), ([bstr ''h'', bstr ''x''], N_File)])"
  by code_simp

text \<open>Where the name given is itself a link, \<open>opendir\<close> follows it: what the link points at is emptied, and
  the link is left, as \<open>rmdir\<close> does not take it. Both removals do this.\<close>

definition linked_tree :: file_table where
  "linked_tree = [([bstr ''t''], N_Link [bstr ''h'']), ([bstr ''h''], N_Dir), ([bstr ''h'', bstr ''x''], N_File)]"

lemma removal_follows_a_link:
  "map_option snd (fs_remove_dir_all linux_libc table_calls 2 linked_tree (bstr ''/t''))
     = Some [([bstr ''t''], N_Link [bstr ''h'']), ([bstr ''h''], N_Dir)]"
  "file_remove_dir_all table_calls 2 linked_tree (bstr ''/t'')
     = Some [([bstr ''t''], N_Link [bstr ''h'']), ([bstr ''h''], N_Dir)]"
  by code_simp+

text \<open>\<open>create_dir_all\<close> is content with whatever has the name: here a file.\<close>

lemma create_over_a_file:
  "fs_create_dir_all linux_libc table_calls [([bstr ''f''], N_File)] (bstr ''/f'') = (Ok (), [([bstr ''f''], N_File)])"
  by code_simp

end
