(* ===== verification/Spec2Isabelle.thy ===== *)
theory Spec2Isabelle
  imports Paths Utf8 Errors Streams Printing Line_Readers Locks Channels Channel_Threads Channel_Refinement
    Once_Cells Rw_Locks Thread_Values Local_Keys Env Commands
    Threads Mappings Heap Cpu Signals Descriptors Spawn Pumping Command_Runs
    Pid_Files Daemons Daemon_Files Sockets Clocks Files Directories File_Tables
begin

text \<open>
  \<^bold>\<open>ekostd.\<close> A replacement for the parts of Rust's standard library a compiler needs, over \<open>libc\<close>
  alone. The crate is a set of modules with few dependencies: \<open>lib.rs\<close> turns \<open>errno\<close> into values and
  is used by all; \<open>path.rs\<close> is pure and is used by whatever names a file; \<open>print.rs\<close>, \<open>file.rs\<close>,
  \<open>fs.rs\<close>, \<open>socket.rs\<close> and \<open>command.rs\<close> wrap descriptors and repeat system calls until they are done;
  \<open>thread.rs\<close> wraps pthreads and \<open>channel.rs\<close> is built on its mutex and condition variable;
  \<open>command.rs\<close> and \<open>daemonize.rs\<close> fork; \<open>mmap.rs\<close>, \<open>heap.rs\<close>, \<open>cpu.rs\<close>, \<open>signal.rs\<close>, \<open>time.rs\<close>, \<open>env.rs\<close>
  and \<open>proc.rs\<close> each stand over one facility of the system.

  \<^bold>\<open>How the code is read.\<close> A function of the source is a function here, with the source's name where
  HOL has not taken it. A byte is an \<open>8 word\<close>, a byte string a list of them, a machine integer a word of
  its width. \<open>Result<T, E>\<close> is a sum with \<open>Err = Inl\<close> and \<open>Ok = Inr\<close>; a panic, and a loop that has not
  ended when the answers run out, is \<open>None\<close>. \<open>&mut self\<close> takes the old value and gives the new one.
  The system, \<open>libc\<close> and the C allocator are not part of the crate and are never defined here; they
  come in as arguments, in one of three ways:
  \<^item> what a call returned, and the \<open>errno\<close> it left, as an argument of the operation that makes it (Env,
    Files, Sockets, Mappings, Clocks);
  \<^item> where a loop makes a call again and again, the list of the successive answers (Streams,
    Line_Readers, Commands): such a loop is a function on that list, ends with it, and the theorems say
    which answers are enough for it to return;
  \<^item> where the system keeps state, a record of functions with the documented laws as a hypothesis
    (\<open>allocator_laws\<close> in Heap, \<open>tree_laws\<close> in Directories), or the rules of a step relation.
  Error numbers differ per platform and are the record \<open>libc\<close>, constrained by \<open>posix_errnos\<close>, which the
  numbers of Linux and of macOS satisfy.

  \<^bold>\<open>The theories.\<close>
  \<^item> Prelude: bytes, Rust's slice operations, C strings, error numbers; the locales
    \<open>transition_system\<close> (what an invariant gives for every reachable state; interpreted by each of the
    step relations below), \<open>step_refinement\<close> (one step relation refines another; interpreted by
    Channel_Threads and Channel_Refinement) and \<open>owner\<close> (a value with a destructor releases what it holds once;
    interpreted by Mappings).
  \<^item> Paths (\<open>path.rs\<close>): \<open>Path\<close>, \<open>PathBuf\<close>, \<open>Components\<close>, \<open>Ancestors\<close> as the code computes them, walking
    byte offsets backwards, and the abstract path they refine: rooted or not, a leading dot or not, a
    list of names. Utf8: the lossy text of a path over Rust's validation of UTF-8, and a decoder without chunks that gives the same.
  \<^item> Errors (\<open>lib.rs\<close>, \<open>file.rs\<close>): \<open>Errno\<close>, \<open>checked\<close>, \<open>Error\<close> and \<open>ErrorKind\<close>.
  \<^item> Streams (\<open>print.rs\<close>, \<open>file.rs\<close>, \<open>socket.rs\<close>, \<open>command.rs\<close>): the three write loops under the locale
    \<open>write_loop\<close>, \<open>read\<close>, \<open>read_to_end\<close>, the reading of a child's pipe. Printing: the
    macros of \<open>print.rs\<close> as the two calls they expand to. Line_Readers: \<open>socket::Lines\<close>
    and \<open>file::Stdin\<close> under the locale \<open>line_reader\<close>, and \<open>BufWriter\<close>.
  \<^item> Files (\<open>file.rs\<close>, \<open>fs.rs\<close>): opening, metadata, positions, whole files and copies, with what their
    calls do to the files' contents. Directories:
    \<open>create_dir_all\<close>, \<open>read_dir\<close>, \<open>remove_dir_all\<close> of both modules and \<open>TempDir\<close>, over a file system that
    is a parameter. File_Tables: a table of names that satisfies its laws.
  \<^item> Sockets (\<open>socket.rs\<close>): the descriptor a value owns, addresses, bind, connect, accept.
  \<^item> Locks, Rw_Locks, Once_Cells, Thread_Values, Local_Keys, Threads (\<open>thread.rs\<close>): \<open>Mutex\<close> and
    \<open>Condvar\<close>; \<open>RwLock\<close>; \<open>OnceLock\<close> and \<open>LazyLock\<close>; \<open>ThreadLocal\<close>, \<open>LocalKey\<close>, \<open>ScopedKey\<close> and \<open>Once\<close>;
    \<open>LocalKey\<close> over a \<open>RefCell\<close>; \<open>spawn\<close>, \<open>join\<close> and \<open>scope\<close>. Channels (\<open>channel.rs\<close>): the
    bounded channel with a critical section as one step; Channel_Threads: the same call by call, on the mutex
    and the two condition variables; Channel_Refinement: the second refines the first, and Locks.
  \<^item> Env (\<open>env.rs\<close>): variables, \<open>PATH\<close>, the working directory, arguments.
  \<^item> Descriptors: the descriptor table of a process, with the locale \<open>descriptors\<close> for the one choice
    the system makes. Commands and Spawn (\<open>command.rs\<close>): what \<open>execve\<close> is given, the pipes read with
    \<open>poll\<close>, the exit status; and the descriptors of parent and child from \<open>pipe\<close> to \<open>execve\<close>.
    Pumping: the loop of \<open>output\<close>, the two bounded pipes and the program that writes to them, as one
    step relation. Command_Runs: a command from its builder to the program that runs, which reads its
    arguments and environment as \<open>env.rs\<close> does.
  \<^item> Pid_Files and Daemons (\<open>daemonize.rs\<close>): the pid file under its lock, the standard streams; and the
    readiness protocol of launcher, first child and daemon. Daemon_Files: the descriptors of all of
    \<open>daemonize\<close>, and what the programs a daemon starts inherit of them.
  \<^item> Mappings (\<open>mmap.rs\<close>), Heap (\<open>heap.rs\<close>), Cpu (\<open>cpu.rs\<close>), Signals (\<open>signal.rs\<close>), Clocks (\<open>time.rs\<close>,
    \<open>proc.rs\<close> and \<open>sleep_ms\<close> of \<open>lib.rs\<close>).

  \<^bold>\<open>What is shown.\<close>
  \<^item> Refinement and equivalence: the byte-level operations on paths compute on components what they
    mean (\<open>parent\<close>, \<open>file_name\<close>, \<open>push\<close>, \<open>set_file_name\<close>, \<open>strip_prefix\<close>, \<open>set_extension\<close>); both line
    readers split their input at the newlines; the two \<open>create_dir_all\<close> are one function; an
    environment is the inherited one with the last override of each key; \<open>ScopedKey\<close> and the borrows of
    a \<open>RefCell\<close> are lexical; the lossy text of a path replaces each invalid sequence once; a feature of the
    processor is reported exactly when its bit and what it needs are there.
  \<^item> Invariants of step relations, for any number of threads or processes and every interleaving: order
    and capacity of the channel, no lost wake-up, and two ends that do not sleep on each other if it has room
    for a value (with capacity 0 they can: \<open>capacity_zero_both_sleep\<close>); exclusion under the read-write lock (and how taking it
    twice breaks it); the counter of the condition variable; one initialisation of a \<open>OnceLock\<close>; one key per
    \<open>ThreadLocal\<close>; one owner of a pid file; joins and scopes that leave no thread and no block behind;
    the launcher's exit status, and that it gets to exit as long as no process whose \<open>daemonize\<close> failed lives
    on (then it waits for that process to end: \<open>failed_daemon_holds_launcher\<close>); \<open>output\<close>, which never blocks on one
    pipe while a program is stuck on the other, and ends with all of both.
  \<^item> Loops: what a loop has passed on, that it returns once the system has answered often enough
    (interruptions, and zero counts for writes, do not count), and what it reports when the system fails in
    the middle; what a copy leaves in its destination and that it changes no other file; what each of a series
    of reads of the signal pipe reports, with at most 64 arrivals between two.
  \<^item> Resources: descriptors that are closed exactly when an operation fails, mappings unmapped once,
    blocks given back once, removals that never leave the directory they were given.
  \<^item> Across components: the channel on the mutex and condition variables it is built from, which gives its
    threads mutual exclusion, order and wake-ups, and that one of them can always go on; what a built
    command becomes (the candidates of \<open>PATH\<close>, the argument vector, the
    environment and the descriptors put together), and the descriptors of a daemon and its launcher.
  \<^item> Widths: page rounding, durations, decimal pids, allocations against their layout.
  Where the code does otherwise than it says, a lemma shows the case: \<open>relocking_breaks_exclusion\<close>,
  \<open>pending_race\<close>, \<open>interrupted_launcher_kills_daemon\<close>, \<open>second_signal_is_dropped\<close>, \<open>removal_follows_a_link\<close>
  and others beside the properties they limit.

  \<^bold>\<open>Fuel and bounds.\<close> Only the recursive removals of Directories take fuel, how deep they may go; any number
  not below that of the names in the tree is enough, which is part of their theorem. \<open>first_free\<close> stops at
  1024 descriptors. Other recursions are structural, or over a byte offset or list that shrinks. Numbers
  that the source gives a width have it, except where a count cannot reach it: \<open>waiters\<close>, handles of a
  channel, borrows of a cell and descriptors are natural numbers or integers.

  \<^bold>\<open>Interleaving.\<close> A step is one call to the system, one atomic access, or one critical section under the
  mutex; that the last is adequate for the channel is what Channel_Refinement shows. The atomics of the crate pair \<open>Release\<close> stores with \<open>Acquire\<close> loads, for which interleaving is
  adequate. The counter of \<open>Condvar\<close> is accessed with \<open>Relaxed\<close>, in every place under the mutex as
  far as the theorem about it goes; the page size and the names of temporary directories, which are
  \<open>Relaxed\<close> too, depend on no other access.

  \<^bold>\<open>Not modelled.\<close> \<open>math.rs\<close>, bindings to \<open>log\<close> and \<open>pow\<close> of libm on floating point. The macros
  \<open>thread_local!\<close> and \<open>scoped_thread_local!\<close>, which expand to functions that are modelled; formatting by
  \<open>core::fmt\<close> and the \<open>Debug\<close> texts. Conversions that only change the type of a path (\<open>From\<close>, \<open>AsRef\<close>,
  \<open>Borrow\<close>, \<open>Deref\<close>): they are the identity on its bytes. \<open>exit\<close>, \<open>id\<close>, \<open>current_id\<close>, \<open>is_terminal\<close>: one
  call, nothing of the crate's own. The safety of raw pointers and lifetimes beyond what the states above
  track (mapped ranges, blocks, keys, boxes), \<open>Send\<close> and \<open>Sync\<close>. The tests at the end of the files.
\<close>

end
